(* ===== verification/Prelude.thy ===== *)
theory Prelude
  imports
    Main
    "HOL-Library.Word"
    "HOL-Library.Signed_Division"
    "HOL-Library.Char_ord"
    "HOL-Library.List_Lexorder"
    "HOL-Library.Sublist"
    "HOL-Library.Multiset"
begin

text \<open>
  Shared vocabulary of the development: the lemma collections the component theories fill,
  Go's fixed-width integers and string operations as far as the sources use them, and the
  generic lemmas on lists and maps.

  Go strings are byte sequences, so they are modelled as \<^typ>\<open>string\<close> (each \<^typ>\<open>char\<close>
  is one byte). Go's comparison of strings is the bytewise lexicographic order, which is the
  order that the imported list and character orders give to \<^typ>\<open>string\<close>.
\<close>

named_theorems sandbox_defs \<open>definitions of straight-line operations, unfolded by proofs\<close>
named_theorems keeps_inv \<open>preservation of a component's invariant by its operations\<close>

section \<open>Go integers\<close>

text \<open>Durations are nanosecond counts and instants are Unix times, both int64 in Go.\<close>

type_synonym duration = int
type_synonym unix_time = int
type_synonym u64 = "64 word"

abbreviation second_ns :: duration where
  "second_ns \<equiv> 1000000000"

abbreviation in_int64 :: "int \<Rightarrow> bool" where
  "in_int64 x \<equiv> - (2 ^ 63) \<le> x \<and> x < 2 ^ 63"

text \<open>Two's complement wrap-around of an int64 result.\<close>

definition wrap64 :: "int \<Rightarrow> int" where
  "wrap64 x = (x + 2 ^ 63) mod 2 ^ 64 - 2 ^ 63"

lemma wrap64_id [simp]: "in_int64 x \<Longrightarrow> wrap64 x = x"
  by (simp add: wrap64_def)

lemma wrap64_range: "in_int64 (wrap64 x)"
  by (simp add: wrap64_def)

text \<open>\<open>Time.Sub\<close> saturates at the ends of the Duration range.\<close>

definition timeSub :: "int \<Rightarrow> int \<Rightarrow> duration" where
  "timeSub a b = max (- (2 ^ 63)) (min (2 ^ 63 - 1) (a - b))"

lemma timeSub_id [simp]: "in_int64 (a - b) \<Longrightarrow> timeSub a b = a - b"
  by (simp add: timeSub_def)

lemma timeSub_mono: "a \<le> a' \<Longrightarrow> timeSub a b \<le> timeSub a' b"
  by (simp add: timeSub_def)

section \<open>Go strings\<close>

definition hasPrefix :: "string \<Rightarrow> string \<Rightarrow> bool" where
  "hasPrefix s p \<longleftrightarrow> take (length p) s = p"

definition trimRight :: "string \<Rightarrow> char \<Rightarrow> string" where
  "trimRight s c = rev (dropWhile (\<lambda>x. x = c) (rev s))"

text \<open>
  \<open>strings.TrimSpace\<close> on the ASCII white space characters; the multi-byte Unicode spaces it
  also removes do not occur in the addresses it is applied to.
\<close>

definition isSpace :: "char \<Rightarrow> bool" where
  "isSpace c \<longleftrightarrow> c \<in> set [CHR 0x09, CHR 0x0A, CHR 0x0B, CHR 0x0C, CHR 0x0D, CHR 0x20]"

definition trimSpace :: "string \<Rightarrow> string" where
  "trimSpace s = rev (dropWhile isSpace (rev (dropWhile isSpace s)))"

lemma hasPrefix_iff: "hasPrefix s p \<longleftrightarrow> (\<exists>t. s = p @ t)"
  unfolding hasPrefix_def by (metis append_eq_conv_conj append_take_drop_id)

lemma hasPrefix_append [simp]: "hasPrefix (p @ s) p"
  by (simp add: hasPrefix_iff)

lemma trimRight_not_last: "trimRight s c = [] \<or> last (trimRight s c) \<noteq> c"
proof (cases "dropWhile (\<lambda>x. x = c) (rev s)")
  case Nil
  then show ?thesis by (simp add: trimRight_def)
next
  case (Cons a list)
  then have "a \<noteq> c"
    by (metis (mono_tags) dropWhile_eq_Cons_conv)
  with Cons show ?thesis by (simp add: trimRight_def)
qed

lemma trimRight_idem [simp]: "trimRight (trimRight s c) c = trimRight s c"
  by (simp add: trimRight_def)

section \<open>Counting with finite support\<close>

text \<open>Go's \<open>m[k]\<close> on a \<open>map[K]int\<close>: the zero value when the key is absent.\<close>

definition get0 :: "('k \<rightharpoonup> int) \<Rightarrow> 'k \<Rightarrow> int" where
  "get0 m k = (case m k of None \<Rightarrow> 0 | Some n \<Rightarrow> n)"

lemma get0_upd [simp]: "get0 (m(k \<mapsto> n)) k' = (if k' = k then n else get0 m k')"
  by (simp add: get0_def)

lemma get0_del [simp]: "get0 (m(k := None)) k' = (if k' = k then 0 else get0 m k')"
  by (simp add: get0_def)

lemma get0_empty [simp]: "get0 Map.empty k = 0"
  by (simp add: get0_def)

section \<open>Lists\<close>

lemma distinct_by_prefix: "(\<And>k. k < length xs \<Longrightarrow> xs ! k \<notin> set (take k xs)) \<Longrightarrow> distinct xs"
proof (induction xs rule: rev_induct)
  case (snoc x xs)
  have "x \<notin> set xs" using snoc.prems [of "length xs"] by simp
  moreover have "distinct xs"
  proof (rule snoc.IH)
    fix k assume "k < length xs"
    with snoc.prems [of k] show "xs ! k \<notin> set (take k xs)" by (simp add: nth_append)
  qed
  ultimately show ?case by simp
qed simp

section \<open>Rows of a table\<close>

text \<open>
  A database table is the list of its rows; \<open>count_rows\<close> is \<open>SELECT COUNT(*) ... WHERE\<close>,
  \<open>find_row\<close> a lookup by primary key, \<open>update_rows\<close> an \<open>UPDATE ... WHERE\<close>.
\<close>

definition count_rows :: "('r \<Rightarrow> bool) \<Rightarrow> 'r list \<Rightarrow> nat" where
  "count_rows p rs = length (filter p rs)"

definition find_row :: "('r \<Rightarrow> 'k) \<Rightarrow> 'k \<Rightarrow> 'r list \<Rightarrow> 'r option" where
  "find_row key k rs = List.find (\<lambda>r. key r = k) rs"

definition update_rows :: "('r \<Rightarrow> bool) \<Rightarrow> ('r \<Rightarrow> 'r) \<Rightarrow> 'r list \<Rightarrow> 'r list" where
  "update_rows p f rs = map (\<lambda>r. if p r then f r else r) rs"

lemma count_rows_simps [simp]:
  "count_rows p [] = 0"
  "count_rows p (r # rs) = (if p r then 1 else 0) + count_rows p rs"
  "count_rows p (rs @ rs') = count_rows p rs + count_rows p rs'"
  by (simp_all add: count_rows_def)

lemma count_rows_filter_le: "count_rows p (filter q rs) \<le> count_rows p rs"
  by (induction rs) auto

lemma count_rows_zero_iff: "count_rows p rs = 0 \<longleftrightarrow> (\<forall>r \<in> set rs. \<not> p r)"
  by (induction rs) auto

lemma find_row_simps [simp]:
  "find_row key k [] = None"
  "find_row key k (r # rs) = (if key r = k then Some r else find_row key k rs)"
  by (simp_all add: find_row_def)

lemma find_row_None_iff: "find_row key k rs = None \<longleftrightarrow> k \<notin> key ` set rs"
  by (induction rs) auto

lemma find_row_SomeD: "find_row key k rs = Some r \<Longrightarrow> r \<in> set rs \<and> key r = k"
  by (induction rs) (auto split: if_splits)

lemma find_row_distinct:
  "distinct (map key rs) \<Longrightarrow> r \<in> set rs \<Longrightarrow> find_row key (key r) rs = Some r"
  by (induction rs) auto

lemma find_row_append:
  "find_row key k (rs @ rs') =
     (case find_row key k rs of None \<Rightarrow> find_row key k rs' | Some r \<Rightarrow> Some r)"
  by (induction rs) auto

lemma find_row_filter_key:
  "find_row key k (filter (\<lambda>r. key r \<noteq> k') rs) = (if k = k' then None else find_row key k rs)"
  by (induction rs) auto

lemma update_rows_simps [simp]:
  "update_rows p f [] = []"
  "update_rows p f (r # rs) = (if p r then f r else r) # update_rows p f rs"
  by (simp_all add: update_rows_def)

lemma map_key_update_rows [simp]:
  "(\<And>r. key (f r) = key r) \<Longrightarrow> map key (update_rows p f rs) = map key rs"
  by (induction rs) auto

lemma image_key_update_rows [simp]:
  "(\<And>r. key (f r) = key r) \<Longrightarrow> key ` set (update_rows p f rs) = key ` set rs"
  by (induction rs) auto

lemma set_update_rows: "set (update_rows p f rs) = (\<lambda>r. if p r then f r else r) ` set rs"
  by (simp add: update_rows_def)

lemma find_row_update:
  "(\<And>r. key (f r) = key r) \<Longrightarrow>
   find_row key k (update_rows (\<lambda>r. key r = k') f rs) =
     (if k = k' then map_option f (find_row key k rs) else find_row key k rs)"
  by (induction rs) auto

lemma count_rows_update_rows:
  "(\<And>r. q (f r) = q r) \<Longrightarrow> count_rows q (update_rows p f rs) = count_rows q rs"
  by (induction rs) auto

end
