(* ===== verification/Sandbox_Store.thy ===== *)
theory Sandbox_Store
  imports Prelude
begin

text \<open>
  The sandbox store: the records of \<^verbatim>\<open>internal/api/store/store.go\<close> and the SQLite
  operations of \<^verbatim>\<open>internal/api/store/sqlite.go\<close>, with the keys and constraints of
  \<^verbatim>\<open>migrations_sqlite.go\<close> (primary keys on the three ids, \<open>api_keys.tenant_id\<close> a
  foreign key that cascades on delete).

  The database is a record of three tables. SQLite runs one writer at a time and the store's
  two transactions use \<open>BEGIN IMMEDIATE\<close>, so every operation is one atomic step. What the
  driver may do to a statement is a \<open>fault\<close>: fail without effect, or, for a statement or a
  commit whose reply is lost, take effect and still report an error. Faults are arguments, so
  that every error branch of the source is a branch of the model.
\<close>

section \<open>Records\<close>

record SandboxRecord =
  sb_ID :: string
  sb_Status :: string
  sb_CreatedAt :: unix_time
  sb_LastActiveAt :: unix_time
  sb_RootfsPath :: string
  sb_SocketPath :: string
  sb_ContainerIP :: string
  sb_DaemonPort :: int
  sb_RunnerID :: string
  sb_RunnerHTTPBase :: string
  sb_RunnerControlGRPCAddr :: string
  sb_TenantID :: string
  sb_Ephemeral :: bool
  sb_Egress :: string

record Tenant =
  tn_ID :: string
  tn_Name :: string
  tn_ExternalRef :: string
  tn_MaxSandboxes :: int
  tn_CreatedAt :: unix_time

record APIKey =
  ak_ID :: string
  ak_TenantID :: string
  ak_KeyHash :: string
  ak_Prefix :: string
  ak_CreatedAt :: unix_time
  ak_RevokedAt :: unix_time

text \<open>A row of \<open>api_keys\<close>: \<open>revoked_at\<close> is nullable, the struct's field is 0 for null.\<close>

record api_key_row =
  kr_ID :: string
  kr_TenantID :: string
  kr_KeyHash :: string
  kr_Prefix :: string
  kr_CreatedAt :: unix_time
  kr_RevokedAt :: "unix_time option"

datatype store_error =
    ErrTenantHasSandboxes
  | ErrTenantNotFound
  | ErrTenantQuotaExceeded
  | ErrAPIKeyTenantMismatch
  | ErrDB string

definition AdminTenantID :: string where
  "AdminTenantID = ''__admin__''"

definition IsAdminTenantID :: "string \<Rightarrow> bool" where
  "IsAdminTenantID tenantID \<longleftrightarrow> tenantID = '''' \<or> tenantID = AdminTenantID"

section \<open>The database and its faults\<close>

record db =
  db_sandboxes :: "SandboxRecord list"
  db_tenants :: "Tenant list"
  db_keys :: "api_key_row list"

definition empty_db :: db where
  "empty_db = \<lparr>db_sandboxes = [], db_tenants = [], db_keys = []\<rparr>"

datatype fault = NoFault | FailBefore string | FailAfter string

definition errorf :: "string \<Rightarrow> string \<Rightarrow> store_error" where
  "errorf ctx cause = ErrDB (''store: '' @ ctx @ '': '' @ cause)"

text \<open>One writing statement, outside a transaction; a violated constraint is \<open>Inl\<close>.\<close>

definition run_write ::
    "fault \<Rightarrow> string \<Rightarrow> (db \<Rightarrow> string + db) \<Rightarrow> db \<Rightarrow> store_error option \<times> db" where
  "run_write f ctx stmt s =
     (case f of
        FailBefore e \<Rightarrow> (Some (errorf ctx e), s)
      | NoFault \<Rightarrow> (case stmt s of Inl e \<Rightarrow> (Some (errorf ctx e), s) | Inr s' \<Rightarrow> (None, s'))
      | FailAfter e \<Rightarrow>
          (case stmt s of Inl e' \<Rightarrow> (Some (errorf ctx e'), s) | Inr s' \<Rightarrow> (Some (errorf ctx e), s')))"

definition run_read :: "fault \<Rightarrow> string \<Rightarrow> 'a \<Rightarrow> store_error + 'a" where
  "run_read f ctx v =
     (case f of NoFault \<Rightarrow> Inr v | FailBefore e \<Rightarrow> Inl (errorf ctx e) | FailAfter e \<Rightarrow> Inl (errorf ctx e))"

text \<open>A commit: without a fault it lands; a fault before it rolls back.\<close>

definition run_commit :: "fault \<Rightarrow> string \<Rightarrow> db \<Rightarrow> db \<Rightarrow> store_error option \<times> db" where
  "run_commit f ctx old new =
     (case f of
        NoFault \<Rightarrow> (None, new)
      | FailBefore e \<Rightarrow> (Some (errorf ctx e), old)
      | FailAfter e \<Rightarrow> (Some (errorf ctx e), new))"

section \<open>Sandbox rows\<close>

definition insertSandbox :: "SandboxRecord \<Rightarrow> db \<Rightarrow> string + db" where
  "insertSandbox r s =
     (if sb_ID r \<in> sb_ID ` set (db_sandboxes s) then Inl ''UNIQUE constraint failed: sandboxes.id''
      else Inr (s\<lparr>db_sandboxes := db_sandboxes s @ [r]\<rparr>))"

record create_faults =
  cf_begin :: fault
  cf_tenant :: fault
  cf_count :: fault
  cf_insert :: fault
  cf_commit :: fault

definition no_create_faults :: create_faults where
  "no_create_faults = \<lparr>cf_begin = NoFault, cf_tenant = NoFault, cf_count = NoFault,
     cf_insert = NoFault, cf_commit = NoFault\<rparr>"

abbreviation owned_by :: "string \<Rightarrow> SandboxRecord \<Rightarrow> bool" where
  "owned_by t r \<equiv> sb_TenantID r = t"

definition tenant_sandboxes :: "string \<Rightarrow> db \<Rightarrow> int" where
  "tenant_sandboxes t s = int (count_rows (owned_by t) (db_sandboxes s))"

text \<open>
  The body of the transaction after the tenant row was read: the quota check, the insert and
  the commit; every early return rolls back.
\<close>

definition create_tx ::
    "create_faults \<Rightarrow> SandboxRecord \<Rightarrow> int \<Rightarrow> db \<Rightarrow> store_error option \<times> db" where
  "create_tx f r maxSandboxes s =
     (let insert_commit =
        (case run_write (cf_insert f) (''create sandbox '' @ sb_ID r) (insertSandbox r) s of
           (Some e, _) \<Rightarrow> (Some e, s)
         | (None, s') \<Rightarrow> run_commit (cf_commit f) ''commit create sandbox'' s s')
      in
      if maxSandboxes > 0 then
        (case run_read (cf_count f) ''count sandboxes by tenant'' (tenant_sandboxes (sb_TenantID r) s) of
           Inl e \<Rightarrow> (Some e, s)
         | Inr n \<Rightarrow> if n \<ge> maxSandboxes then (Some ErrTenantQuotaExceeded, s) else insert_commit)
      else insert_commit)"

definition Create :: "create_faults \<Rightarrow> SandboxRecord \<Rightarrow> db \<Rightarrow> store_error option \<times> db" where
  "Create f r s =
     (if IsAdminTenantID (sb_TenantID r) then
        run_write (cf_insert f) (''create sandbox '' @ sb_ID r) (insertSandbox r) s
      else
        (case cf_begin f of
           FailBefore e \<Rightarrow> (Some (errorf ''begin create sandbox'' e), s)
         | FailAfter e \<Rightarrow> (Some (errorf ''begin create sandbox'' e), s)
         | NoFault \<Rightarrow>
             (case run_read (cf_tenant f) (''get tenant '' @ sb_TenantID r)
                (find_row tn_ID (sb_TenantID r) (db_tenants s)) of
                Inl e \<Rightarrow> (Some e, s)
              | Inr None \<Rightarrow> (Some ErrTenantNotFound, s)
              | Inr (Some t) \<Rightarrow> create_tx f r (tn_MaxSandboxes t) s)))"

definition Get :: "fault \<Rightarrow> string \<Rightarrow> db \<Rightarrow> store_error + SandboxRecord option" where
  "Get f i s = run_read f (''get sandbox '' @ i) (find_row sb_ID i (db_sandboxes s))"

definition UpdateStatus :: "fault \<Rightarrow> string \<Rightarrow> string \<Rightarrow> db \<Rightarrow> store_error option \<times> db" where
  "UpdateStatus f i status s =
     run_write f (''update status for '' @ i)
       (\<lambda>s. Inr (s\<lparr>db_sandboxes := update_rows (\<lambda>r. sb_ID r = i) (sb_Status_update (\<lambda>_. status))
          (db_sandboxes s)\<rparr>)) s"

definition UpdateLastActive :: "fault \<Rightarrow> unix_time \<Rightarrow> string \<Rightarrow> db \<Rightarrow> store_error option \<times> db" where
  "UpdateLastActive f now i s =
     run_write f (''update last_active_at for '' @ i)
       (\<lambda>s. Inr (s\<lparr>db_sandboxes := update_rows (\<lambda>r. sb_ID r = i) (sb_LastActiveAt_update (\<lambda>_. now))
          (db_sandboxes s)\<rparr>)) s"

definition Delete :: "fault \<Rightarrow> string \<Rightarrow> db \<Rightarrow> store_error option \<times> db" where
  "Delete f i s =
     run_write f (''delete sandbox '' @ i)
       (\<lambda>s. Inr (s\<lparr>db_sandboxes := filter (\<lambda>r. sb_ID r \<noteq> i) (db_sandboxes s)\<rparr>)) s"

definition ListForIdleReapDelete :: "fault \<Rightarrow> unix_time \<Rightarrow> db \<Rightarrow> store_error + SandboxRecord list" where
  "ListForIdleReapDelete f cutoff s =
     run_read f ''query sandboxes''
       (filter (\<lambda>r. sb_Status r = ''stopped'' \<and> sb_LastActiveAt r \<le> cutoff) (db_sandboxes s))"

definition ListForIdleReapStop ::
    "fault \<Rightarrow> unix_time \<Rightarrow> bool \<Rightarrow> db \<Rightarrow> store_error + SandboxRecord list" where
  "ListForIdleReapStop f cutoff ephemeral s =
     run_read f ''query sandboxes''
       (filter (\<lambda>r. sb_Status r = ''running'' \<and> sb_LastActiveAt r \<le> cutoff
                  \<and> sb_Ephemeral r = ephemeral) (db_sandboxes s))"

definition Count :: "fault \<Rightarrow> db \<Rightarrow> store_error + int" where
  "Count f s = run_read f ''count sandboxes'' (int (length (db_sandboxes s)))"

definition CountByTenant :: "fault \<Rightarrow> string \<Rightarrow> db \<Rightarrow> store_error + int" where
  "CountByTenant f tenantID s =
     run_read f ''count sandboxes by tenant'' (tenant_sandboxes tenantID s)"

text \<open>\<open>ORDER BY created_at DESC\<close>; rows with equal times keep their insertion order.\<close>

definition ListSandboxes :: "fault \<Rightarrow> db \<Rightarrow> store_error + SandboxRecord list" where
  "ListSandboxes f s = run_read f ''query sandboxes'' (sort_key (\<lambda>r. - sb_CreatedAt r) (db_sandboxes s))"

definition ListByTenant :: "fault \<Rightarrow> string \<Rightarrow> db \<Rightarrow> store_error + SandboxRecord list" where
  "ListByTenant f tenantID s =
     run_read f ''query sandboxes''
       (sort_key (\<lambda>r. - sb_CreatedAt r) (filter (owned_by tenantID) (db_sandboxes s)))"

section \<open>Tenants and API keys\<close>

definition insertTenant :: "Tenant \<Rightarrow> db \<Rightarrow> string + db" where
  "insertTenant t s =
     (if tn_ID t \<in> tn_ID ` set (db_tenants s) then Inl ''UNIQUE constraint failed: tenants.id''
      else Inr (s\<lparr>db_tenants := db_tenants s @ [t]\<rparr>))"

text \<open>The key statements store null for \<open>RevokedAt = 0\<close>.\<close>

definition key_row :: "APIKey \<Rightarrow> api_key_row" where
  "key_row k = \<lparr>kr_ID = ak_ID k, kr_TenantID = ak_TenantID k, kr_KeyHash = ak_KeyHash k,
     kr_Prefix = ak_Prefix k, kr_CreatedAt = ak_CreatedAt k,
     kr_RevokedAt = (if ak_RevokedAt k > 0 then Some (ak_RevokedAt k) else None)\<rparr>"

definition insertKey :: "APIKey \<Rightarrow> db \<Rightarrow> string + db" where
  "insertKey k s =
     (if ak_ID k \<in> kr_ID ` set (db_keys s) then Inl ''UNIQUE constraint failed: api_keys.id''
      else if ak_TenantID k \<notin> tn_ID ` set (db_tenants s) then Inl ''FOREIGN KEY constraint failed''
      else Inr (s\<lparr>db_keys := db_keys s @ [key_row k]\<rparr>))"

definition scanAPIKey :: "api_key_row \<Rightarrow> APIKey" where
  "scanAPIKey r = \<lparr>ak_ID = kr_ID r, ak_TenantID = kr_TenantID r, ak_KeyHash = kr_KeyHash r,
     ak_Prefix = kr_Prefix r, ak_CreatedAt = kr_CreatedAt r,
     ak_RevokedAt = (case kr_RevokedAt r of None \<Rightarrow> 0 | Some v \<Rightarrow> v)\<rparr>"

definition CreateTenant :: "fault \<Rightarrow> Tenant \<Rightarrow> db \<Rightarrow> store_error option \<times> db" where
  "CreateTenant f t s = run_write f (''create tenant '' @ tn_ID t) (insertTenant t) s"

record tenant_key_faults =
  tk_begin :: fault
  tk_tenant :: fault
  tk_key :: fault
  tk_commit :: fault

definition CreateTenantWithAPIKey ::
    "tenant_key_faults \<Rightarrow> Tenant \<Rightarrow> APIKey \<Rightarrow> db \<Rightarrow> store_error option \<times> db" where
  "CreateTenantWithAPIKey f t k s =
     (if ak_TenantID k \<noteq> tn_ID t then (Some ErrAPIKeyTenantMismatch, s)
      else (case tk_begin f of
          FailBefore e \<Rightarrow> (Some (errorf ''begin tenant+key'' e), s)
        | FailAfter e \<Rightarrow> (Some (errorf ''begin tenant+key'' e), s)
        | NoFault \<Rightarrow>
            (case run_write (tk_tenant f) (''create tenant '' @ tn_ID t) (insertTenant t) s of
               (Some e, _) \<Rightarrow> (Some e, s)
             | (None, s1) \<Rightarrow>
                 (case run_write (tk_key f) (''create api key '' @ ak_ID k) (insertKey k) s1 of
                    (Some e, _) \<Rightarrow> (Some e, s)
                  | (None, s2) \<Rightarrow> run_commit (tk_commit f) ''commit tenant+key'' s s2))))"

definition GetTenant :: "fault \<Rightarrow> string \<Rightarrow> db \<Rightarrow> store_error + Tenant option" where
  "GetTenant f i s = run_read f (''get tenant '' @ i) (find_row tn_ID i (db_tenants s))"

definition ListTenants :: "fault \<Rightarrow> db \<Rightarrow> store_error + Tenant list" where
  "ListTenants f s = run_read f ''list tenants'' (sort_key (\<lambda>t. - tn_CreatedAt t) (db_tenants s))"

definition UpdateTenantLimits ::
    "fault \<Rightarrow> fault \<Rightarrow> string \<Rightarrow> int \<Rightarrow> db \<Rightarrow> store_error option \<times> db" where
  "UpdateTenantLimits f g i maxSandboxes s =
     (case run_write f (''update tenant '' @ i @ '' limits'')
        (\<lambda>s. Inr (s\<lparr>db_tenants := update_rows (\<lambda>t. tn_ID t = i)
           (tn_MaxSandboxes_update (\<lambda>_. maxSandboxes)) (db_tenants s)\<rparr>)) s of
        (Some e, s') \<Rightarrow> (Some e, s')
      | (None, s') \<Rightarrow>
          (case run_read g (''update tenant '' @ i @ '' limits'')
             (count_rows (\<lambda>t. tn_ID t = i) (db_tenants s)) of
             Inl e \<Rightarrow> (Some e, s')
           | Inr n \<Rightarrow> if n = 0 then (Some ErrTenantNotFound, s') else (None, s')))"

record delete_tenant_faults =
  dt_begin :: fault
  dt_get :: fault
  dt_count :: fault
  dt_delete :: fault
  dt_commit :: fault

text \<open>The delete statement with the cascade to \<open>api_keys\<close>.\<close>

definition delete_tenant_rows :: "string \<Rightarrow> db \<Rightarrow> db" where
  "delete_tenant_rows i s =
     s\<lparr>db_tenants := filter (\<lambda>t. tn_ID t \<noteq> i) (db_tenants s),
       db_keys := filter (\<lambda>k. kr_TenantID k \<noteq> i) (db_keys s)\<rparr>"

definition DeleteTenant :: "delete_tenant_faults \<Rightarrow> string \<Rightarrow> db \<Rightarrow> store_error option \<times> db" where
  "DeleteTenant f i s =
     (case dt_begin f of
        FailBefore e \<Rightarrow> (Some (errorf ''begin delete tenant'' e), s)
      | FailAfter e \<Rightarrow> (Some (errorf ''begin delete tenant'' e), s)
      | NoFault \<Rightarrow>
          (case run_read (dt_get f) (''get tenant '' @ i) (find_row tn_ID i (db_tenants s)) of
             Inl e \<Rightarrow> (Some e, s)
           | Inr None \<Rightarrow> (None, s)
           | Inr (Some t) \<Rightarrow>
               (case run_read (dt_count f) ''count sandboxes by tenant'' (tenant_sandboxes i s) of
                  Inl e \<Rightarrow> (Some e, s)
                | Inr n \<Rightarrow>
                    if n > 0 then (Some ErrTenantHasSandboxes, s)
                    else (case run_write (dt_delete f) (''delete tenant '' @ i)
                            (\<lambda>s. Inr (delete_tenant_rows i s)) s of
                            (Some e, _) \<Rightarrow> (Some e, s)
                          | (None, s') \<Rightarrow> run_commit (dt_commit f) ''commit delete tenant'' s s'))))"

definition CreateAPIKey :: "fault \<Rightarrow> APIKey \<Rightarrow> db \<Rightarrow> store_error option \<times> db" where
  "CreateAPIKey f k s = run_write f (''create api key '' @ ak_ID k) (insertKey k) s"

definition GetAPIKey :: "fault \<Rightarrow> string \<Rightarrow> db \<Rightarrow> store_error + APIKey option" where
  "GetAPIKey f i s =
     run_read f (''get api key '' @ i) (map_option scanAPIKey (find_row kr_ID i (db_keys s)))"

definition ListAPIKeysByTenant :: "fault \<Rightarrow> string \<Rightarrow> db \<Rightarrow> store_error + APIKey list" where
  "ListAPIKeysByTenant f tenantID s =
     run_read f ''list api keys''
       (map scanAPIKey (sort_key (\<lambda>k. - kr_CreatedAt k)
          (filter (\<lambda>k. kr_TenantID k = tenantID) (db_keys s))))"

definition ListActiveAPIKeysByPrefix :: "fault \<Rightarrow> string \<Rightarrow> db \<Rightarrow> store_error + APIKey list" where
  "ListActiveAPIKeysByPrefix f pre s =
     run_read f ''list api keys by prefix''
       (map scanAPIKey (filter (\<lambda>k. kr_Prefix k = pre \<and> kr_RevokedAt k = None) (db_keys s)))"

definition RevokeAPIKey :: "fault \<Rightarrow> unix_time \<Rightarrow> string \<Rightarrow> db \<Rightarrow> store_error option \<times> db" where
  "RevokeAPIKey f now i s =
     run_write f (''revoke api key '' @ i)
       (\<lambda>s. Inr (s\<lparr>db_keys := update_rows (\<lambda>k. kr_ID k = i \<and> kr_RevokedAt k = None)
          (kr_RevokedAt_update (\<lambda>_. Some now)) (db_keys s)\<rparr>)) s"

section \<open>Operations as a datatype\<close>

text \<open>Every operation that writes, with the faults it meets, so that runs can be quantified.\<close>

datatype store_op =
    OpCreate create_faults SandboxRecord
  | OpUpdateStatus fault string string
  | OpUpdateLastActive fault unix_time string
  | OpDelete fault string
  | OpCreateTenant fault Tenant
  | OpCreateTenantWithAPIKey tenant_key_faults Tenant APIKey
  | OpUpdateTenantLimits fault fault string int
  | OpDeleteTenant delete_tenant_faults string
  | OpCreateAPIKey fault APIKey
  | OpRevokeAPIKey fault unix_time string

fun store_apply :: "store_op \<Rightarrow> db \<Rightarrow> store_error option \<times> db" where
  "store_apply (OpCreate f r) s = Create f r s"
| "store_apply (OpUpdateStatus f i st) s = UpdateStatus f i st s"
| "store_apply (OpUpdateLastActive f now i) s = UpdateLastActive f now i s"
| "store_apply (OpDelete f i) s = Delete f i s"
| "store_apply (OpCreateTenant f t) s = CreateTenant f t s"
| "store_apply (OpCreateTenantWithAPIKey f t k) s = CreateTenantWithAPIKey f t k s"
| "store_apply (OpUpdateTenantLimits f g i n) s = UpdateTenantLimits f g i n s"
| "store_apply (OpDeleteTenant f i) s = DeleteTenant f i s"
| "store_apply (OpCreateAPIKey f k) s = CreateAPIKey f k s"
| "store_apply (OpRevokeAPIKey f now i) s = RevokeAPIKey f now i s"

fun store_run :: "store_op list \<Rightarrow> db \<Rightarrow> db" where
  "store_run [] s = s"
| "store_run (x # xs) s = store_run xs (snd (store_apply x s))"

section \<open>Statements, faults and transactions\<close>

lemma run_write_keeps:
  "P s \<Longrightarrow> (\<And>s'. stmt s = Inr s' \<Longrightarrow> P s') \<Longrightarrow> P (snd (run_write f ctx stmt s))"
  by (cases f; cases "stmt s") (auto simp: run_write_def)

lemma run_write_NoneD: "run_write f ctx stmt s = (None, s') \<Longrightarrow> stmt s = Inr s'"
  by (cases f; cases "stmt s") (auto simp: run_write_def)

lemma run_write_SomeD: "run_write f ctx stmt s = (Some e, s') \<Longrightarrow>
    (s' = s \<or> stmt s = Inr s') \<and> (\<exists>c. e = errorf ctx c)"
  by (cases f; cases "stmt s") (auto simp: run_write_def)

lemma run_write_ok [simp]: "stmt s = Inr s' \<Longrightarrow> run_write NoFault ctx stmt s = (None, s')"
  by (simp add: run_write_def)

lemma run_read_ok [simp]: "run_read NoFault ctx v = Inr v"
  by (simp add: run_read_def)

lemma run_read_InrD: "run_read f ctx v = Inr w \<Longrightarrow> v = w"
  by (cases f) (auto simp: run_read_def)

lemma run_read_InlD: "run_read f ctx v = Inl e \<Longrightarrow> \<exists>c. e = errorf ctx c"
  by (cases f) (auto simp: run_read_def)

lemma run_commit_NoneD: "run_commit f ctx old new = (None, s') \<Longrightarrow> s' = new"
  by (cases f) (auto simp: run_commit_def)

lemma run_commit_SomeD:
  "run_commit f ctx old new = (Some e, s') \<Longrightarrow> (s' = old \<or> s' = new) \<and> (\<exists>c. e = errorf ctx c)"
  by (cases f) (auto simp: run_commit_def)

lemma run_commit_keeps: "P old \<Longrightarrow> P new \<Longrightarrow> P (snd (run_commit f ctx old new))"
  by (cases f) (auto simp: run_commit_def)

lemma errorf_neq [simp]:
  "errorf ctx c \<noteq> ErrTenantQuotaExceeded" "errorf ctx c \<noteq> ErrTenantNotFound"
  "errorf ctx c \<noteq> ErrTenantHasSandboxes" "errorf ctx c \<noteq> ErrAPIKeyTenantMismatch"
  "ErrTenantQuotaExceeded \<noteq> errorf ctx c" "ErrTenantNotFound \<noteq> errorf ctx c"
  "ErrTenantHasSandboxes \<noteq> errorf ctx c" "ErrAPIKeyTenantMismatch \<noteq> errorf ctx c"
  by (simp_all add: errorf_def)

lemmas store_dests =
  run_write_NoneD run_write_SomeD run_read_InrD run_read_InlD run_commit_NoneD run_commit_SomeD

section \<open>What a create does\<close>

lemma insertSandbox_Inr:
  "insertSandbox r s = Inr s' \<longleftrightarrow>
     sb_ID r \<notin> sb_ID ` set (db_sandboxes s) \<and> s' = s\<lparr>db_sandboxes := db_sandboxes s @ [r]\<rparr>"
  by (auto simp: insertSandbox_def)

lemma create_tx_None:
  assumes "create_tx f r m s = (None, s')"
  shows "insertSandbox r s = Inr s' \<and> (m > 0 \<longrightarrow> tenant_sandboxes (sb_TenantID r) s < m)"
  using assms
  by (auto simp: create_tx_def Let_def split: if_splits sum.splits prod.splits option.splits
      dest!: store_dests)

lemma create_tx_Some:
  assumes "create_tx f r m s = (Some e, s')"
  shows "(s' = s \<or> insertSandbox r s = Inr s' \<and> (m > 0 \<longrightarrow> tenant_sandboxes (sb_TenantID r) s < m))
       \<and> (e = ErrTenantQuotaExceeded \<longrightarrow> s' = s \<and> m > 0 \<and> m \<le> tenant_sandboxes (sb_TenantID r) s)
       \<and> e \<noteq> ErrTenantNotFound"
  using assms
  by (auto simp: create_tx_def Let_def split: if_splits sum.splits prod.splits option.splits
      dest!: store_dests)

text \<open>The store lets a row in: its owner exists and is below its limit (0 is unlimited).\<close>

definition create_allowed :: "SandboxRecord \<Rightarrow> db \<Rightarrow> bool" where
  "create_allowed r s \<longleftrightarrow>
     IsAdminTenantID (sb_TenantID r) \<or>
     (case find_row tn_ID (sb_TenantID r) (db_tenants s) of None \<Rightarrow> False
      | Some t \<Rightarrow> tn_MaxSandboxes t > 0 \<longrightarrow> tenant_sandboxes (sb_TenantID r) s < tn_MaxSandboxes t)"

lemma Create_None:
  "Create f r s = (None, s') \<Longrightarrow> insertSandbox r s = Inr s' \<and> create_allowed r s"
  by (auto simp: Create_def create_allowed_def split: if_splits fault.splits sum.splits option.splits
      dest!: store_dests create_tx_None)

lemma Create_Some:
  "Create f r s = (Some e, s') \<Longrightarrow> s' = s \<or> insertSandbox r s = Inr s' \<and> create_allowed r s"
  by (auto simp: Create_def create_allowed_def split: if_splits fault.splits sum.splits option.splits
      dest!: store_dests create_tx_Some)

lemma Create_not_found:
  "Create f r s = (Some ErrTenantNotFound, s') \<Longrightarrow>
     s' = s \<and> find_row tn_ID (sb_TenantID r) (db_tenants s) = None"
  by (auto simp: Create_def split: if_splits fault.splits sum.splits option.splits
      dest!: store_dests create_tx_Some)

lemma Create_over_quota:
  "Create f r s = (Some ErrTenantQuotaExceeded, s') \<Longrightarrow>
     s' = s \<and> (\<exists>t. find_row tn_ID (sb_TenantID r) (db_tenants s) = Some t \<and>
        0 < tn_MaxSandboxes t \<and> tn_MaxSandboxes t \<le> tenant_sandboxes (sb_TenantID r) s)"
  by (auto simp: Create_def split: if_splits fault.splits sum.splits option.splits
      dest!: store_dests create_tx_Some)

lemma Create_cases:
  obtains "snd (Create f r s) = s"
  | "insertSandbox r s = Inr (snd (Create f r s))" and "create_allowed r s"
  using Create_None [of f r s] Create_Some [of f r s]
  by (cases "Create f r s"; cases "fst (Create f r s)") auto

section \<open>Well-formedness\<close>

text \<open>
  Primary keys are unique, every API key belongs to an existing tenant (foreign key), and so
  does every sandbox that is not the admin's: the schema has no foreign key for that last one,
  it is the transactions of \<open>Create\<close> and \<open>DeleteTenant\<close> that keep it.
\<close>

definition tenant_ids :: "db \<Rightarrow> string set" where
  "tenant_ids s = tn_ID ` set (db_tenants s)"

definition db_wf :: "db \<Rightarrow> bool" where
  "db_wf s \<longleftrightarrow>
     distinct (map sb_ID (db_sandboxes s)) \<and> distinct (map tn_ID (db_tenants s)) \<and>
     distinct (map kr_ID (db_keys s)) \<and>
     (\<forall>k \<in> set (db_keys s). kr_TenantID k \<in> tenant_ids s) \<and>
     (\<forall>r \<in> set (db_sandboxes s). IsAdminTenantID (sb_TenantID r) \<or> sb_TenantID r \<in> tenant_ids s)"

lemma tenant_ids_simps [simp]:
  "tenant_ids (s\<lparr>db_sandboxes := rs\<rparr>) = tenant_ids s"
  "tenant_ids (s\<lparr>db_keys := ks\<rparr>) = tenant_ids s"
  "tenant_ids (s\<lparr>db_tenants := db_tenants s @ [t]\<rparr>) = insert (tn_ID t) (tenant_ids s)"
  "tenant_ids (s\<lparr>db_tenants := update_rows p (tn_MaxSandboxes_update (\<lambda>_. n)) (db_tenants s)\<rparr>)
     = tenant_ids s"
  "tenant_ids (delete_tenant_rows i s) = tenant_ids s - {i}"
  by (auto simp: tenant_ids_def delete_tenant_rows_def)

lemma find_tenant_None_iff: "find_row tn_ID t (db_tenants s) = None \<longleftrightarrow> t \<notin> tenant_ids s"
  by (simp add: find_row_None_iff tenant_ids_def)

lemma find_tenant_SomeD: "find_row tn_ID t (db_tenants s) = Some x \<Longrightarrow> t \<in> tenant_ids s"
  using find_tenant_None_iff [of t s] by auto

lemma db_wf_empty: "db_wf empty_db"
  by (simp add: db_wf_def empty_db_def)

lemma db_wf_insertSandbox:
  "db_wf s \<Longrightarrow> insertSandbox r s = Inr s' \<Longrightarrow> create_allowed r s \<Longrightarrow> db_wf s'"
  by (auto simp: db_wf_def insertSandbox_Inr create_allowed_def split: option.splits
      dest!: find_tenant_SomeD)

lemma db_wf_Create [keeps_inv]: "db_wf s \<Longrightarrow> db_wf (snd (Create f r s))"
  by (rule Create_cases [of f r s]) (auto intro: db_wf_insertSandbox)

lemma db_wf_update_sandboxes:
  "db_wf s \<Longrightarrow> (\<And>r. sb_ID (f r) = sb_ID r) \<Longrightarrow> (\<And>r. sb_TenantID (f r) = sb_TenantID r) \<Longrightarrow>
   db_wf (s\<lparr>db_sandboxes := update_rows p f (db_sandboxes s)\<rparr>)"
  by (auto simp: db_wf_def set_update_rows)

lemma db_wf_UpdateStatus [keeps_inv]: "db_wf s \<Longrightarrow> db_wf (snd (UpdateStatus f i st s))"
  unfolding UpdateStatus_def by (rule run_write_keeps) (auto intro: db_wf_update_sandboxes)

lemma db_wf_UpdateLastActive [keeps_inv]: "db_wf s \<Longrightarrow> db_wf (snd (UpdateLastActive f now i s))"
  unfolding UpdateLastActive_def by (rule run_write_keeps) (auto intro: db_wf_update_sandboxes)

lemma db_wf_Delete [keeps_inv]: "db_wf s \<Longrightarrow> db_wf (snd (Delete f i s))"
  unfolding Delete_def by (rule run_write_keeps) (auto simp: db_wf_def distinct_map_filter)

lemma db_wf_insertTenant: "db_wf s \<Longrightarrow> insertTenant t s = Inr s' \<Longrightarrow> db_wf s'"
  by (auto simp: db_wf_def insertTenant_def split: if_splits)

lemma db_wf_insertKey: "db_wf s \<Longrightarrow> insertKey k s = Inr s' \<Longrightarrow> db_wf s'"
  by (auto simp: db_wf_def insertKey_def key_row_def simp flip: tenant_ids_def split: if_splits)

lemma db_wf_CreateTenant [keeps_inv]: "db_wf s \<Longrightarrow> db_wf (snd (CreateTenant f t s))"
  unfolding CreateTenant_def by (rule run_write_keeps) (auto intro: db_wf_insertTenant)

lemma db_wf_CreateAPIKey [keeps_inv]: "db_wf s \<Longrightarrow> db_wf (snd (CreateAPIKey f k s))"
  unfolding CreateAPIKey_def by (rule run_write_keeps) (auto intro: db_wf_insertKey)

lemma run_commit_state: "run_commit f ctx old new = (e, s') \<Longrightarrow> s' = old \<or> s' = new"
  by (cases f) (auto simp: run_commit_def)

lemma CreateTenantWithAPIKey_state:
  assumes "CreateTenantWithAPIKey f t k s = (e, s')"
  shows "s' = s \<or> (\<exists>s1. insertTenant t s = Inr s1 \<and> insertKey k s1 = Inr s')"
  using assms
  by (auto simp: CreateTenantWithAPIKey_def split: if_splits fault.splits prod.splits option.splits
      dest!: run_write_NoneD run_commit_state)

lemma db_wf_CreateTenantWithAPIKey [keeps_inv]:
  "db_wf s \<Longrightarrow> db_wf (snd (CreateTenantWithAPIKey f t k s))"
  by (cases "CreateTenantWithAPIKey f t k s")
    (auto dest!: CreateTenantWithAPIKey_state intro: db_wf_insertTenant db_wf_insertKey)

lemma UpdateTenantLimits_state:
  "snd (UpdateTenantLimits f g i n s) = snd (run_write f (''update tenant '' @ i @ '' limits'')
     (\<lambda>s. Inr (s\<lparr>db_tenants := update_rows (\<lambda>t. tn_ID t = i)
        (tn_MaxSandboxes_update (\<lambda>_. n)) (db_tenants s)\<rparr>)) s)"
  by (simp add: UpdateTenantLimits_def split: prod.split option.split sum.split)

lemma db_wf_UpdateTenantLimits [keeps_inv]: "db_wf s \<Longrightarrow> db_wf (snd (UpdateTenantLimits f g i n s))"
  unfolding UpdateTenantLimits_state by (rule run_write_keeps) (auto simp: db_wf_def)

lemma db_wf_delete_tenant_rows:
  "db_wf s \<Longrightarrow> tenant_sandboxes i s \<le> 0 \<Longrightarrow> db_wf (delete_tenant_rows i s)"
  unfolding db_wf_def tenant_ids_simps
  by (auto simp: delete_tenant_rows_def tenant_sandboxes_def distinct_map_filter count_rows_zero_iff)

lemma DeleteTenant_state:
  assumes "DeleteTenant f i s = (e, s')"
  shows "s' = s \<or> tenant_sandboxes i s \<le> 0 \<and> s' = delete_tenant_rows i s"
  using assms
  by (auto simp: DeleteTenant_def split: if_splits fault.splits sum.splits prod.splits option.splits
      dest!: run_write_NoneD run_commit_state run_read_InrD)

lemma DeleteTenant_None:
  assumes "DeleteTenant f i s = (None, s')"
  shows "s' = s \<and> i \<notin> tenant_ids s \<or> tenant_sandboxes i s \<le> 0 \<and> s' = delete_tenant_rows i s"
  using assms
  by (auto simp: DeleteTenant_def find_tenant_None_iff
      split: if_splits fault.splits sum.splits prod.splits option.splits
      dest!: run_write_NoneD run_commit_NoneD run_read_InrD)

lemma DeleteTenant_refused:
  assumes "DeleteTenant f i s = (Some ErrTenantHasSandboxes, s')"
  shows "s' = s \<and> tenant_sandboxes i s > 0"
  using assms
  by (auto simp: DeleteTenant_def split: if_splits fault.splits sum.splits prod.splits option.splits
      dest!: store_dests)

lemma db_wf_DeleteTenant [keeps_inv]: "db_wf s \<Longrightarrow> db_wf (snd (DeleteTenant f i s))"
  by (cases "DeleteTenant f i s") (auto dest!: DeleteTenant_state intro: db_wf_delete_tenant_rows)

lemma db_wf_RevokeAPIKey [keeps_inv]: "db_wf s \<Longrightarrow> db_wf (snd (RevokeAPIKey f now i s))"
  unfolding RevokeAPIKey_def
  by (rule run_write_keeps) (auto simp: db_wf_def set_update_rows)

lemma db_wf_apply: "db_wf s \<Longrightarrow> db_wf (snd (store_apply x s))"
  by (cases x) (simp_all add: keeps_inv)

text \<open>
  Claim C22. However operations and driver faults follow each other on a fresh database, ids stay
  unique, API keys never outlive their tenant, and no tenant-owned sandbox outlives its tenant
  row, although the schema has no foreign key from sandboxes to tenants.
\<close>

theorem store_run_wf: "db_wf (store_run ops empty_db)"
proof -
  have "db_wf s \<Longrightarrow> db_wf (store_run ops s)" for s
    by (induction ops arbitrary: s) (auto intro: db_wf_apply)
  then show ?thesis using db_wf_empty by blast
qed

section \<open>Quota\<close>

text \<open>A tenant holds no more sandboxes than its limit, where it has one.\<close>

definition within_quota :: "string \<Rightarrow> db \<Rightarrow> bool" where
  "within_quota t s \<longleftrightarrow>
     (\<forall>x. find_row tn_ID t (db_tenants s) = Some x \<longrightarrow> tn_MaxSandboxes x > 0 \<longrightarrow>
        tenant_sandboxes t s \<le> tn_MaxSandboxes x)"

lemma tenant_sandboxes_insert:
  "insertSandbox r s = Inr s' \<Longrightarrow>
   tenant_sandboxes t s' = tenant_sandboxes t s + (if sb_TenantID r = t then 1 else 0)
   \<and> db_tenants s' = db_tenants s"
  by (auto simp: insertSandbox_Inr tenant_sandboxes_def)

lemma within_quota_Create:
  assumes "within_quota t s" and "\<not> IsAdminTenantID t"
  shows "within_quota t (snd (Create f r s))"
proof (rule Create_cases [of f r s])
  assume ins: "insertSandbox r s = Inr (snd (Create f r s))" and ok: "create_allowed r s"
  show ?thesis
    using assms ok tenant_sandboxes_insert [OF ins, of t]
    by (auto simp: within_quota_def create_allowed_def split: if_splits option.splits)
qed (use assms in simp)

lemma tenant_sandboxes_keep:
  "snd (UpdateStatus f i st s) = s' \<Longrightarrow> tenant_sandboxes t s' = tenant_sandboxes t s \<and> db_tenants s' = db_tenants s"
  "snd (UpdateLastActive f now i s) = s' \<Longrightarrow> tenant_sandboxes t s' = tenant_sandboxes t s \<and> db_tenants s' = db_tenants s"
  "snd (Delete f i s) = s' \<Longrightarrow> tenant_sandboxes t s' \<le> tenant_sandboxes t s \<and> db_tenants s' = db_tenants s"
  "snd (CreateAPIKey f k s) = s' \<Longrightarrow> tenant_sandboxes t s' = tenant_sandboxes t s \<and> db_tenants s' = db_tenants s"
  "snd (RevokeAPIKey f now i s) = s' \<Longrightarrow> tenant_sandboxes t s' = tenant_sandboxes t s \<and> db_tenants s' = db_tenants s"
  by (cases f; auto simp: UpdateStatus_def UpdateLastActive_def Delete_def CreateAPIKey_def
      RevokeAPIKey_def insertKey_def run_write_def tenant_sandboxes_def count_rows_update_rows
      count_rows_filter_le split: if_splits)+

text \<open>A new tenant owns nothing yet, because owned rows belong to existing tenants.\<close>

lemma new_tenant_owns_nothing:
  assumes "db_wf s" and "t \<notin> tenant_ids s" and "\<not> IsAdminTenantID t"
  shows "tenant_sandboxes t s = 0"
  using assms by (auto simp: db_wf_def tenant_sandboxes_def count_rows_zero_iff)

lemma within_quota_insertTenant:
  assumes "db_wf s" and "within_quota t s" and "\<not> IsAdminTenantID t" and "insertTenant x s = Inr s'"
  shows "within_quota t s'"
proof (cases "tn_ID x = t")
  case True
  with assms(4) have "t \<notin> tenant_ids s" and s': "s' = s\<lparr>db_tenants := db_tenants s @ [x]\<rparr>"
    by (auto simp: insertTenant_def tenant_ids_def split: if_splits)
  with assms have "tenant_sandboxes t s = 0" by (simp add: new_tenant_owns_nothing)
  with s' show ?thesis by (simp add: within_quota_def tenant_sandboxes_def)
next
  case False
  with assms(2,4) show ?thesis
    by (auto simp: within_quota_def insertTenant_def tenant_sandboxes_def find_row_append
        split: if_splits option.splits)
qed

lemma within_quota_cong:
  "within_quota t s \<Longrightarrow> db_tenants s' = db_tenants s \<Longrightarrow> tenant_sandboxes t s' \<le> tenant_sandboxes t s \<Longrightarrow>
   within_quota t s'"
  by (force simp: within_quota_def)

lemma within_quota_insertKey: "within_quota t s \<Longrightarrow> insertKey k s = Inr s' \<Longrightarrow> within_quota t s'"
  by (erule within_quota_cong) (auto simp: insertKey_def tenant_sandboxes_def split: if_splits)

lemma within_quota_limits:
  assumes "within_quota t s" and "i \<noteq> t"
  shows "within_quota t (snd (UpdateTenantLimits f g i n s))"
  unfolding UpdateTenantLimits_state
  by (rule run_write_keeps)
    (use assms in \<open>auto simp: within_quota_def tenant_sandboxes_def find_row_update\<close>)

lemma within_quota_delete_tenant:
  "within_quota t s \<Longrightarrow> within_quota t (delete_tenant_rows i s)"
  by (auto simp: within_quota_def delete_tenant_rows_def tenant_sandboxes_def find_row_filter_key)

lemma within_quota_apply:
  assumes "db_wf s" "within_quota t s" "\<not> IsAdminTenantID t" "\<forall>f g n. x \<noteq> OpUpdateTenantLimits f g t n"
  shows "within_quota t (snd (store_apply x s))"
proof (cases x)
  case (OpCreate f r)
  with assms show ?thesis by (simp add: within_quota_Create)
next
  case (OpCreateTenant f y)
  with assms show ?thesis
    by (auto simp: CreateTenant_def intro: run_write_keeps [where P = "within_quota t"]
        within_quota_insertTenant)
next
  case (OpCreateTenantWithAPIKey f y k)
  with assms show ?thesis
    by (cases "CreateTenantWithAPIKey f y k s")
      (auto dest!: CreateTenantWithAPIKey_state
        intro: within_quota_insertTenant within_quota_insertKey)
next
  case (OpUpdateTenantLimits f g i n)
  with assms show ?thesis by (auto intro: within_quota_limits)
next
  case (OpDeleteTenant f i)
  with assms show ?thesis
    by (cases "DeleteTenant f i s") (auto dest!: DeleteTenant_state intro: within_quota_delete_tenant)
qed (use assms tenant_sandboxes_keep [OF refl] in \<open>auto intro: within_quota_cong\<close>)

text \<open>
  Claim C10. Concurrent creates cannot take a tenant past its quota: from any well-formed database
  in which the tenant is within its limit, every sequence of store operations that does not
  change the tenant's own limit (any creates, any deletes, any faults, deleting and provisioning
  tenants included) leaves it within its limit.
\<close>

theorem quota_never_exceeded:
  assumes "db_wf s" and "within_quota t s" and "\<not> IsAdminTenantID t"
    and "\<forall>x \<in> set ops. \<forall>f g n. x \<noteq> OpUpdateTenantLimits f g t n"
  shows "within_quota t (store_run ops s)"
  using assms
proof (induction ops arbitrary: s)
  case (Cons x xs)
  then have "db_wf (snd (store_apply x s))" "within_quota t (snd (store_apply x s))"
    by (auto intro: db_wf_apply within_quota_apply)
  with Cons show ?case by simp
qed simp

definition example_tenant :: Tenant where
  "example_tenant = \<lparr>tn_ID = ''t1'', tn_Name = ''n'', tn_ExternalRef = [], tn_MaxSandboxes = 1, tn_CreatedAt = 5\<rparr>"

definition example_row :: "string \<Rightarrow> string \<Rightarrow> SandboxRecord" where
  "example_row i t = \<lparr>sb_ID = i, sb_Status = ''running'', sb_CreatedAt = 10, sb_LastActiveAt = 10,
     sb_RootfsPath = [], sb_SocketPath = [], sb_ContainerIP = ''10.0.0.2'', sb_DaemonPort = 8081,
     sb_RunnerID = ''r1'', sb_RunnerHTTPBase = ''https://r1'', sb_RunnerControlGRPCAddr = ''r1:1'',
     sb_TenantID = t, sb_Ephemeral = False, sb_Egress = ''public''\<rparr>"

definition example_db :: db where
  "example_db = \<lparr>db_sandboxes = [example_row ''a'' ''t1''], db_tenants = [example_tenant], db_keys = []\<rparr>"

lemmas example_defs = example_db_def example_row_def example_tenant_def

lemma example_db_wf: "db_wf example_db"
  by (simp add: db_wf_def example_defs tenant_ids_def)

text \<open>The example tenant is full; a further create does not get it past 1.\<close>

theorem quota_never_exceeded_witness:
  "within_quota ''t1'' (store_run [OpCreate no_create_faults (example_row ''b'' ''t1'')] example_db)
   \<and> tenant_sandboxes ''t1'' example_db = 1"
proof -
  have "within_quota ''t1'' example_db"
    by (simp add: within_quota_def example_defs tenant_sandboxes_def)
  moreover have "\<not> IsAdminTenantID ''t1''" by (simp add: IsAdminTenantID_def AdminTenantID_def)
  ultimately have "within_quota ''t1''
      (store_run [OpCreate no_create_faults (example_row ''b'' ''t1'')] example_db)"
    by (intro quota_never_exceeded [OF example_db_wf]) auto
  then show ?thesis by (simp add: example_defs tenant_sandboxes_def)
qed

text \<open>
  Outcomes of a create, for all faults: success adds exactly the given row, which was not
  there, for an owner that exists and is below its limit; \<open>ErrTenantNotFound\<close> and
  \<open>ErrTenantQuotaExceeded\<close> leave the database as it was and report the truth about the tenant;
  any other error leaves it as it was or with exactly that row added.
\<close>

theorem create_outcomes:
  "case Create f r s of
     (None, s') \<Rightarrow> sb_ID r \<notin> sb_ID ` set (db_sandboxes s) \<and> create_allowed r s
        \<and> s' = s\<lparr>db_sandboxes := db_sandboxes s @ [r]\<rparr>
   | (Some ErrTenantNotFound, s') \<Rightarrow> s' = s \<and> sb_TenantID r \<notin> tenant_ids s
   | (Some ErrTenantQuotaExceeded, s') \<Rightarrow> s' = s \<and> \<not> create_allowed r s
   | (Some e, s') \<Rightarrow> s' = s \<or> s' = s\<lparr>db_sandboxes := db_sandboxes s @ [r]\<rparr>"
proof -
  have admin: "fst (Create f r s) \<noteq> Some ErrTenantQuotaExceeded" if "IsAdminTenantID (sb_TenantID r)"
    using that by (cases "Create f r s") (auto simp: Create_def dest!: run_write_SomeD)
  show ?thesis
    using Create_None [of f r s] Create_Some [of f r s] Create_not_found [of f r s]
      Create_over_quota [of f r s] admin
    by (auto simp: insertSandbox_Inr find_tenant_None_iff create_allowed_def
        split: prod.split option.split store_error.split)
qed

text \<open>
  Deleting a tenant: when it reports success, no tenant with that id, no API key of it and
  no sandbox of it remain; a tenant that owns sandboxes is refused with
  \<open>ErrTenantHasSandboxes\<close> and nothing changes; sandbox rows are never touched.
\<close>

theorem delete_tenant_outcomes:
  assumes "db_wf s" and "\<not> IsAdminTenantID i"
  shows "case DeleteTenant f i s of
     (None, s') \<Rightarrow> i \<notin> tenant_ids s' \<and> (\<forall>k \<in> set (db_keys s'). kr_TenantID k \<noteq> i)
        \<and> (\<forall>r \<in> set (db_sandboxes s'). sb_TenantID r \<noteq> i) \<and> db_sandboxes s' = db_sandboxes s
   | (Some ErrTenantHasSandboxes, s') \<Rightarrow> s' = s \<and> tenant_sandboxes i s > 0
   | (Some e, s') \<Rightarrow> db_sandboxes s' = db_sandboxes s"
proof (cases "DeleteTenant f i s")
  case (Pair e s')
  have rows: "db_sandboxes s' = db_sandboxes s"
    using DeleteTenant_state [OF Pair] by (auto simp: delete_tenant_rows_def)
  have "i \<notin> tenant_ids s' \<and> (\<forall>k \<in> set (db_keys s'). kr_TenantID k \<noteq> i)
      \<and> (\<forall>r \<in> set (db_sandboxes s'). sb_TenantID r \<noteq> i)" if "e = None"
    using DeleteTenant_None [OF Pair [unfolded that]] assms
    by (auto simp: db_wf_def tenant_sandboxes_def count_rows_zero_iff delete_tenant_rows_def tenant_ids_def)
  then show ?thesis
    using Pair rows DeleteTenant_refused [of f i s s'] by (auto split: option.split store_error.split)
qed

theorem delete_tenant_outcomes_witness:
  "fst (DeleteTenant \<lparr>dt_begin = NoFault, dt_get = NoFault, dt_count = NoFault, dt_delete = NoFault,
      dt_commit = NoFault\<rparr> ''t1'' example_db) = Some ErrTenantHasSandboxes
   \<and> tenant_sandboxes ''t1'' example_db > 0"
  using delete_tenant_outcomes [OF example_db_wf, of "''t1''" "\<lparr>dt_begin = NoFault, dt_get = NoFault,
      dt_count = NoFault, dt_delete = NoFault, dt_commit = NoFault\<rparr>"]
  by (simp add: IsAdminTenantID_def AdminTenantID_def DeleteTenant_def example_defs tenant_sandboxes_def)

section \<open>The store as a map of rows\<close>

text \<open>
  The contract the request handlers and the sweeper rely on: a table is a map from ids to
  records; writes that succeed change one id, writes that fail either took effect or did not.
\<close>

locale row_store =
  fixes rows :: "'s \<Rightarrow> string \<rightharpoonup> SandboxRecord"
    and create :: "'cf \<Rightarrow> SandboxRecord \<Rightarrow> 's \<Rightarrow> store_error option \<times> 's"
    and read :: "'f \<Rightarrow> string \<Rightarrow> 's \<Rightarrow> store_error + SandboxRecord option"
    and remove :: "'f \<Rightarrow> string \<Rightarrow> 's \<Rightarrow> store_error option \<times> 's"
    and set_status :: "'f \<Rightarrow> string \<Rightarrow> string \<Rightarrow> 's \<Rightarrow> store_error option \<times> 's"
    and set_active :: "'f \<Rightarrow> unix_time \<Rightarrow> string \<Rightarrow> 's \<Rightarrow> store_error option \<times> 's"
  assumes create_ok: "create cf r s = (None, s') \<Longrightarrow>
      rows s (sb_ID r) = None \<and> rows s' = (rows s)(sb_ID r \<mapsto> r)"
    and create_err: "create cf r s = (Some e, s') \<Longrightarrow>
      rows s' = rows s \<or> rows s (sb_ID r) = None \<and> rows s' = (rows s)(sb_ID r \<mapsto> r)"
    and create_refused: "create cf r s = (Some e, s') \<Longrightarrow>
      e \<in> {ErrTenantNotFound, ErrTenantQuotaExceeded} \<Longrightarrow> rows s' = rows s"
    and read_ok: "read f i s = Inr v \<Longrightarrow> v = rows s i"
    and remove_ok: "remove f i s = (None, s') \<Longrightarrow> rows s' = (rows s)(i := None)"
    and remove_err: "remove f i s = (Some e, s') \<Longrightarrow> rows s' = rows s \<or> rows s' = (rows s)(i := None)"
    and set_status_rows: "set_status f i st s = (res, s') \<Longrightarrow>
      rows s' = rows s \<or> rows s' = (rows s)(i := map_option (sb_Status_update (\<lambda>_. st)) (rows s i))"
    and set_active_rows: "set_active f now i s = (res, s') \<Longrightarrow>
      rows s' = rows s \<or> rows s' = (rows s)(i := map_option (sb_LastActiveAt_update (\<lambda>_. now)) (rows s i))"
begin

text \<open>No operation on one id is visible at another id.\<close>

lemma remove_other: "i \<noteq> j \<Longrightarrow> rows (snd (remove f i s)) j = rows s j"
  by (cases "remove f i s"; cases "fst (remove f i s)") (auto dest: remove_ok remove_err)

lemma set_status_other: "i \<noteq> j \<Longrightarrow> rows (snd (set_status f i st s)) j = rows s j"
  by (cases "set_status f i st s") (auto dest: set_status_rows)

lemma set_active_other: "i \<noteq> j \<Longrightarrow> rows (snd (set_active f now i s)) j = rows s j"
  by (cases "set_active f now i s") (auto dest: set_active_rows)

lemma create_other: "sb_ID r \<noteq> j \<Longrightarrow> rows (snd (create cf r s)) j = rows s j"
  by (cases "create cf r s"; cases "fst (create cf r s)") (auto dest: create_ok create_err)

text \<open>A row that was created is what the next read returns.\<close>

lemma read_created: "create cf r s = (None, s') \<Longrightarrow> read f (sb_ID r) s' = Inr v \<Longrightarrow> v = Some r"
  by (auto dest!: create_ok read_ok)

end

definition sandbox_rows :: "db \<Rightarrow> string \<rightharpoonup> SandboxRecord" where
  "sandbox_rows s i = find_row sb_ID i (db_sandboxes s)"

lemma sandbox_rows_insert:
  "insertSandbox r s = Inr s' \<Longrightarrow>
     sandbox_rows s (sb_ID r) = None \<and> sandbox_rows s' = (sandbox_rows s)(sb_ID r \<mapsto> r)"
  by (auto simp: insertSandbox_Inr sandbox_rows_def fun_eq_iff find_row_append
      simp flip: find_row_None_iff split: option.split)

lemma sandbox_rows_update:
  "(\<And>r. sb_ID (f r) = sb_ID r) \<Longrightarrow>
   sandbox_rows (s\<lparr>db_sandboxes := update_rows (\<lambda>r. sb_ID r = i) f (db_sandboxes s)\<rparr>) =
     (sandbox_rows s)(i := map_option f (sandbox_rows s i))"
  by (auto simp: sandbox_rows_def find_row_update)

lemma sandbox_rows_filter:
  "sandbox_rows (s\<lparr>db_sandboxes := filter (\<lambda>r. sb_ID r \<noteq> i) (db_sandboxes s)\<rparr>) =
     (sandbox_rows s)(i := None)"
  by (auto simp: sandbox_rows_def find_row_filter_key)

interpretation sqlite: row_store sandbox_rows Create Get Delete UpdateStatus UpdateLastActive
proof unfold_locales
  fix cf r s s' e
  assume "Create cf r s = (Some e, s')" and "e \<in> {ErrTenantNotFound, ErrTenantQuotaExceeded}"
  then show "sandbox_rows s' = sandbox_rows s"
    by (auto dest: Create_not_found Create_over_quota)
next
  fix f i st s e s'
  assume "UpdateStatus f i st s = (e, s')"
  then show "sandbox_rows s' = sandbox_rows s \<or>
      sandbox_rows s' = (sandbox_rows s)(i := map_option (sb_Status_update (\<lambda>_. st)) (sandbox_rows s i))"
    by (cases e) (auto simp: UpdateStatus_def sandbox_rows_update dest!: store_dests)
next
  fix f now i s e s'
  assume "UpdateLastActive f now i s = (e, s')"
  then show "sandbox_rows s' = sandbox_rows s \<or>
      sandbox_rows s' = (sandbox_rows s)(i := map_option (sb_LastActiveAt_update (\<lambda>_. now)) (sandbox_rows s i))"
    by (cases e) (auto simp: UpdateLastActive_def sandbox_rows_update dest!: store_dests)
next
  fix cf r s s' e
  assume "Create cf r s = (Some e, s')"
  then show "sandbox_rows s' = sandbox_rows s \<or>
      sandbox_rows s (sb_ID r) = None \<and> sandbox_rows s' = (sandbox_rows s)(sb_ID r \<mapsto> r)"
    by (auto dest!: Create_Some sandbox_rows_insert)
next
  fix f i s s' e
  assume "Delete f i s = (Some e, s')"
  then show "sandbox_rows s' = sandbox_rows s \<or> sandbox_rows s' = (sandbox_rows s)(i := None)"
    unfolding Delete_def by (auto simp: sandbox_rows_filter dest!: run_write_SomeD)
next
  fix f i s s'
  assume "Delete f i s = (None, s')"
  then show "sandbox_rows s' = (sandbox_rows s)(i := None)"
    unfolding Delete_def by (auto simp: sandbox_rows_filter dest!: run_write_NoneD)
qed (auto simp: Get_def sandbox_rows_def [symmetric] dest!: Create_None sandbox_rows_insert run_read_InrD)

end
