(* ===== verification/Runner_Registry.thy ===== *)
theory Runner_Registry
  imports Sandbox_Store
begin

text \<open>
  The registry of runners, package \<open>internal/api/registry\<close>: the in-memory registry of a
  single API pod (\<open>memory.go\<close>) and the one kept in Postgres (\<open>postgres.go\<close>). The clock is
  an argument of every operation that reads it. Instants are nanoseconds, as in Go's
  \<open>time.Time\<close>. The locale \<open>runner_picker\<close> is what placement relies on; both registries
  interpret it.
\<close>

record Runner =
  rn_ID :: string
  rn_HTTPBaseURL :: string
  rn_ControlGRPCAddr :: string
  rn_Healthy :: bool
  rn_Cordoned :: bool
  rn_CapacityTotal :: int
  rn_CapacityUsed :: int
  rn_CapacityStopped :: int
  rn_LastSeen :: int

datatype registry_error = ErrNoRunners | RegistryErr string

section \<open>The in-memory registry\<close>

record MemoryRegistry =
  mr_runners :: "string \<rightharpoonup> Runner"
  mr_order :: "string list"
  mr_rrCounter :: u64
  mr_heartbeatGrace :: duration
  mr_removedAt :: "string \<rightharpoonup> int"

definition default_grace :: "duration \<Rightarrow> duration" where
  "default_grace g = (if g \<le> 0 then 45 * second_ns else g)"

definition NewMemory :: "duration \<Rightarrow> MemoryRegistry" where
  "NewMemory g = \<lparr>mr_runners = Map.empty, mr_order = [], mr_rrCounter = 0,
     mr_heartbeatGrace = default_grace g, mr_removedAt = Map.empty\<rparr>"

text \<open>The eight values a runner reports about itself.\<close>

record runner_report =
  rr_id :: string
  rr_httpBaseURL :: string
  rr_controlGRPCAddr :: string
  rr_healthy :: bool
  rr_cordoned :: bool
  rr_capTotal :: int
  rr_capUsed :: int
  rr_capStopped :: int

definition reported_runner :: "int \<Rightarrow> runner_report \<Rightarrow> Runner" where
  "reported_runner now p =
     \<lparr>rn_ID = rr_id p, rn_HTTPBaseURL = trimRight (rr_httpBaseURL p) (CHR ''/''),
      rn_ControlGRPCAddr = trimSpace (rr_controlGRPCAddr p),
      rn_Healthy = rr_healthy p, rn_Cordoned = rr_cordoned p, rn_CapacityTotal = rr_capTotal p,
      rn_CapacityUsed = rr_capUsed p, rn_CapacityStopped = rr_capStopped p, rn_LastSeen = now\<rparr>"

definition Upsert :: "int \<Rightarrow> runner_report \<Rightarrow> MemoryRegistry \<Rightarrow> MemoryRegistry" where
  "Upsert now p r =
     (if rr_id p = [] \<or> rr_httpBaseURL p = [] then r
      else r\<lparr>mr_order := (if mr_runners r (rr_id p) = None then mr_order r @ [rr_id p] else mr_order r),
             mr_runners := (mr_runners r)(rr_id p \<mapsto> reported_runner now p),
             mr_removedAt := (mr_removedAt r)(rr_id p := None)\<rparr>)"

definition Remove :: "int \<Rightarrow> string \<Rightarrow> MemoryRegistry \<Rightarrow> MemoryRegistry" where
  "Remove now i r =
     (if i = [] then r
      else r\<lparr>mr_runners := (mr_runners r)(i := None),
             mr_removedAt := (mr_removedAt r)(i \<mapsto> now),
             mr_order := filter (\<lambda>x. x \<noteq> i) (mr_order r)\<rparr>)"

definition GetRunner :: "string \<Rightarrow> MemoryRegistry \<Rightarrow> Runner option" where
  "GetRunner i r = mr_runners r i"

definition GoneLongEnough :: "string \<Rightarrow> duration \<Rightarrow> int \<Rightarrow> MemoryRegistry \<Rightarrow> bool" where
  "GoneLongEnough i buffer now r =
     (if i = [] \<or> buffer \<le> 0 then False
      else case mr_runners r i of
             Some _ \<Rightarrow> False
           | None \<Rightarrow> (case mr_removedAt r i of None \<Rightarrow> False | Some goneAt \<Rightarrow> \<not> now < goneAt + buffer))"

text \<open>
  Go ranges over a map in an unspecified order: \<open>iter\<close> is the order of one run, some
  enumeration of the keys.
\<close>

definition ListRunners :: "string list \<Rightarrow> MemoryRegistry \<Rightarrow> Runner list" where
  "ListRunners iter r = sort_key rn_ID (List.map_filter (mr_runners r) iter)"

definition LenRunners :: "string list \<Rightarrow> MemoryRegistry \<Rightarrow> nat" where
  "LenRunners iter r = length (List.map_filter (mr_runners r) iter)"

definition run_eligible :: "int \<Rightarrow> duration \<Rightarrow> Runner \<Rightarrow> bool" where
  "run_eligible now grace run \<longleftrightarrow>
     \<not> timeSub now (rn_LastSeen run) > grace \<and>
     rn_Healthy run \<and> \<not> rn_Cordoned run \<and>
     \<not> (rn_CapacityTotal run > 0 \<and> rn_CapacityUsed run \<ge> rn_CapacityTotal run)"

definition eligibleLocked :: "int \<Rightarrow> MemoryRegistry \<Rightarrow> Runner list" where
  "eligibleLocked now r =
     filter (run_eligible now (mr_heartbeatGrace r)) (List.map_filter (mr_runners r) (mr_order r))"

definition better :: "Runner \<Rightarrow> Runner \<Rightarrow> bool" where
  "better a b \<longleftrightarrow> rn_CapacityUsed a < rn_CapacityUsed b \<or>
     rn_CapacityUsed a = rn_CapacityUsed b \<and> rn_ID a < rn_ID b"

fun pick_loop :: "string list \<Rightarrow> Runner option \<Rightarrow> Runner list \<Rightarrow> Runner option" where
  "pick_loop exclude best [] = best"
| "pick_loop exclude best (run # rs) =
     (if rn_ID run \<in> set exclude then pick_loop exclude best rs
      else case best of
             None \<Rightarrow> pick_loop exclude (Some run) rs
           | Some b \<Rightarrow> pick_loop exclude (Some (if better run b then run else b)) rs)"

definition PickLowestUsed :: "int \<Rightarrow> string list \<Rightarrow> MemoryRegistry \<Rightarrow> registry_error + Runner" where
  "PickLowestUsed now exclude r =
     (case pick_loop exclude None (eligibleLocked now r) of
        None \<Rightarrow> Inl ErrNoRunners
      | Some best \<Rightarrow> Inr best)"

definition PickRoundRobin :: "int \<Rightarrow> MemoryRegistry \<Rightarrow> (registry_error + Runner) \<times> MemoryRegistry" where
  "PickRoundRobin now r =
     (let eligible = eligibleLocked now r in
      if length eligible = 0 then (Inl ErrNoRunners, r)
      else (Inr (eligible ! unat (mr_rrCounter r mod of_nat (length eligible))),
            r\<lparr>mr_rrCounter := mr_rrCounter r + 1\<rparr>))"

text \<open>Histories of a registry: what the gRPC server and the tests call on it.\<close>

datatype reg_op = RegUpsert int runner_report | RegRemove int string | RegRoundRobin int

fun reg_apply :: "reg_op \<Rightarrow> MemoryRegistry \<Rightarrow> MemoryRegistry" where
  "reg_apply (RegUpsert now p) r = Upsert now p r"
| "reg_apply (RegRemove now i) r = Remove now i r"
| "reg_apply (RegRoundRobin now) r = snd (PickRoundRobin now r)"

fun reg_run :: "reg_op list \<Rightarrow> MemoryRegistry \<Rightarrow> MemoryRegistry" where
  "reg_run [] r = r"
| "reg_run (c # cs) r = reg_run cs (reg_apply c r)"

section \<open>The registry in Postgres\<close>

text \<open>
  The table is its list of rows. \<open>now()\<close> is the database clock, \<open>collate\<close> maps an id to its
  sort key in the database's collation, \<open>locked\<close> holds the ids of the rows other transactions
  hold locked, and each statement has its fault. An error of \<open>Upsert\<close> is dropped by the code.
\<close>

record PostgresRegistry =
  pr_rows :: "Runner list"
  pr_heartbeatGrace :: duration

definition NewPostgres :: "Runner list \<Rightarrow> duration \<Rightarrow> PostgresRegistry" where
  "NewPostgres rows g = \<lparr>pr_rows = rows, pr_heartbeatGrace = default_grace g\<rparr>"

definition upsert_row :: "Runner \<Rightarrow> Runner list \<Rightarrow> Runner list" where
  "upsert_row run rs =
     (if rn_ID run \<in> rn_ID ` set rs then update_rows (\<lambda>x. rn_ID x = rn_ID run) (\<lambda>_. run) rs
      else rs @ [run])"

definition PgUpsert :: "fault \<Rightarrow> int \<Rightarrow> runner_report \<Rightarrow> PostgresRegistry \<Rightarrow> PostgresRegistry" where
  "PgUpsert f now p r =
     (if rr_id p = [] \<or> rr_httpBaseURL p = [] then r
      else case f of
             FailBefore _ \<Rightarrow> r
           | _ \<Rightarrow> r\<lparr>pr_rows := upsert_row (reported_runner now p) (pr_rows r)\<rparr>)"

definition PgRemove :: "string \<Rightarrow> PostgresRegistry \<Rightarrow> PostgresRegistry" where
  "PgRemove i r = r"

definition PgGet :: "fault \<Rightarrow> string \<Rightarrow> PostgresRegistry \<Rightarrow> Runner option" where
  "PgGet f i r = (if f = NoFault then find_row rn_ID i (pr_rows r) else None)"

definition PgGoneLongEnough :: "fault \<Rightarrow> string \<Rightarrow> duration \<Rightarrow> int \<Rightarrow> PostgresRegistry \<Rightarrow> bool" where
  "PgGoneLongEnough f i buffer now r =
     (if i = [] \<or> buffer \<le> 0 then False
      else if f \<noteq> NoFault then False
      else case find_row rn_ID i (pr_rows r) of
             None \<Rightarrow> True
           | Some run \<Rightarrow> \<not> now < rn_LastSeen run + buffer)"

text \<open>\<open>int64(grace.Seconds())\<close>: whole seconds, towards zero.\<close>

definition grace_seconds :: "PostgresRegistry \<Rightarrow> int" where
  "grace_seconds r = pr_heartbeatGrace r sdiv second_ns"

definition pg_fresh :: "int \<Rightarrow> PostgresRegistry \<Rightarrow> Runner \<Rightarrow> bool" where
  "pg_fresh now r run \<longleftrightarrow> rn_LastSeen run \<ge> now - grace_seconds r * second_ns"

definition PgLen :: "fault \<Rightarrow> int \<Rightarrow> PostgresRegistry \<Rightarrow> nat" where
  "PgLen f now r = (if f = NoFault then count_rows (pg_fresh now r) (pr_rows r) else 0)"

definition PgList :: "fault \<Rightarrow> PostgresRegistry \<Rightarrow> registry_error + Runner list" where
  "PgList f r =
     (case f of NoFault \<Rightarrow> Inr (sort_key rn_ID (pr_rows r))
      | FailBefore e \<Rightarrow> Inl (RegistryErr (''registry: list runners: '' @ e))
      | FailAfter e \<Rightarrow> Inl (RegistryErr (''registry: scan runner: '' @ e)))"

definition pg_eligible :: "int \<Rightarrow> PostgresRegistry \<Rightarrow> Runner \<Rightarrow> bool" where
  "pg_eligible now r run \<longleftrightarrow>
     rn_Healthy run \<and> \<not> rn_Cordoned run \<and> pg_fresh now r run \<and>
     (rn_CapacityTotal run = 0 \<or> rn_CapacityUsed run < rn_CapacityTotal run)"

record pick_tx =
  pt_now :: int
  pt_collate :: "string \<Rightarrow> string"
  pt_locked :: "string list"
  pt_begin :: fault
  pt_query :: fault
  pt_commit :: fault

definition PgPickLowestUsed :: "pick_tx \<Rightarrow> string list \<Rightarrow> PostgresRegistry \<Rightarrow> registry_error + Runner" where
  "PgPickLowestUsed x exclude r =
     (if pt_begin x \<noteq> NoFault then Inl (RegistryErr ''registry: begin tx'')
      else if pt_query x \<noteq> NoFault then Inl (RegistryErr ''registry: pick lowest used'')
      else case sort_key rn_CapacityUsed (sort_key (\<lambda>run. pt_collate x (rn_ID run))
                  (filter (\<lambda>run. pg_eligible (pt_now x) r run \<and> rn_ID run \<notin> set exclude
                      \<and> rn_ID run \<notin> set (pt_locked x)) (pr_rows r))) of
             [] \<Rightarrow> Inl ErrNoRunners
           | run # _ \<Rightarrow> if pt_commit x \<noteq> NoFault then Inl (RegistryErr ''registry: commit pick'')
                       else Inr run)"

section \<open>What placement relies on\<close>

text \<open>
  The contract of \<open>RunnerRegistry.PickLowestUsed\<close>: the runner returned can take a sandbox, is
  not excluded and is used least; \<open>ErrNoRunners\<close> means there is no such runner.
\<close>

locale runner_picker =
  fixes usable :: "'r \<Rightarrow> Runner \<Rightarrow> bool"
    and pick :: "string list \<Rightarrow> 'r \<Rightarrow> registry_error + Runner"
  assumes pick_usable: "pick exclude r = Inr run \<Longrightarrow> usable r run \<and> rn_ID run \<notin> set exclude"
    and pick_least: "pick exclude r = Inr run \<Longrightarrow> usable r other \<Longrightarrow> rn_ID other \<notin> set exclude \<Longrightarrow>
      rn_CapacityUsed run \<le> rn_CapacityUsed other"
    and pick_none: "pick exclude r = Inl ErrNoRunners \<Longrightarrow> usable r other \<Longrightarrow> rn_ID other \<in> set exclude"
begin

text \<open>Excluding more runners never finds a less used one.\<close>

lemma pick_mono:
  assumes "pick ex r = Inr a" and "pick ex' r = Inr b" and "set ex \<subseteq> set ex'"
  shows "rn_CapacityUsed a \<le> rn_CapacityUsed b"
  using pick_least [OF assms(1)] pick_usable [OF assms(2)] assms(3) by blast

lemma pick_none_mono:
  assumes "pick ex r = Inl ErrNoRunners" and "set ex \<subseteq> set ex'"
  shows "pick ex' r \<noteq> Inr b"
  using pick_none [OF assms(1)] pick_usable [of ex' r b] assms(2) by blast

end

section \<open>Properties of the in-memory registry\<close>

definition mem_wf :: "MemoryRegistry \<Rightarrow> bool" where
  "mem_wf r \<longleftrightarrow>
     distinct (mr_order r) \<and> set (mr_order r) = dom (mr_runners r) \<and>
     (\<forall>i run. mr_runners r i = Some run \<longrightarrow> rn_ID run = i \<and> i \<noteq> []) \<and>
     dom (mr_runners r) \<inter> dom (mr_removedAt r) = {} \<and> mr_heartbeatGrace r > 0"

lemma mem_wf_New [keeps_inv]: "mem_wf (NewMemory g)"
  by (simp add: mem_wf_def NewMemory_def default_grace_def)

lemma mem_wf_Upsert [keeps_inv]: "mem_wf r \<Longrightarrow> mem_wf (Upsert now p r)"
  by (auto simp: mem_wf_def Upsert_def reported_runner_def domIff split: if_splits)

lemma mem_wf_Remove [keeps_inv]: "mem_wf r \<Longrightarrow> mem_wf (Remove now i r)"
  by (auto simp: mem_wf_def Remove_def)

lemma mem_wf_RoundRobin [keeps_inv]: "mem_wf r \<Longrightarrow> mem_wf (snd (PickRoundRobin now r))"
  by (auto simp: mem_wf_def PickRoundRobin_def Let_def)

lemma mem_wf_apply [keeps_inv]: "mem_wf r \<Longrightarrow> mem_wf (reg_apply c r)"
  by (cases c) (auto intro: keeps_inv)

lemma mem_wf_run: "mem_wf r \<Longrightarrow> mem_wf (reg_run cs r)"
  by (induction cs r rule: reg_run.induct) (auto intro: keeps_inv)

text \<open>
  A runner new sandboxes may go to: registered, heard from within the grace period, healthy, not
  cordoned, and with room unless it reports no capacity limit.
\<close>

definition placeable :: "int \<Rightarrow> MemoryRegistry \<Rightarrow> Runner \<Rightarrow> bool" where
  "placeable now r run \<longleftrightarrow>
     mr_runners r (rn_ID run) = Some run \<and> timeSub now (rn_LastSeen run) \<le> mr_heartbeatGrace r \<and>
     rn_Healthy run \<and> \<not> rn_Cordoned run \<and>
     (rn_CapacityTotal run \<le> 0 \<or> rn_CapacityUsed run < rn_CapacityTotal run)"

lemma set_map_filter_map: "set (List.map_filter m xs) = {v. \<exists>k \<in> set xs. m k = Some v}"
  by (force simp: List.map_filter_def)

lemma set_eligibleLocked: "mem_wf r \<Longrightarrow> set (eligibleLocked now r) = {run. placeable now r run}"
  unfolding eligibleLocked_def mem_wf_def placeable_def run_eligible_def
  by (auto simp: set_map_filter_map not_less not_le)

lemma distinct_eligibleLocked:
  assumes "mem_wf r" shows "distinct (map rn_ID (eligibleLocked now r))"
proof -
  have "map rn_ID (List.map_filter (mr_runners r) xs) = xs" if "set xs \<subseteq> dom (mr_runners r)" for xs
    using that assms by (induction xs) (auto simp: mem_wf_def List.map_filter_def)
  then have "map rn_ID (List.map_filter (mr_runners r) (mr_order r)) = mr_order r"
    using assms by (simp add: mem_wf_def)
  then show ?thesis
    using assms unfolding eligibleLocked_def mem_wf_def by (metis distinct_map_filter)
qed

lemma not_better_trans: "\<not> better b a \<Longrightarrow> \<not> better c b \<Longrightarrow> \<not> better c a"
  by (auto simp: better_def)

lemma better_asym: "better a b \<Longrightarrow> \<not> better b a"
  by (auto simp: better_def)

lemma not_better_refl [simp]: "\<not> better a a"
  by (simp add: better_def)

lemma pick_loop_None: "pick_loop ex best rs = None \<longleftrightarrow> best = None \<and> (\<forall>x \<in> set rs. rn_ID x \<in> set ex)"
  by (induction ex best rs rule: pick_loop.induct) (auto split: option.split)

text \<open>The loop keeps the least of what it has seen.\<close>

lemma pick_loop_Some:
  "pick_loop ex best rs = Some b \<Longrightarrow>
   b \<in> set_option best \<union> {x \<in> set rs. rn_ID x \<notin> set ex} \<and>
   (\<forall>x \<in> set_option best \<union> {x \<in> set rs. rn_ID x \<notin> set ex}. \<not> better x b)"
proof (induction ex best rs rule: pick_loop.induct)
  case (2 ex best run rs)
  show ?case
  proof (cases "rn_ID run \<in> set ex")
    case False
    note step = 2(2,3) [OF False]
    show ?thesis
    proof (cases best)
      case None
      with False 2(4) step(1) [OF None] show ?thesis by auto
    next
      case (Some a)
      with False 2(4) have "pick_loop ex (Some (if better run a then run else a)) rs = Some b" by simp
      from step(2) [OF Some this] Some False show ?thesis
        by (auto split: if_splits dest: better_asym intro: not_better_trans dest: not_better_trans)
    qed
  qed (use 2 in auto)
qed auto

lemma PickLowestUsed_Inr:
  assumes "PickLowestUsed now ex r = Inr run"
  shows "run \<in> set (eligibleLocked now r) \<and> rn_ID run \<notin> set ex \<and>
    (\<forall>x \<in> set (eligibleLocked now r). rn_ID x \<notin> set ex \<longrightarrow> \<not> better x run)"
  using assms pick_loop_Some [of ex None "eligibleLocked now r" run]
  by (auto simp: PickLowestUsed_def split: option.splits)

lemma PickLowestUsed_Inl:
  "PickLowestUsed now ex r = Inl e \<Longrightarrow>
     e = ErrNoRunners \<and> (\<forall>x \<in> set (eligibleLocked now r). rn_ID x \<in> set ex)"
  by (auto simp: PickLowestUsed_def pick_loop_None split: option.splits)

interpretation memory: runner_picker "\<lambda>(now, r) run. run \<in> set (eligibleLocked now r)"
    "\<lambda>ex (now, r). PickLowestUsed now ex r"
  by unfold_locales (auto dest!: PickLowestUsed_Inr PickLowestUsed_Inl simp: better_def not_less)

lemma PgPick_Inr:
  assumes "PgPickLowestUsed x ex r = Inr run"
  shows "run \<in> set (pr_rows r) \<and> pg_eligible (pt_now x) r run \<and> rn_ID run \<notin> set ex \<and>
    rn_ID run \<notin> set (pt_locked x) \<and>
    (\<forall>y \<in> set (pr_rows r). pg_eligible (pt_now x) r y \<and> rn_ID y \<notin> set ex \<and> rn_ID y \<notin> set (pt_locked x)
       \<longrightarrow> rn_CapacityUsed run \<le> rn_CapacityUsed y)"
proof -
  let ?c = "filter (\<lambda>run. pg_eligible (pt_now x) r run \<and> rn_ID run \<notin> set ex
      \<and> rn_ID run \<notin> set (pt_locked x)) (pr_rows r)"
  let ?s = "sort_key rn_CapacityUsed (sort_key (\<lambda>run. pt_collate x (rn_ID run)) ?c)"
  obtain rest where s: "?s = run # rest"
    using assms by (auto simp: PgPickLowestUsed_def split: if_splits list.splits)
  have "sorted (map rn_CapacityUsed ?s)" by simp
  moreover have "set ?s = set ?c" by simp
  ultimately show ?thesis unfolding s by auto
qed

lemma PgPick_none:
  assumes "PgPickLowestUsed x ex r = Inl ErrNoRunners" and "y \<in> set (pr_rows r)" "pg_eligible (pt_now x) r y"
    "rn_ID y \<notin> set (pt_locked x)"
  shows "rn_ID y \<in> set ex"
proof (rule ccontr)
  let ?c = "filter (\<lambda>run. pg_eligible (pt_now x) r run \<and> rn_ID run \<notin> set ex
        \<and> rn_ID run \<notin> set (pt_locked x)) (pr_rows r)"
  let ?s = "sort_key rn_CapacityUsed (sort_key (\<lambda>run. pt_collate x (rn_ID run)) ?c)"
  assume "rn_ID y \<notin> set ex"
  then have "y \<in> set ?s" using assms by simp
  then have "?s \<noteq> []" by (metis empty_iff empty_set)
  then show False
    using assms(1) by (auto simp: PgPickLowestUsed_def split: if_splits list.splits)
qed

interpretation postgres: runner_picker
    "\<lambda>(x, r) run. run \<in> set (pr_rows r) \<and> pg_eligible (pt_now x) r run \<and> rn_ID run \<notin> set (pt_locked x)"
    "\<lambda>ex (x, r). PgPickLowestUsed x ex r"
  by unfold_locales (auto dest!: PgPick_Inr dest: PgPick_none)

section \<open>Claims\<close>

text \<open>
  After any history of heartbeats, disconnects and round-robin picks, the registration
  order lists exactly the registered runners, once each, every entry is filed under its own
  non-empty id, and no runner is both registered and remembered as gone.
\<close>

theorem registry_wf: "mem_wf (reg_run ops (NewMemory grace))"
  by (intro mem_wf_run mem_wf_New)

text \<open>
  \<open>PickLowestUsed\<close> is load-aware placement: what it returns is placeable, not excluded,
  and every other such runner has a higher load, or the same load and a later id; it fails only
  with \<open>ErrNoRunners\<close>, and only when every placeable runner is excluded.
\<close>

theorem pick_lowest_used:
  assumes "mem_wf r"
  shows "case PickLowestUsed now exclude r of
      Inr run \<Rightarrow> placeable now r run \<and> rn_ID run \<notin> set exclude \<and>
        (\<forall>other. placeable now r other \<and> rn_ID other \<notin> set exclude \<longrightarrow> other = run \<or> better run other)
    | Inl e \<Rightarrow> e = ErrNoRunners \<and> (\<forall>run. placeable now r run \<longrightarrow> rn_ID run \<in> set exclude)"
proof (cases "PickLowestUsed now exclude r")
  case (Inr run)
  note pick = PickLowestUsed_Inr [OF Inr, unfolded set_eligibleLocked [OF assms]]
  have "other = run \<or> better run other" if "placeable now r other" "rn_ID other \<notin> set exclude" for other
  proof -
    have "\<not> better other run" using pick that by blast
    moreover have "other \<noteq> run \<Longrightarrow> rn_ID other \<noteq> rn_ID run" using pick that by (auto simp: placeable_def)
    ultimately show ?thesis by (auto simp: better_def)
  qed
  with Inr pick show ?thesis by auto
next
  case (Inl e)
  with PickLowestUsed_Inl [OF Inl, unfolded set_eligibleLocked [OF assms]] show ?thesis by auto
qed

definition example_report :: "string \<Rightarrow> int \<Rightarrow> runner_report" where
  "example_report i used = \<lparr>rr_id = i, rr_httpBaseURL = ''https://'' @ i @ ''/'', rr_controlGRPCAddr = i,
     rr_healthy = True, rr_cordoned = False, rr_capTotal = 4, rr_capUsed = used, rr_capStopped = 0\<rparr>"

definition example_registry :: MemoryRegistry where
  "example_registry = reg_run [RegUpsert 0 (example_report ''b'' 1), RegUpsert 0 (example_report ''a'' 2),
     RegUpsert 0 (example_report ''c'' 1)] (NewMemory 0)"

lemmas example_registry_defs = example_registry_def example_report_def NewMemory_def default_grace_def
  Upsert_def reported_runner_def trimRight_def trimSpace_def isSpace_def

lemma example_registry_wf: "mem_wf example_registry"
  unfolding example_registry_def by (intro mem_wf_run mem_wf_New)

theorem pick_lowest_used_witness:
  "map_sum id rn_ID (PickLowestUsed 7 [''b''] example_registry) = Inr ''c'' \<and>
   (\<exists>run. placeable 7 example_registry run \<and> rn_ID run \<notin> set [''b''])"
proof -
  have "map_sum id rn_ID (PickLowestUsed 7 [''b''] example_registry) = Inr ''c''"
    by (simp add: example_registry_defs PickLowestUsed_def eligibleLocked_def run_eligible_def
        List.map_filter_def timeSub_def better_def)
  then show ?thesis
    using pick_lowest_used [OF example_registry_wf, of 7 "[''b'']"]
    by (cases "PickLowestUsed 7 [''b''] example_registry") auto
qed

text \<open>\<open>n\<close> round-robin picks in a row.\<close>

fun round_robin :: "int \<Rightarrow> nat \<Rightarrow> MemoryRegistry \<Rightarrow> (registry_error + Runner) list" where
  "round_robin now 0 r = []"
| "round_robin now (Suc n) r =
     (case PickRoundRobin now r of (res, r') \<Rightarrow> res # round_robin now n r')"

lemma round_robin_picks:
  assumes "eligibleLocked now r = es" and "es \<noteq> []" and "length es < 2 ^ 64"
    and "unat (mr_rrCounter r) + n < 2 ^ 64"
  shows "round_robin now n r = map (\<lambda>k. Inr (es ! ((unat (mr_rrCounter r) + k) mod length es))) [0..<n]"
  using assms
proof (induction n arbitrary: r)
  case (Suc n)
  let ?r' = "r\<lparr>mr_rrCounter := mr_rrCounter r + 1\<rparr>"
  have nxt: "unat (mr_rrCounter r + 1) = Suc (unat (mr_rrCounter r))"
    using Suc.prems(4) by (simp add: unat_word_ariths)
  have "PickRoundRobin now r = (Inr (es ! (unat (mr_rrCounter r) mod length es)), ?r')"
    using Suc.prems by (simp add: PickRoundRobin_def unat_mod unat_of_nat Let_def)
  moreover have "eligibleLocked now ?r' = es"
    using Suc.prems(1) by (simp add: eligibleLocked_def)
  ultimately show ?case
    using Suc.IH [of ?r'] Suc.prems nxt by (simp add: upt_conv_Cons map_Suc_upt [symmetric] del: upt_Suc)
qed simp

text \<open>
  While the eligible runners stay the same, as many round-robin picks as there are
  eligible runners return them in turn, each exactly once, from where the counter stands (until
  the uint64 counter wraps).
\<close>

theorem round_robin_fair:
  assumes "mem_wf r" and "es = eligibleLocked now r" and "es \<noteq> []"
    and "unat (mr_rrCounter r) + length es < 2 ^ 64"
  shows "round_robin now (length es) r = map Inr (rotate (unat (mr_rrCounter r)) es)
    \<and> distinct (round_robin now (length es) r)"
proof -
  have "round_robin now (length es) r = map Inr (rotate (unat (mr_rrCounter r)) es)"
    using assms by (auto simp: round_robin_picks [of now r es] nth_rotate intro!: nth_equalityI)
  moreover have "distinct es"
    using distinct_eligibleLocked [OF assms(1)] assms(2) by (simp add: distinct_map)
  ultimately show ?thesis by (simp add: distinct_map)
qed

theorem round_robin_fair_witness:
  "map (map_sum id rn_ID) (round_robin 7 3 example_registry) = [Inr ''b'', Inr ''a'', Inr ''c'']"
proof -
  have es: "map rn_ID (eligibleLocked 7 example_registry) = [''b'', ''a'', ''c'']"
    by (simp add: example_registry_defs eligibleLocked_def run_eligible_def List.map_filter_def timeSub_def)
  then have len: "length (eligibleLocked 7 example_registry) = 3"
    by (metis length_map list.size(3,4) numeral_3_eq_3 One_nat_def add.commute plus_1_eq_Suc)
  moreover have "mr_rrCounter example_registry = 0" by (simp add: example_registry_defs)
  ultimately show ?thesis
    using round_robin_fair [OF example_registry_wf refl, of 7] es by (auto simp: o_def)
qed

text \<open>
  The last thing a history says about one runner: registered, or gone since an instant.
\<close>

fun last_event :: "string \<Rightarrow> reg_op list \<Rightarrow> int option option" where
  "last_event i [] = None"
| "last_event i (c # cs) =
     (case last_event i cs of
        Some e \<Rightarrow> Some e
      | None \<Rightarrow> (case c of
            RegUpsert now p \<Rightarrow> if rr_id p = i \<and> rr_httpBaseURL p \<noteq> [] then Some None else None
          | RegRemove now j \<Rightarrow> if j = i then Some (Some now) else None
          | RegRoundRobin now \<Rightarrow> None))"

lemma gone_run:
  assumes "i \<noteq> []" and "buffer > 0"
  shows "GoneLongEnough i buffer now (reg_run ops r) =
    (case last_event i ops of
       None \<Rightarrow> GoneLongEnough i buffer now r
     | Some None \<Rightarrow> False
     | Some (Some t) \<Rightarrow> t + buffer \<le> now)"
  using assms
proof (induction ops r rule: reg_run.induct)
  case (2 c cs r)
  then show ?case
    by (cases c) (auto simp: GoneLongEnough_def Upsert_def Remove_def PickRoundRobin_def Let_def
        split: option.split)
qed (simp add: GoneLongEnough_def)

text \<open>
  A runner counts as gone long enough exactly when the last thing the registry heard
  about it is its removal, at least \<open>buffer\<close> ago: a runner that came back, or that this process
  never saw leave, never does, so its sandboxes are not reaped as orphans.
\<close>

theorem gone_long_enough_history:
  "GoneLongEnough i buffer now (reg_run ops (NewMemory grace)) \<longleftrightarrow>
     i \<noteq> [] \<and> buffer > 0 \<and> (\<exists>t. last_event i ops = Some (Some t) \<and> t + buffer \<le> now)"
proof (cases "i \<noteq> [] \<and> buffer > 0")
  case True
  then have "\<not> GoneLongEnough i buffer now (NewMemory grace)"
    by (simp add: GoneLongEnough_def NewMemory_def)
  with True gone_run [of i buffer now ops "NewMemory grace"] show ?thesis
    by (auto split: option.splits)
qed (auto simp: GoneLongEnough_def)

text \<open>
  \<open>List\<close> does not depend on the order in which Go iterates over the map: for every
  enumeration of the keys it returns all registered runners, once each, by ascending id.
\<close>

theorem list_sorted_by_id:
  assumes "mem_wf r" and "distinct iter" and "set iter = dom (mr_runners r)"
  shows "sorted_wrt (\<lambda>a b. rn_ID a < rn_ID b) (ListRunners iter r)
    \<and> set (ListRunners iter r) = ran (mr_runners r)"
proof -
  have ids: "map rn_ID (List.map_filter (mr_runners r) xs) = xs" if "set xs \<subseteq> dom (mr_runners r)" for xs
    using that assms(1) by (induction xs) (auto simp: mem_wf_def List.map_filter_def)
  have "distinct (map rn_ID (List.map_filter (mr_runners r) iter))"
    using ids [of iter] assms(2,3) by simp
  then have "distinct (map rn_ID (ListRunners iter r))"
    by (simp add: ListRunners_def distinct_map)
  moreover have "sorted (map rn_ID (ListRunners iter r))" by (simp add: ListRunners_def)
  ultimately have "sorted_wrt (<) (map rn_ID (ListRunners iter r))" by (simp add: strict_sorted_iff)
  moreover have "set (ListRunners iter r) = ran (mr_runners r)"
    using assms(3) by (auto simp: ListRunners_def set_map_filter_map ran_def)
  ultimately show ?thesis by (simp add: sorted_wrt_map)
qed

theorem list_sorted_by_id_witness:
  "map rn_ID (ListRunners [''c'', ''b'', ''a''] example_registry) = [''a'', ''b'', ''c''] \<and>
   set (ListRunners [''c'', ''b'', ''a''] example_registry) = ran (mr_runners example_registry)"
proof
  have "set [''c'', ''b'', ''a''] = dom (mr_runners example_registry)"
    by (auto simp: example_registry_defs split: if_splits)
  then show "set (ListRunners [''c'', ''b'', ''a''] example_registry) = ran (mr_runners example_registry)"
    using list_sorted_by_id [OF example_registry_wf, of "[''c'', ''b'', ''a'']"] by simp
  show "map rn_ID (ListRunners [''c'', ''b'', ''a''] example_registry) = [''a'', ''b'', ''c'']"
    by (simp add: example_registry_defs ListRunners_def List.map_filter_def)
qed

end
