(* ===== verification/Http.thy ===== *)
theory Http
  imports Runner_Registry
begin

text \<open>
  Responses of the API: the JSON bodies of the handlers, and \<open>internal/api/errors.go\<close>, through
  which every error message passes. Request routing and status codes use Go's names and numbers.
\<close>

record SandboxResponse =
  sr_ID :: string
  sr_Status :: string
  sr_CreatedAt :: unix_time
  sr_LastActiveAt :: unix_time
  sr_Ephemeral :: bool
  sr_Egress :: string
  sr_TenantID :: string

record tenantResponse =
  tr_ID :: string
  tr_Name :: string
  tr_ExternalRef :: string
  tr_MaxSandboxes :: int
  tr_CreatedAt :: unix_time

record apiKeyResponse =
  kp_ID :: string
  kp_TenantID :: string
  kp_Prefix :: string
  kp_CreatedAt :: unix_time
  kp_RevokedAt :: unix_time
  kp_APIKey :: "string option"

record runnerResponse =
  rp_ID :: string
  rp_Healthy :: bool
  rp_Cordoned :: bool
  rp_CapacityTotal :: int
  rp_CapacityUsed :: int
  rp_CapacityStopped :: int
  rp_LastSeen :: unix_time

record APIError =
  ae_Error :: string
  ae_Code :: nat
  ae_Reason :: string

datatype body =
    NoBody
  | ErrorBody APIError
  | SandboxBody SandboxResponse
  | SandboxesBody "SandboxResponse list"
  | TenantBody tenantResponse
  | TenantsBody "tenantResponse list"
  | NewTenantBody tenantResponse "apiKeyResponse option"
  | KeyBody apiKeyResponse
  | KeysBody "apiKeyResponse list"
  | RunnersBody "runnerResponse list"
  | CordonBody string bool
  | RelayedBody string

record response =
  rs_code :: nat
  rs_body :: body
  rs_retryAfter :: "string option"

section \<open>Error messages\<close>

text \<open>\<open>strings.ReplaceAll\<close> with a non-empty pattern: left to right, without overlaps.\<close>

function replaceAll :: "string \<Rightarrow> string \<Rightarrow> string \<Rightarrow> string" where
  "replaceAll old new s =
     (case s of
        [] \<Rightarrow> []
      | c # s' \<Rightarrow> if old \<noteq> [] \<and> hasPrefix s old then new @ replaceAll old new (drop (length old) s)
                  else c # replaceAll old new s')"
  by pat_completeness auto
termination
  by (relation "measure (\<lambda>(old, new, s). length s)") auto

declare replaceAll.simps [simp del]

definition hexDash :: "char \<Rightarrow> bool" where
  "hexDash c \<longleftrightarrow> c \<in> set ''0123456789abcdef-''"

text \<open>
  The regular expression of \<open>sandboxPathRe\<close> at the start of a string: the length of its match. Its
  repeated class does not contain the slash that follows, so the greedy match is the only one.
\<close>

definition sandboxPathRe :: "string \<Rightarrow> nat option" where
  "sandboxPathRe s =
     (let pre = ''/var/sandboxes/'' in
      if \<not> hasPrefix s pre then None
      else (let rest = drop (length pre) s; i = takeWhile hexDash rest;
                tail = drop (length i) rest in
            if i = [] then None
            else case List.find (\<lambda>w. hasPrefix tail (''/'' @ w)) [''rootfs'', ''merged'', ''upper'', ''work'', ''socket''] of
                   None \<Rightarrow> None
                 | Some w \<Rightarrow> Some (length pre + length i + 1 + length w)))"

function stripSandboxPaths :: "string \<Rightarrow> string" where
  "stripSandboxPaths s =
     (case s of
        [] \<Rightarrow> []
      | c # s' \<Rightarrow> (case sandboxPathRe s of
                    Some (Suc n) \<Rightarrow> stripSandboxPaths (drop (Suc n) s)
                  | _ \<Rightarrow> c # stripSandboxPaths s'))"
  by pat_completeness auto
termination
  by (relation "measure length") auto

declare stripSandboxPaths.simps [simp del]

definition sanitizeError :: "string \<Rightarrow> string" where
  "sanitizeError msg = replaceAll ''/sandbox/'' ''/'' (stripSandboxPaths msg)"

definition writeErrorReason :: "nat \<Rightarrow> string \<Rightarrow> string \<Rightarrow> response" where
  "writeErrorReason code msg reason =
     \<lparr>rs_code = code, rs_body = ErrorBody \<lparr>ae_Error = sanitizeError msg, ae_Code = code, ae_Reason = reason\<rparr>,
      rs_retryAfter = None\<rparr>"

definition writeError :: "nat \<Rightarrow> string \<Rightarrow> response" where
  "writeError code msg = writeErrorReason code msg []"

definition writeJSON :: "nat \<Rightarrow> body \<Rightarrow> response" where
  "writeJSON code b = \<lparr>rs_code = code, rs_body = b, rs_retryAfter = None\<rparr>"

definition writeHeader :: "nat \<Rightarrow> response" where
  "writeHeader code = \<lparr>rs_code = code, rs_body = NoBody, rs_retryAfter = None\<rparr>"

lemma response_code [simp]:
  "rs_code (writeErrorReason code msg reason) = code" "rs_code (writeError code msg) = code"
  "rs_code (writeJSON code b) = code" "rs_code (writeHeader code) = code"
  by (simp_all add: writeErrorReason_def writeError_def writeJSON_def writeHeader_def)

lemma response_body [simp]:
  "rs_body (writeJSON code b) = b" "rs_body (writeHeader code) = NoBody"
  "rs_body (writeError code msg) = ErrorBody \<lparr>ae_Error = sanitizeError msg, ae_Code = code, ae_Reason = []\<rparr>"
  "rs_body (writeErrorReason code msg reason) = ErrorBody \<lparr>ae_Error = sanitizeError msg, ae_Code = code, ae_Reason = reason\<rparr>"
  by (simp_all add: writeErrorReason_def writeError_def writeJSON_def writeHeader_def)

section \<open>Sanitizing\<close>

lemma hasPrefix_mem: "hasPrefix s p \<Longrightarrow> c \<in> set p \<Longrightarrow> c \<in> set s"
  by (auto simp: hasPrefix_iff)

lemma replaceAll_id:
  assumes "c \<in> set old" and "c \<notin> set s" shows "replaceAll old new s = s"
  using assms(2)
proof (induction s)
  case (Cons x s)
  then have "\<not> hasPrefix (x # s) old" using hasPrefix_mem [OF _ assms(1)] by blast
  with Cons show ?case by (simp add: replaceAll.simps [of old new "x # s"])
qed (simp add: replaceAll.simps)

lemma stripSandboxPaths_id: "CHR ''/'' \<notin> set s \<Longrightarrow> stripSandboxPaths s = s"
proof (induction s)
  case (Cons x s)
  then have "sandboxPathRe (x # s) = None"
    by (auto simp: sandboxPathRe_def hasPrefix_iff Let_def)
  with Cons show ?case by (simp add: stripSandboxPaths.simps [of "x # s"])
qed (simp add: stripSandboxPaths.simps)

lemma length_replaceAll: "length new \<le> length old \<Longrightarrow> length (replaceAll old new s) \<le> length s"
proof (induction old new s rule: replaceAll.induct)
  case (1 old new s)
  show ?case
  proof (cases s)
    case (Cons c s')
    show ?thesis
    proof (cases "old \<noteq> [] \<and> hasPrefix s old")
      case True
      then have "length old \<le> length s" by (auto simp: hasPrefix_iff)
      moreover have "length (replaceAll old new (drop (length old) s)) \<le> length (drop (length old) s)"
        using 1(1) [OF Cons True 1(3)] .
      ultimately show ?thesis using True Cons 1(3) by (simp add: replaceAll.simps [of old new "c # s'"])
    next
      case False
      with 1(2) [OF Cons False 1(3)] Cons show ?thesis by (auto simp: replaceAll.simps [of old new "c # s'"])
    qed
  qed (simp add: replaceAll.simps)
qed

lemma length_stripSandboxPaths: "length (stripSandboxPaths s) \<le> length s"
proof (induction s rule: stripSandboxPaths.induct)
  case (1 s)
  show ?case
  proof (cases s)
    case (Cons c s')
    show ?thesis
    proof (cases "\<exists>n. sandboxPathRe s = Some (Suc n)")
      case True
      then obtain n where n: "sandboxPathRe s = Some (Suc n)" by blast
      with 1(3) [OF Cons n refl] Cons show ?thesis by (simp add: stripSandboxPaths.simps [of "c # s'"])
    next
      case False
      then have "stripSandboxPaths s = c # stripSandboxPaths s'"
        using Cons by (simp add: stripSandboxPaths.simps [of "c # s'"] split: option.split nat.split)
      moreover have "length (stripSandboxPaths s') \<le> length s'"
      proof (cases "sandboxPathRe s")
        case (Some a)
        with False have "a = 0" by (cases a) auto
        with 1(2) [OF Cons Some] show ?thesis by simp
      qed (use 1(1) [OF Cons] in simp)
      ultimately show ?thesis using Cons by simp
    qed
  qed (simp add: stripSandboxPaths.simps)
qed

text \<open>A message without a slash is not altered, and no message gets longer.\<close>

lemma sanitize_plain: "CHR ''/'' \<notin> set msg \<Longrightarrow> sanitizeError msg = msg"
  by (simp add: sanitizeError_def stripSandboxPaths_id replaceAll_id [of "CHR ''/''"])

lemma sanitize_length: "length (sanitizeError msg) \<le> length msg"
proof -
  have "length (sanitizeError msg) \<le> length (stripSandboxPaths msg)"
    unfolding sanitizeError_def by (rule length_replaceAll) simp
  with length_stripSandboxPaths [of msg] show ?thesis by simp
qed

text \<open>
  One pass is not enough: what is left after removing a prefix can itself contain the prefix, so
  a message can keep an internal path.
\<close>

lemma sanitize_leaves_path: "sanitizeError ''open /sandbox/sandbox/a'' = ''open /sandbox/a''"
proof -
  have "stripSandboxPaths ''open /sandbox/sandbox/a'' = ''open /sandbox/sandbox/a''"
    by (simp add: stripSandboxPaths.simps sandboxPathRe_def hasPrefix_def)
  then show ?thesis
    by (simp add: sanitizeError_def replaceAll.simps hasPrefix_def)
qed

end
