(* ===== verification/Key_Cache.thy ===== *)
theory Key_Cache
  imports Prelude "HOL-Library.AList"
begin

text \<open>
  The cache of tenant key lookups, \<open>internal/api/apikey_cache.go\<close>. The Go map is an association
  list with distinct keys. Each function is split where the mutex is released and where the
  store is read; \<open>cache_step\<close> interleaves the pieces. The \<open>singleflight\<close> group is a library: what is
  used of it is that calls with equal keys may share the result of one execution, and calls with
  different keys never do.
\<close>

definition maxAPIKeyCacheEntries :: nat where "maxAPIKeyCacheEntries = 10000"

record apiKeyCacheEntry =
  ce_tenantID :: string
  ce_expires :: int

record apiKeyCache =
  kc_ttl :: duration
  kc_byKeyHash :: "(string \<times> apiKeyCacheEntry) list"
  kc_gen :: u64

text \<open>A nil cache is \<^const>\<open>None\<close>.\<close>

definition newAPIKeyCache :: "duration \<Rightarrow> apiKeyCache option" where
  "newAPIKeyCache ttl = (if ttl \<le> 0 then None else Some \<lparr>kc_ttl = ttl, kc_byKeyHash = [], kc_gen = 0\<rparr>)"

text \<open>The start of \<open>lookup\<close>: what the cache answers, if anything, and the generation it saw.\<close>

definition lookup_begin :: "int \<Rightarrow> string \<Rightarrow> apiKeyCache \<Rightarrow> string option \<times> u64" where
  "lookup_begin now h c =
     (case map_of (kc_byKeyHash c) h of
        Some e \<Rightarrow> (if now < ce_expires e then Some (ce_tenantID e) else None, kc_gen c)
      | None \<Rightarrow> (None, kc_gen c))"

definition makeRoom :: "int \<Rightarrow> apiKeyCache \<Rightarrow> apiKeyCache" where
  "makeRoom now c =
     (let kept = filter (\<lambda>(_, e). \<not> (\<not> now < ce_expires e)) (kc_byKeyHash c) in
      c\<lparr>kc_byKeyHash := (if length kept > maxAPIKeyCacheEntries * 3 div 4 then [] else kept)\<rparr>)"

text \<open>The end of the shared function of \<open>lookup\<close>, after a successful load.\<close>

definition lookup_store :: "string \<Rightarrow> u64 \<Rightarrow> string \<Rightarrow> int \<Rightarrow> int \<Rightarrow> apiKeyCache \<Rightarrow> apiKeyCache" where
  "lookup_store h gen tenantID started now c =
     (if kc_gen c = gen then
        (let c' = (if map_of (kc_byKeyHash c) h = None \<and> length (kc_byKeyHash c) \<ge> maxAPIKeyCacheEntries
                   then makeRoom now c else c) in
         c'\<lparr>kc_byKeyHash := AList.update h \<lparr>ce_tenantID = tenantID, ce_expires = started + kc_ttl c\<rparr>
               (kc_byKeyHash c')\<rparr>)
      else c)"

definition invalidate :: "string \<Rightarrow> apiKeyCache option \<Rightarrow> apiKeyCache option" where
  "invalidate h = map_option (\<lambda>c. c\<lparr>kc_gen := kc_gen c + 1, kc_byKeyHash := AList.delete h (kc_byKeyHash c)\<rparr>)"

definition invalidateTenant :: "string \<Rightarrow> apiKeyCache option \<Rightarrow> apiKeyCache option" where
  "invalidateTenant t = map_option (\<lambda>c. c\<lparr>kc_gen := kc_gen c + 1,
     kc_byKeyHash := filter (\<lambda>(_, e). ce_tenantID e \<noteq> t) (kc_byKeyHash c)\<rparr>)"

text \<open>
  The whole of \<open>lookup\<close> as one request sees it when it runs the load itself. The clock is read
  three times; \<open>others\<close> is what other requests did to the cache during the load.
\<close>

record lookup_env =
  le_now :: int
  le_started :: int
  le_stored :: int
  le_others :: "apiKeyCache \<Rightarrow> apiKeyCache"

definition lookup :: "lookup_env \<Rightarrow> string \<Rightarrow> ('e + string) \<Rightarrow> apiKeyCache option \<Rightarrow>
    ('e + string) \<times> apiKeyCache option" where
  "lookup x h load co =
     (case co of
        None \<Rightarrow> (load, None)
      | Some c \<Rightarrow>
          (case lookup_begin (le_now x) h c of
             (Some t, _) \<Rightarrow> (Inr t, Some c)
           | (None, gen) \<Rightarrow>
               (case load of
                  Inl e \<Rightarrow> (Inl e, Some (le_others x c))
                | Inr t \<Rightarrow> (Inr t, Some (lookup_store h gen t (le_started x) (le_stored x) (le_others x c))))))"

section \<open>Requests running together\<close>

text \<open>
  A lookup that missed waits with the generation it saw, an execution of the shared function has
  a start time and, once it has read the store, a value. \<open>n\<close> counts the invalidations, so that
  the uint64 generation is \<open>n\<close> at its width; \<open>seen\<close> is that number at the start of a lookup.
\<close>

record waiter =
  wt_hash :: string
  wt_gen :: u64
  wt_seen :: nat

record flight =
  fl_hash :: string
  fl_gen :: u64
  fl_seen :: nat
  fl_started :: int
  fl_loaded :: "string option"

record answer =
  an_hash :: string
  an_tenant :: string
  an_seen :: nat

record cache_state =
  ks_now :: int
  ks_cache :: apiKeyCache
  ks_n :: nat
  ks_waiting :: "waiter multiset"
  ks_flights :: "flight multiset"
  ks_answers :: "answer set"
  ks_forbidden :: "string \<Rightarrow> string \<Rightarrow> nat option"

text \<open>
  \<open>truth \<tau> h\<close> is the tenant the store has for key hash \<open>h\<close> at time \<open>\<tau>\<close>, the empty string when
  there is none. \<open>ks_forbidden h t\<close> records that the pod invalidated after \<open>h\<close> stopped being a
  key of \<open>t\<close> for good, and at which count.
\<close>

definition forbid :: "(string \<Rightarrow> string \<Rightarrow> bool) \<Rightarrow> nat \<Rightarrow> (string \<Rightarrow> string \<Rightarrow> nat option) \<Rightarrow>
    (string \<Rightarrow> string \<Rightarrow> nat option)" where
  "forbid P n F = (\<lambda>h t. if F h t = None \<and> P h t then Some n else F h t)"

inductive cache_step :: "(int \<Rightarrow> string \<Rightarrow> string) \<Rightarrow> cache_state \<Rightarrow> cache_state \<Rightarrow> bool" for truth where
  tick: "ks_now s \<le> now' \<Longrightarrow> cache_step truth s (s\<lparr>ks_now := now'\<rparr>)"
| hit: "lookup_begin (ks_now s) h (ks_cache s) = (Some t, gen) \<Longrightarrow>
    cache_step truth s (s\<lparr>ks_answers := insert \<lparr>an_hash = h, an_tenant = t, an_seen = ks_n s\<rparr> (ks_answers s)\<rparr>)"
| miss: "lookup_begin (ks_now s) h (ks_cache s) = (None, gen) \<Longrightarrow>
    cache_step truth s (s\<lparr>ks_waiting := add_mset \<lparr>wt_hash = h, wt_gen = gen, wt_seen = ks_n s\<rparr> (ks_waiting s)\<rparr>)"
| fly: "w \<in># ks_waiting s \<Longrightarrow>
    cache_step truth s (s\<lparr>ks_flights := add_mset \<lparr>fl_hash = wt_hash w, fl_gen = wt_gen w, fl_seen = wt_seen w,
      fl_started = ks_now s, fl_loaded = None\<rparr> (ks_flights s)\<rparr>)"
| load: "ks_flights s = add_mset f F \<Longrightarrow> fl_loaded f = None \<Longrightarrow>
    cache_step truth s (s\<lparr>ks_flights := add_mset (f\<lparr>fl_loaded := Some (truth (ks_now s) (fl_hash f))\<rparr>) F\<rparr>)"
| load_fails: "ks_flights s = add_mset f F \<Longrightarrow> cache_step truth s (s\<lparr>ks_flights := F\<rparr>)"
| store: "f \<in># ks_flights s \<Longrightarrow> fl_loaded f = Some t \<Longrightarrow>
    cache_step truth s (s\<lparr>ks_cache := lookup_store (fl_hash f) (fl_gen f) t (fl_started f) (ks_now s) (ks_cache s)\<rparr>)"
| answer: "f \<in># ks_flights s \<Longrightarrow> fl_loaded f = Some t \<Longrightarrow> ks_waiting s = add_mset w W \<Longrightarrow>
    wt_gen w = fl_gen f \<Longrightarrow> wt_hash w = fl_hash f \<Longrightarrow>
    cache_step truth s (s\<lparr>ks_waiting := W,
      ks_answers := insert \<lparr>an_hash = wt_hash w, an_tenant = t, an_seen = wt_seen w\<rparr> (ks_answers s)\<rparr>)"
| revoked: "invalidate h (Some (ks_cache s)) = Some c' \<Longrightarrow> (\<forall>\<tau> \<ge> ks_now s. truth \<tau> h = []) \<Longrightarrow>
    cache_step truth s (s\<lparr>ks_cache := c', ks_n := Suc (ks_n s),
      ks_forbidden := forbid (\<lambda>h' t. h' = h \<and> t \<noteq> []) (Suc (ks_n s)) (ks_forbidden s)\<rparr>)"
| tenant_gone: "invalidateTenant t (Some (ks_cache s)) = Some c' \<Longrightarrow> (\<forall>\<tau> \<ge> ks_now s. \<forall>h. truth \<tau> h \<noteq> t) \<Longrightarrow>
    cache_step truth s (s\<lparr>ks_cache := c', ks_n := Suc (ks_n s),
      ks_forbidden := forbid (\<lambda>h t'. t' = t) (Suc (ks_n s)) (ks_forbidden s)\<rparr>)"

inductive cache_reach :: "(int \<Rightarrow> string \<Rightarrow> string) \<Rightarrow> duration \<Rightarrow> cache_state \<Rightarrow> bool" for truth ttl where
  start: "newAPIKeyCache ttl = Some c \<Longrightarrow> cache_reach truth ttl \<lparr>ks_now = now, ks_cache = c, ks_n = 0,
    ks_waiting = {#}, ks_flights = {#}, ks_answers = {}, ks_forbidden = (\<lambda>_ _. None)\<rparr>"
| step: "cache_reach truth ttl s \<Longrightarrow> cache_step truth s s' \<Longrightarrow> cache_reach truth ttl s'"

section \<open>The invariant\<close>

lemma map_of_filter_SomeD:
  "distinct (map fst xs) \<Longrightarrow> map_of (filter P xs) k = Some v \<Longrightarrow> map_of xs k = Some v \<and> P (k, v)"
  by (auto dest!: map_of_SomeD)

definition cache_ok :: "apiKeyCache \<Rightarrow> bool" where
  "cache_ok c \<longleftrightarrow> distinct (map fst (kc_byKeyHash c)) \<and> length (kc_byKeyHash c) \<le> maxAPIKeyCacheEntries"

lemma makeRoom_entries:
  "cache_ok c \<Longrightarrow> map_of (kc_byKeyHash (makeRoom now c)) h = Some e \<Longrightarrow> map_of (kc_byKeyHash c) h = Some e"
  by (auto simp: makeRoom_def Let_def cache_ok_def split: if_splits dest!: map_of_SomeD)

lemma makeRoom_length: "length (kc_byKeyHash (makeRoom now c)) \<le> maxAPIKeyCacheEntries * 3 div 4"
  by (simp add: makeRoom_def Let_def)

lemma length_update: "length (AList.update k v xs) \<le> Suc (length xs)"
  by (induction xs) auto

lemma length_update_old: "map_of xs k \<noteq> None \<Longrightarrow> length (AList.update k v xs) = length xs"
  by (induction xs) (auto split: if_splits)

lemma cache_ok_makeRoom: "cache_ok c \<Longrightarrow> cache_ok (makeRoom now c)"
  by (auto simp: cache_ok_def makeRoom_def Let_def distinct_map_filter maxAPIKeyCacheEntries_def)

lemma cache_ok_store [keeps_inv]: 
  assumes "cache_ok c" shows "cache_ok (lookup_store h gen t started now c)"
proof -
  let ?c' = "if map_of (kc_byKeyHash c) h = None \<and> length (kc_byKeyHash c) \<ge> maxAPIKeyCacheEntries
    then makeRoom now c else c"
  have "length (AList.update h e (kc_byKeyHash ?c')) \<le> maxAPIKeyCacheEntries" for e
    using assms length_update [of h e "kc_byKeyHash ?c'"] length_update_old [of "kc_byKeyHash c" h e]
      makeRoom_length [of now c]
    by (auto simp: cache_ok_def maxAPIKeyCacheEntries_def)
  moreover have "cache_ok ?c'" using assms by (simp add: cache_ok_makeRoom)
  ultimately show ?thesis
    using assms by (auto simp: lookup_store_def Let_def cache_ok_def distinct_update)
qed

lemma lookup_store_entry:
  assumes "cache_ok c" and "map_of (kc_byKeyHash (lookup_store h gen t started now c)) h' = Some e"
  shows "map_of (kc_byKeyHash c) h' = Some e \<or>
    h' = h \<and> kc_gen c = gen \<and> e = \<lparr>ce_tenantID = t, ce_expires = started + kc_ttl c\<rparr>"
  using assms
  by (auto simp: lookup_store_def Let_def update_conv split: if_splits dest: makeRoom_entries)

lemma lookup_store_same [simp]:
  "kc_gen (lookup_store h gen t started now c) = kc_gen c"
  "kc_ttl (lookup_store h gen t started now c) = kc_ttl c"
  by (simp_all add: lookup_store_def makeRoom_def Let_def)

text \<open>
  The four parts of the invariant: generations are the counts at their width, what a flight
  loaded was true while it ran, what is cached was true at most \<open>ttl\<close> before it expires, and
  nothing forbidden is cached, or carried by a flight or answer of the current generation.
\<close>

definition gens_ok :: "cache_state \<Rightarrow> bool" where
  "gens_ok s \<longleftrightarrow> kc_gen (ks_cache s) = of_nat (ks_n s) \<and>
     (\<forall>w \<in># ks_waiting s. wt_gen w = of_nat (wt_seen w) \<and> wt_seen w \<le> ks_n s) \<and>
     (\<forall>f \<in># ks_flights s. fl_gen f = of_nat (fl_seen f) \<and> fl_seen f \<le> ks_n s) \<and>
     (\<forall>a \<in> ks_answers s. an_seen a \<le> ks_n s)"

definition flights_ok :: "(int \<Rightarrow> string \<Rightarrow> string) \<Rightarrow> cache_state \<Rightarrow> bool" where
  "flights_ok truth s \<longleftrightarrow> (\<forall>f \<in># ks_flights s. fl_started f \<le> ks_now s \<and>
     (\<forall>t. fl_loaded f = Some t \<longrightarrow> (\<exists>\<tau>. fl_started f \<le> \<tau> \<and> \<tau> \<le> ks_now s \<and> t = truth \<tau> (fl_hash f))))"

definition entries_ok :: "(int \<Rightarrow> string \<Rightarrow> string) \<Rightarrow> duration \<Rightarrow> cache_state \<Rightarrow> bool" where
  "entries_ok truth ttl s \<longleftrightarrow> cache_ok (ks_cache s) \<and> kc_ttl (ks_cache s) = ttl \<and>
     (\<forall>h e. map_of (kc_byKeyHash (ks_cache s)) h = Some e \<longrightarrow>
        (\<exists>\<tau>. ce_expires e - ttl \<le> \<tau> \<and> \<tau> \<le> ks_now s \<and> ce_tenantID e = truth \<tau> h))"

definition pair_ok :: "(int \<Rightarrow> string \<Rightarrow> string) \<Rightarrow> cache_state \<Rightarrow> string \<Rightarrow> string \<Rightarrow> nat \<Rightarrow> bool" where
  "pair_ok truth s h t g \<longleftrightarrow> g \<le> ks_n s \<and>
     (\<forall>\<tau> \<ge> ks_now s. truth \<tau> h \<noteq> t) \<and>
     (\<forall>e. map_of (kc_byKeyHash (ks_cache s)) h = Some e \<longrightarrow> ce_tenantID e \<noteq> t) \<and>
     (\<forall>f \<in># ks_flights s. fl_hash f = h \<and> g \<le> fl_seen f \<longrightarrow> fl_loaded f \<noteq> Some t) \<and>
     (\<forall>a \<in> ks_answers s. an_hash a = h \<and> g \<le> an_seen a \<longrightarrow> an_tenant a \<noteq> t)"

definition forbidden_ok :: "(int \<Rightarrow> string \<Rightarrow> string) \<Rightarrow> cache_state \<Rightarrow> bool" where
  "forbidden_ok truth s \<longleftrightarrow> (\<forall>h t g. ks_forbidden s h t = Some g \<longrightarrow> pair_ok truth s h t g)"

lemma of_nat_64_eq: "(of_nat a :: u64) = of_nat b \<Longrightarrow> a < 2 ^ 64 \<Longrightarrow> b < 2 ^ 64 \<Longrightarrow> a = b"
  by (drule arg_cong [where f = unat]) (simp add: unat_of_nat)

lemma cache_step_n: "cache_step truth s s' \<Longrightarrow> ks_n s \<le> ks_n s'"
  by (induction rule: cache_step.induct) auto

lemma map_of_delete: "map_of (AList.delete k xs) h = Some e \<Longrightarrow> h \<noteq> k \<and> map_of xs h = Some e"
  by (simp add: AList.delete_conv split: if_splits)

lemma invalidate_entry:
  "invalidate h (Some c) = Some c' \<Longrightarrow> map_of (kc_byKeyHash c') k = Some e \<Longrightarrow>
   k \<noteq> h \<and> map_of (kc_byKeyHash c) k = Some e"
  by (auto simp: invalidate_def dest: map_of_delete)

lemma invalidateTenant_entry:
  "cache_ok c \<Longrightarrow> invalidateTenant t (Some c) = Some c' \<Longrightarrow> map_of (kc_byKeyHash c') k = Some e \<Longrightarrow>
   ce_tenantID e \<noteq> t \<and> map_of (kc_byKeyHash c) k = Some e"
  unfolding invalidateTenant_def cache_ok_def by (auto dest!: map_of_filter_SomeD map_of_SomeD)

lemma invalidate_same:
  assumes "invalidate h (Some c) = Some c' \<or> invalidateTenant t (Some c) = Some c'" and "cache_ok c"
  shows "kc_gen c' = kc_gen c + 1 \<and> kc_ttl c' = kc_ttl c \<and> cache_ok c'"
  using assms unfolding invalidate_def invalidateTenant_def cache_ok_def
  by (auto simp: distinct_map_filter distinct_delete intro: order.trans [OF length_filter_le]
      order.trans [OF AList.length_delete_le])

lemma gens_ok_step: "cache_step truth s s' \<Longrightarrow> entries_ok truth ttl s \<Longrightarrow> gens_ok s \<Longrightarrow> gens_ok s'"
proof (induction rule: cache_step.induct)
  case (revoked h s c')
  then show ?case
    using invalidate_same [of h "ks_cache s" c'] by (auto simp: gens_ok_def entries_ok_def le_Suc_eq)
next
  case (tenant_gone t s c')
  then show ?case
    using invalidate_same [of _ "ks_cache s" c' t] by (auto simp: gens_ok_def entries_ok_def le_Suc_eq)
qed (auto simp: gens_ok_def lookup_begin_def split: option.splits if_splits)

lemma flights_ok_step: "cache_step truth s s' \<Longrightarrow> flights_ok truth s \<Longrightarrow> flights_ok truth s'"
  by (induction rule: cache_step.induct) (fastforce simp: flights_ok_def)+

lemma entries_ok_step:
  "cache_step truth s s' \<Longrightarrow> flights_ok truth s \<Longrightarrow> entries_ok truth ttl s \<Longrightarrow> entries_ok truth ttl s'"
proof (induction rule: cache_step.induct)
  case (tick s now')
  then show ?case by (fastforce simp: entries_ok_def)
next
  case (store f s t)
  have ok: "cache_ok (ks_cache s)" using store.prems by (simp add: entries_ok_def)
  have "\<exists>\<tau>. ce_expires e - ttl \<le> \<tau> \<and> \<tau> \<le> ks_now s \<and> ce_tenantID e = truth \<tau> h"
    if "map_of (kc_byKeyHash (lookup_store (fl_hash f) (fl_gen f) t (fl_started f) (ks_now s) (ks_cache s))) h = Some e"
    for h e
    using lookup_store_entry [OF ok that] store by (auto simp: entries_ok_def flights_ok_def)
  then show ?case using store.prems ok by (auto simp: entries_ok_def keeps_inv)
next
  case (revoked h s c')
  then show ?case
    using invalidate_same [of h "ks_cache s" c'] by (fastforce simp: entries_ok_def dest: invalidate_entry)
next
  case (tenant_gone t s c')
  then show ?case
    using invalidate_same [of _ "ks_cache s" c' t] by (fastforce simp: entries_ok_def dest: invalidateTenant_entry)
qed (auto simp: entries_ok_def)

lemma forbiddenD:
  assumes "forbidden_ok truth s" and "ks_forbidden s h t = Some g"
  shows "g \<le> ks_n s" "\<tau> \<ge> ks_now s \<Longrightarrow> truth \<tau> h \<noteq> t"
    "map_of (kc_byKeyHash (ks_cache s)) h = Some e \<Longrightarrow> ce_tenantID e \<noteq> t"
    "f \<in># ks_flights s \<Longrightarrow> fl_hash f = h \<Longrightarrow> g \<le> fl_seen f \<Longrightarrow> fl_loaded f \<noteq> Some t"
    "a \<in> ks_answers s \<Longrightarrow> an_hash a = h \<Longrightarrow> g \<le> an_seen a \<Longrightarrow> an_tenant a \<noteq> t"
  using assms by (auto simp: forbidden_ok_def pair_ok_def)

lemma forbidden_ok_forbid:
  assumes forb: "forbidden_ok truth s" and gens: "gens_ok s"
    and sub: "\<And>h e. map_of (kc_byKeyHash c') h = Some e \<Longrightarrow> map_of (kc_byKeyHash (ks_cache s)) h = Some e"
    and new: "\<And>h t \<tau>. P h t \<Longrightarrow> ks_now s \<le> \<tau> \<Longrightarrow> truth \<tau> h \<noteq> t"
      "\<And>h t e. P h t \<Longrightarrow> map_of (kc_byKeyHash c') h = Some e \<Longrightarrow> ce_tenantID e \<noteq> t"
  shows "forbidden_ok truth (s\<lparr>ks_cache := c', ks_n := Suc (ks_n s),
    ks_forbidden := forbid P (Suc (ks_n s)) (ks_forbidden s)\<rparr>)" (is "forbidden_ok truth ?s'")
  unfolding forbidden_ok_def
proof (intro allI impI)
  fix h t g
  assume "ks_forbidden ?s' h t = Some g"
  then consider (old) "ks_forbidden s h t = Some g" | (added) "P h t" "g = Suc (ks_n s)"
    by (auto simp: forbid_def split: if_splits)
  then show "pair_ok truth ?s' h t g"
  proof cases
    case old
    note D = forbiddenD [OF forb old]
    show ?thesis using D(1,2,4,5) sub D(3) by (auto simp: pair_ok_def le_SucI)
  next
    case added
    then show ?thesis using new gens by (force simp: pair_ok_def gens_ok_def)
  qed
qed

lemma forbidden_ok_step:
  assumes "cache_step truth s s'" and "gens_ok s" and "entries_ok truth ttl s" and "ks_n s' < 2 ^ 64"
    and forb: "forbidden_ok truth s"
  shows "forbidden_ok truth s'"
  using assms
proof (induction rule: cache_step.induct)
  case (tick s now')
  then show ?case by (auto simp: forbidden_ok_def pair_ok_def)
next
  case (hit s h t gen)
  then obtain e where "map_of (kc_byKeyHash (ks_cache s)) h = Some e" "t = ce_tenantID e"
    by (auto simp: lookup_begin_def split: option.splits if_splits)
  then have "ks_forbidden s h t = None"
    using forbiddenD(3) [OF hit.prems(4)] by (cases "ks_forbidden s h t") blast+
  then show ?case using hit.prems(4) by (auto simp: forbidden_ok_def pair_ok_def)
next
  case (store f s t)
  have ok: "cache_ok (ks_cache s)" using store.prems by (simp add: entries_ok_def)
  have "ce_tenantID e \<noteq> t'" if F: "ks_forbidden s h t' = Some g"
    and e: "map_of (kc_byKeyHash (lookup_store (fl_hash f) (fl_gen f) t (fl_started f) (ks_now s) (ks_cache s))) h = Some e"
    for h t' g e
    using lookup_store_entry [OF ok e]
  proof
    assume new: "h = fl_hash f \<and> kc_gen (ks_cache s) = fl_gen f \<and>
      e = \<lparr>ce_tenantID = t, ce_expires = fl_started f + kc_ttl (ks_cache s)\<rparr>"
    then have "fl_seen f = ks_n s"
      using store by (intro of_nat_64_eq) (auto simp: gens_ok_def)
    with new store(1,2) forbiddenD(1,4) [OF store.prems(4) F] show ?thesis by auto
  qed (use forbiddenD(3) [OF store.prems(4) F] in auto)
  then show ?case using store.prems(4) by (auto simp: forbidden_ok_def pair_ok_def)
next
  case (answer f s t w W)
  then have "wt_seen w = fl_seen f"
    by (intro of_nat_64_eq) (auto simp: gens_ok_def)
  with answer show ?case by (auto simp: forbidden_ok_def pair_ok_def)
next
  case (revoked h s c')
  show ?case
    by (rule forbidden_ok_forbid [OF revoked.prems(4,1)]) (use revoked in \<open>auto dest: invalidate_entry\<close>)
next
  case (tenant_gone t s c')
  then have "cache_ok (ks_cache s)" by (simp add: entries_ok_def)
  note entry = invalidateTenant_entry [OF this tenant_gone(1)]
  show ?case
    by (rule forbidden_ok_forbid [OF tenant_gone.prems(4,1)]) (use tenant_gone entry in auto)
qed (auto simp: forbidden_ok_def pair_ok_def)

lemma cache_reach_inv:
  "cache_reach truth ttl s \<Longrightarrow> ks_n s < 2 ^ 64 \<Longrightarrow>
     gens_ok s \<and> flights_ok truth s \<and> entries_ok truth ttl s \<and> forbidden_ok truth s"
proof (induction rule: cache_reach.induct)
  case (start c now)
  then show ?case
    by (auto simp: newAPIKeyCache_def gens_ok_def flights_ok_def entries_ok_def forbidden_ok_def cache_ok_def
        split: if_splits)
next
  case (step s s')
  then have inv: "gens_ok s \<and> flights_ok truth s \<and> entries_ok truth ttl s \<and> forbidden_ok truth s"
    using cache_step_n by fastforce
  with step show ?case
    by (meson gens_ok_step flights_ok_step entries_ok_step forbidden_ok_step)
qed

text \<open>
  A key of tenant \<open>t\<close> that is revoked at time 1. A lookup at time 0 reads the store, the revocation
  is invalidated at time 1, and a lookup that starts then is answered from the store: no tenant.
\<close>

definition example_truth :: "int \<Rightarrow> string \<Rightarrow> string" where
  "example_truth \<tau> h = (if h = ''h'' \<and> \<tau> < 1 then ''t'' else [])"

definition example_flight :: "nat \<Rightarrow> int \<Rightarrow> string option \<Rightarrow> flight" where
  "example_flight n now l =
     \<lparr>fl_hash = ''h'', fl_gen = of_nat n, fl_seen = n, fl_started = now, fl_loaded = l\<rparr>"

definition example_cache_state :: "int \<Rightarrow> apiKeyCache \<Rightarrow> nat \<Rightarrow> flight multiset \<Rightarrow> waiter multiset \<Rightarrow> answer set \<Rightarrow> cache_state" where
  "example_cache_state now c n F W A = \<lparr>ks_now = now, ks_cache = c, ks_n = n, ks_waiting = W, ks_flights = F,
     ks_answers = A, ks_forbidden = (if n = 0 then (\<lambda>_ _. None) else forbid (\<lambda>h' t. h' = ''h'' \<and> t \<noteq> []) 1 (\<lambda>_ _. None))\<rparr>"

lemmas example_cache_defs = example_cache_state_def example_flight_def

lemma example_cached:
  "cache_reach example_truth 10 (example_cache_state 0
     \<lparr>kc_ttl = 10, kc_byKeyHash = [(''h'', \<lparr>ce_tenantID = ''t'', ce_expires = 10\<rparr>)], kc_gen = 0\<rparr> 0
     {#example_flight 0 0 (Some ''t'')#} {#\<lparr>wt_hash = ''h'', wt_gen = 0, wt_seen = 0\<rparr>#} {})"
proof -
  let ?c = "\<lparr>kc_ttl = 10, kc_byKeyHash = [], kc_gen = 0\<rparr>" and ?w = "\<lparr>wt_hash = ''h'', wt_gen = 0, wt_seen = 0\<rparr>"
  have "cache_reach example_truth 10 (example_cache_state 0 ?c 0 {#} {#} {})"
    using cache_reach.start [of 10 ?c example_truth 0] by (simp add: newAPIKeyCache_def example_cache_state_def)
  from cache_reach.step [OF this cache_step.miss [of _ "''h''" 0]]
  have "cache_reach example_truth 10 (example_cache_state 0 ?c 0 {#} {#?w#} {})"
    by (simp add: example_cache_defs lookup_begin_def)
  from cache_reach.step [OF this cache_step.fly [of ?w]]
  have "cache_reach example_truth 10 (example_cache_state 0 ?c 0 {#example_flight 0 0 None#} {#?w#} {})"
    by (simp add: example_cache_defs)
  from cache_reach.step [OF this cache_step.load [of _ "example_flight 0 0 None" "{#}"]]
  have "cache_reach example_truth 10 (example_cache_state 0 ?c 0 {#example_flight 0 0 (Some ''t'')#} {#?w#} {})"
    by (simp add: example_cache_defs example_truth_def)
  from cache_reach.step [OF this cache_step.store [of "example_flight 0 0 (Some ''t'')" _ "''t''"]]
  show ?thesis by (simp add: example_cache_defs lookup_store_def maxAPIKeyCacheEntries_def)
qed

lemma example_revoked:
  "cache_reach example_truth 10 (example_cache_state 1 \<lparr>kc_ttl = 10, kc_byKeyHash = [], kc_gen = 1\<rparr> 1
     {#example_flight 1 1 (Some []), example_flight 0 0 (Some ''t'')#} {#\<lparr>wt_hash = ''h'', wt_gen = 0, wt_seen = 0\<rparr>#}
     {\<lparr>an_hash = ''h'', an_tenant = [], an_seen = 1\<rparr>})"
proof -
  let ?c1 = "\<lparr>kc_ttl = 10, kc_byKeyHash = [], kc_gen = 1\<rparr>"
  let ?w = "\<lparr>wt_hash = ''h'', wt_gen = 0, wt_seen = 0\<rparr>" and ?w1 = "\<lparr>wt_hash = ''h'', wt_gen = 1, wt_seen = 1\<rparr>"
  let ?f = "example_flight 0 0 (Some ''t'')"
  from cache_reach.step [OF example_cached cache_step.tick [of _ 1]]
  have t1: "cache_reach example_truth 10 (example_cache_state 1
     \<lparr>kc_ttl = 10, kc_byKeyHash = [(''h'', \<lparr>ce_tenantID = ''t'', ce_expires = 10\<rparr>)], kc_gen = 0\<rparr> 0 {#?f#} {#?w#} {})"
    by (simp add: example_cache_state_def)
  from cache_reach.step [OF t1 cache_step.revoked [of "''h''" _ ?c1]]
  have "cache_reach example_truth 10 (example_cache_state 1 ?c1 1 {#?f#} {#?w#} {})"
    by (simp add: example_cache_state_def invalidate_def example_truth_def)
  from cache_reach.step [OF this cache_step.miss [of _ "''h''" 1]]
  have "cache_reach example_truth 10 (example_cache_state 1 ?c1 1 {#?f#} {#?w1, ?w#} {})"
    by (simp add: example_cache_state_def lookup_begin_def)
  from cache_reach.step [OF this cache_step.fly [of ?w1]]
  have "cache_reach example_truth 10 (example_cache_state 1 ?c1 1 {#example_flight 1 1 None, ?f#} {#?w1, ?w#} {})"
    by (simp add: example_cache_defs)
  from cache_reach.step [OF this cache_step.load [of _ "example_flight 1 1 None" "{#?f#}"]]
  have "cache_reach example_truth 10 (example_cache_state 1 ?c1 1 {#example_flight 1 1 (Some []), ?f#} {#?w1, ?w#} {})"
    by (simp add: example_cache_defs example_truth_def)
  from cache_reach.step [OF this cache_step.answer [of "example_flight 1 1 (Some [])" _ "[]" ?w1 "{#?w#}"]]
  show ?thesis by (simp add: example_cache_defs)
qed

section \<open>Claims\<close>

text \<open>
  Claim C7. Once a pod has invalidated a revoked key, or the keys of a deleted tenant, no lookup
  that starts later is answered with that tenant, whatever lookups were reading the store
  meanwhile: \<open>ks_forbidden h t = Some g\<close> records such an invalidation and \<open>g \<le> an_seen a\<close> says
  the lookup started after it. (Below 2^64 invalidations, where the generation counter wraps.)
\<close>

theorem revoked_key_stays_out:
  assumes "cache_reach truth ttl s" and "ks_n s < 2 ^ 64" and "a \<in> ks_answers s"
    and "ks_forbidden s (an_hash a) t = Some g" and "g \<le> an_seen a"
  shows "an_tenant a \<noteq> t"
  using cache_reach_inv [OF assms(1,2)] forbiddenD(5) [OF _ assms(4,3)] assms(5) by blast

theorem revoked_key_stays_out_witness:
  "\<exists>s a. cache_reach example_truth 10 s \<and> a \<in> ks_answers s \<and> an_hash a = ''h'' \<and>
     ks_forbidden s ''h'' ''t'' = Some 1 \<and> an_tenant a \<noteq> ''t''"
proof -
  let ?a = "\<lparr>an_hash = ''h'', an_tenant = [], an_seen = 1\<rparr>"
  have "an_tenant ?a \<noteq> ''t''"
    by (rule revoked_key_stays_out [OF example_revoked, where g = 1]) (simp_all add: example_cache_state_def forbid_def)
  then show ?thesis
    by - (rule exI, rule exI [of _ ?a], rule conjI, rule example_revoked, simp add: example_cache_state_def forbid_def)
qed

text \<open>
  Claim C33. The cache never holds more than 10000 entries, and what it answers at a time was in the
  store less than the TTL earlier.
\<close>

theorem cached_answer_fresh:
  assumes "cache_reach truth ttl s" and "ks_n s < 2 ^ 64"
  shows "length (kc_byKeyHash (ks_cache s)) \<le> 10000 \<and>
    (\<forall>h t gen. lookup_begin (ks_now s) h (ks_cache s) = (Some t, gen) \<longrightarrow>
       (\<exists>\<tau>. ks_now s - ttl < \<tau> \<and> \<tau> \<le> ks_now s \<and> t = truth \<tau> h))"
proof (intro conjI allI impI)
  have ok: "entries_ok truth ttl s" using cache_reach_inv [OF assms] by simp
  then show "length (kc_byKeyHash (ks_cache s)) \<le> 10000"
    by (simp add: entries_ok_def cache_ok_def maxAPIKeyCacheEntries_def)
  fix h t gen
  assume "lookup_begin (ks_now s) h (ks_cache s) = (Some t, gen)"
  then obtain e where "map_of (kc_byKeyHash (ks_cache s)) h = Some e" "ks_now s < ce_expires e" "t = ce_tenantID e"
    by (auto simp: lookup_begin_def split: option.splits if_splits)
  moreover from this(1) ok obtain \<tau> where "ce_expires e - ttl \<le> \<tau>" "\<tau> \<le> ks_now s" "ce_tenantID e = truth \<tau> h"
    unfolding entries_ok_def by blast
  ultimately show "\<exists>\<tau>. ks_now s - ttl < \<tau> \<and> \<tau> \<le> ks_now s \<and> t = truth \<tau> h"
    by (intro exI [of _ \<tau>]) simp
qed

theorem cached_answer_fresh_witness:
  "\<exists>\<tau>. 0 - 10 < \<tau> \<and> \<tau> \<le> 0 \<and> ''t'' = example_truth \<tau> ''h''"
  using cached_answer_fresh [OF example_cached]
  by (auto simp: example_cache_state_def lookup_begin_def)

end
