(* ===== verification/Limits.thy ===== *)
theory Limits
  imports Prelude
begin

text \<open>
  The keyed limiter of \<^verbatim>\<open>internal/limits/limits.go\<close>: it caps how many requests are in
  progress at once per key. The limiter, its two operations, and the interleavings of any
  number of requests that call \<open>Release\<close> once for every successful \<open>TryAcquire\<close>, as the
  comment on \<open>TryAcquire\<close> asks.
\<close>

section \<open>The limiter\<close>

record KeyedLimiter =
  kl_max :: int
  kl_counts :: "string \<rightharpoonup> int"

definition NewKeyedLimiter :: "int \<Rightarrow> KeyedLimiter" where
  "NewKeyedLimiter n = \<lparr>kl_max = n, kl_counts = Map.empty\<rparr>"

definition TryAcquire :: "KeyedLimiter \<Rightarrow> string \<Rightarrow> bool \<times> KeyedLimiter" where
  "TryAcquire l key =
     (if kl_max l \<le> 0 then (True, l)
      else if kl_max l \<le> get0 (kl_counts l) key then (False, l)
      else (True, l\<lparr>kl_counts := (kl_counts l)(key \<mapsto> get0 (kl_counts l) key + 1)\<rparr>))"

definition Release :: "KeyedLimiter \<Rightarrow> string \<Rightarrow> KeyedLimiter" where
  "Release l key =
     (if kl_max l \<le> 0 then l
      else let n = get0 (kl_counts l) key in
        if n > 1 then l\<lparr>kl_counts := (kl_counts l)(key \<mapsto> n - 1)\<rparr>
        else l\<lparr>kl_counts := (kl_counts l)(key := None)\<rparr>)"

text \<open>
  The contract a middleware relies on when it brackets a request with the two operations: a
  refusal changes nothing, an admission touches the slots of its own key only, and releasing
  an admitted slot gives back exactly that slot.
\<close>

locale slot_pool =
  fixes cap :: "'s \<Rightarrow> int"
    and held :: "'s \<Rightarrow> string \<Rightarrow> nat"
    and acquire :: "'s \<Rightarrow> string \<Rightarrow> bool \<times> 's"
    and give_back :: "'s \<Rightarrow> string \<Rightarrow> 's"
  assumes refused_same: "acquire s k = (False, s') \<Longrightarrow> s' = s"
    and admitted_cap: "acquire s k = (True, s') \<Longrightarrow> cap s' = cap s"
    and admitted_other: "acquire s k = (True, s') \<Longrightarrow> k' \<noteq> k \<Longrightarrow> held s' k' = held s k'"
    and give_back_other: "k' \<noteq> k \<Longrightarrow> held (give_back s k) k' = held s k'"
    and give_back_own:
      "acquire s k = (True, s') \<Longrightarrow> cap t = cap s \<Longrightarrow> held t k = held s' k \<Longrightarrow>
       held (give_back t k) k = held s k"
begin

text \<open>
  While an admitted request runs, other requests may come and go: as long as they leave the
  slots as they found them (\<open>held t = held s'\<close>), giving the slot back restores every count.
\<close>

lemma bracket_restores:
  assumes "acquire s k = (True, s')" and "cap t = cap s'" and "held t = held s'"
  shows "held (give_back t k) = held s"
proof
  fix k'
  show "held (give_back t k) k' = held s k'"
  proof (cases "k' = k")
    case True
    with assms show ?thesis by (simp add: give_back_own admitted_cap)
  next
    case False
    with assms show ?thesis by (simp add: give_back_other admitted_other)
  qed
qed

end

definition in_progress :: "KeyedLimiter \<Rightarrow> string \<Rightarrow> nat" where
  "in_progress l k = nat (get0 (kl_counts l) k)"

interpretation limiter: slot_pool kl_max in_progress TryAcquire Release
proof unfold_locales
  fix s k s' t
  assume "TryAcquire s k = (True, s')" "kl_max t = kl_max s" "in_progress t k = in_progress s' k"
  then show "in_progress (Release t k) k = in_progress s k"
    by (auto simp: in_progress_def TryAcquire_def Release_def Let_def split: if_splits)
qed (auto simp: in_progress_def TryAcquire_def Release_def Let_def split: if_splits)

section \<open>Requests holding slots\<close>

text \<open>
  A configuration pairs the limiter with the multiset of keys whose requests hold a slot.
\<close>

type_synonym limiter_conf = "KeyedLimiter \<times> string multiset"

inductive limiter_step :: "limiter_conf \<Rightarrow> limiter_conf \<Rightarrow> bool" where
  admit: "TryAcquire l k = (True, l') \<Longrightarrow> limiter_step (l, H) (l', add_mset k H)"
| refuse: "TryAcquire l k = (False, l') \<Longrightarrow> limiter_step (l, H) (l', H)"
| finish: "k \<in># H \<Longrightarrow> limiter_step (l, H) (Release l k, H - {#k#})"

inductive limiter_reach :: "int \<Rightarrow> limiter_conf \<Rightarrow> bool" for m where
  limiter_start: "limiter_reach m (NewKeyedLimiter m, {#})"
| limiter_next: "limiter_reach m c \<Longrightarrow> limiter_step c c' \<Longrightarrow> limiter_reach m c'"

text \<open>
  The invariant: the map counts exactly the holders, remembers no key without holders, and
  no key has more holders than the maximum.
\<close>

definition limiter_inv :: "int \<Rightarrow> limiter_conf \<Rightarrow> bool" where
  "limiter_inv m c \<longleftrightarrow>
     (case c of (l, H) \<Rightarrow> kl_max l = m \<and>
        (m > 0 \<longrightarrow> (\<forall>k. kl_counts l k = (if k \<in># H then Some (int (count H k)) else None)
                        \<and> int (count H k) \<le> m)))"

lemma limiter_inv_start: "limiter_inv m (NewKeyedLimiter m, {#})"
  by (simp add: limiter_inv_def NewKeyedLimiter_def)

lemma limiter_get0:
  "limiter_inv m (l, H) \<Longrightarrow> m > 0 \<Longrightarrow> get0 (kl_counts l) k = int (count H k)"
  by (auto simp: limiter_inv_def get0_def count_eq_zero_iff)

lemma limiter_step_inv: "limiter_step c c' \<Longrightarrow> limiter_inv m c \<Longrightarrow> limiter_inv m c'"
proof (induction rule: limiter_step.induct)
  case (admit l k l' H)
  then show ?case
    using limiter_get0 [OF admit.prems, of k]
    by (auto simp: limiter_inv_def TryAcquire_def split: if_splits)
next
  case (refuse l k l' H)
  then show ?case by (auto simp: limiter_inv_def TryAcquire_def split: if_splits)
next
  case (finish k H l)
  show ?case
  proof (cases "m > 0")
    case True
    with finish have c: "count H k \<ge> 1" "int (count H k) \<le> m" "get0 (kl_counts l) k = int (count H k)"
      by (auto simp: limiter_inv_def get0_def)
    with True finish show ?thesis
      by (auto simp: limiter_inv_def Release_def Let_def in_diff_count count_eq_zero_iff
          intro: order.trans [of _ "int (count H k)"])
  next
    case False
    with finish show ?thesis by (simp add: limiter_inv_def Release_def)
  qed
qed

lemma limiter_reach_inv: "limiter_reach m c \<Longrightarrow> limiter_inv m c"
  by (induction rule: limiter_reach.induct) (auto intro: limiter_inv_start limiter_step_inv)

text \<open>
  Claim C32. Whatever the interleaving of requests, a limiter with a positive maximum admits a
  request for a key exactly when fewer than the maximum are in progress for that key, so never
  more than the maximum are, and its map remembers exactly the keys with requests in progress.
\<close>

theorem limiter_admission:
  assumes "limiter_reach m (l, H)" and "m > 0"
  shows "(fst (TryAcquire l k) \<longleftrightarrow> int (count H k) < m) \<and> int (count H k) \<le> m
         \<and> dom (kl_counts l) = set_mset H"
proof -
  have inv: "limiter_inv m (l, H)" using assms(1) by (rule limiter_reach_inv)
  show ?thesis
    using limiter_get0 [OF inv assms(2), of k] inv assms(2)
    by (auto simp: limiter_inv_def TryAcquire_def split: if_splits)
qed

lemma limiter_reach_example:
  "limiter_reach 2 (snd (TryAcquire (NewKeyedLimiter 2) ''t1''), {#''t1''#})"
  by (rule limiter_next [OF limiter_start])
    (rule limiter_step.admit, simp add: TryAcquire_def NewKeyedLimiter_def)

theorem limiter_admission_witness:
  "fst (TryAcquire (snd (TryAcquire (NewKeyedLimiter 2) ''t1'')) ''t1'')
   \<and> dom (kl_counts (snd (TryAcquire (NewKeyedLimiter 2) ''t1''))) = {''t1''}"
  using limiter_admission [OF limiter_reach_example, of "''t1''"] by simp

end
