(* ===== verification/Auth.thy ===== *)
theory Auth
  imports Http Key_Cache Limits
begin

text \<open>
  Who may call what: \<open>internal/api/middleware_auth.go\<close>, \<open>internal/api/middleware_limits.go\<close>,
  \<open>internal/probes\<close> and the minting of API keys in \<open>internal/api/handlers_tenants.go\<close>. SHA-256 in hex
  is the parameter \<open>hash\<close>; the randomness of a new key is an argument.
\<close>

datatype authRole = roleAdmin | roleProvisioner | roleScaler | roleTenant

record authIdentity =
  ai_Role :: authRole
  ai_TenantID :: string

text \<open>What the handlers read of a request; \<open>rq_traceparent\<close> and \<open>rq_auth\<close> are the trace and the identity in its
  context.\<close>

record request =
  rq_method :: string
  rq_path :: string
  rq_rawQuery :: string
  rq_traceparent :: string
  rq_apiKey :: string
  rq_tenantIDs :: "string list"
  rq_auth :: "authIdentity option"

section \<open>Paths\<close>

definition isGetOrHead :: "string \<Rightarrow> bool" where
  "isGetOrHead m \<longleftrightarrow> m = ''GET'' \<or> m = ''HEAD''"

definition publicPaths :: "string list" where
  "publicPaths = [''/healthz'', ''/metrics'']"

definition Public :: "request \<Rightarrow> bool" where
  "Public r \<longleftrightarrow> rq_path r \<in> set publicPaths \<and> isGetOrHead (rq_method r)"

definition rejectOtherMethods :: "request \<Rightarrow> response option" where
  "rejectOtherMethods r =
     (if rq_path r \<in> set publicPaths \<and> \<not> isGetOrHead (rq_method r)
      then Some ((writeHeader 405)\<lparr>rs_body := RelayedBody (''Method Not Allowed'' @ [CHR 0x0A])\<rparr>) else None)"

text \<open>\<open>path.Match\<close> on patterns of literal characters and \<open>*\<close>, which matches within one segment.\<close>

fun pathMatch :: "string \<Rightarrow> string \<Rightarrow> bool" where
  "pathMatch [] s = (s = [])"
| "pathMatch (c # p) [] = (c = CHR ''*'' \<and> pathMatch p [])"
| "pathMatch (c # p) (x # s) =
     (if c = CHR ''*'' then pathMatch p (x # s) \<or> x \<noteq> CHR ''/'' \<and> pathMatch (c # p) s
      else c = x \<and> pathMatch p s)"

definition scalerMayCall :: "string \<Rightarrow> bool" where
  "scalerMayCall urlPath \<longleftrightarrow>
     list_ex (\<lambda>pattern. pathMatch pattern urlPath) [''/admin/runners'', ''/admin/runners/*/cordon'']"

definition provisionerPathPrefix :: string where
  "provisionerPathPrefix = ''/admin/tenants''"

section \<open>API keys\<close>

definition apiKeyPrefix :: "string \<Rightarrow> string" where
  "apiKeyPrefix plaintext =
     (if length plaintext \<ge> 12 \<and> take 4 plaintext = ''sbk_'' then take 8 (drop 4 plaintext)
      else if length plaintext \<ge> 8 then take 8 plaintext
      else plaintext)"

definition hexDigit :: "nat \<Rightarrow> char" where
  "hexDigit n = ''0123456789abcdef'' ! n"

definition hexEncode :: "8 word list \<Rightarrow> string" where
  "hexEncode bs = concat (map (\<lambda>b. [hexDigit (unat b div 16), hexDigit (unat b mod 16)]) bs)"

text \<open>The random values of a new key: 4 and 24 bytes, its id, and the clock.\<close>

record key_entropy =
  ke_prefix :: "8 word list"
  ke_secret :: "8 word list"
  ke_uuid :: string
  ke_now :: unix_time

definition key_plaintext :: "key_entropy \<Rightarrow> string" where
  "key_plaintext x = ''sbk_'' @ hexEncode (ke_prefix x) @ ''_'' @ hexEncode (ke_secret x)"

definition newAPIKey :: "(string \<Rightarrow> string) \<Rightarrow> key_entropy option \<Rightarrow> string \<Rightarrow> (APIKey \<times> string) option" where
  "newAPIKey hash xo tenantID =
     (case xo of
        None \<Rightarrow> None
      | Some x \<Rightarrow>
          Some (\<lparr>ak_ID = ke_uuid x, ak_TenantID = tenantID, ak_KeyHash = hash (key_plaintext x),
                 ak_Prefix = hexEncode (ke_prefix x), ak_CreatedAt = ke_now x, ak_RevokedAt = 0\<rparr>,
                key_plaintext x))"

definition lookupTenantKey :: "fault \<Rightarrow> db \<Rightarrow> string \<Rightarrow> string \<Rightarrow> store_error + string" where
  "lookupTenantKey f s key keyHash =
     (case ListActiveAPIKeysByPrefix f (apiKeyPrefix key) s of
        Inl e \<Rightarrow> Inl e
      | Inr candidates \<Rightarrow>
          (case List.find (\<lambda>c. ak_KeyHash c = keyHash) candidates of
             Some c \<Rightarrow> Inr (ak_TenantID c)
           | None \<Rightarrow> Inr []))"

section \<open>The middleware\<close>

definition constantTimeContains :: "string list \<Rightarrow> string \<Rightarrow> bool" where
  "constantTimeContains allowed key = list_ex (\<lambda>k. k = key) allowed"

record auth_keys =
  am_adminKeys :: "string list"
  am_provisionerKeys :: "string list"
  am_scalerKeys :: "string list"
  am_hash :: "string \<Rightarrow> string"

definition with_identity :: "authRole \<Rightarrow> string \<Rightarrow> request \<Rightarrow> request" where
  "with_identity role t r = r\<lparr>rq_auth := Some \<lparr>ai_Role = role, ai_TenantID = t\<rparr>\<rparr>"

text \<open>The answer, or the request as the next handler gets it; and the key cache afterwards.\<close>

definition AuthMiddleware :: "auth_keys \<Rightarrow> lookup_env \<Rightarrow> fault \<Rightarrow> db \<Rightarrow> apiKeyCache option \<Rightarrow> request \<Rightarrow>
    (response + request) \<times> apiKeyCache option" where
  "AuthMiddleware k x f s keyCache r =
     (if Public r then (Inr r, keyCache)
      else let key = rq_apiKey r in
        if key = [] then (Inl (writeError 401 ''missing X-Api-Key header''), keyCache)
        else if constantTimeContains (am_adminKeys k) key then (Inr (with_identity roleAdmin [] r), keyCache)
        else if constantTimeContains (am_provisionerKeys k) key then
          (if \<not> hasPrefix (rq_path r) provisionerPathPrefix
           then (Inl (writeError 403 ''provisioner API key may only manage tenants''), keyCache)
           else (Inr (with_identity roleProvisioner [] r), keyCache))
        else if constantTimeContains (am_scalerKeys k) key then
          (if \<not> scalerMayCall (rq_path r)
           then (Inl (writeError 403 ''scaler API key may only list and cordon runners''), keyCache)
           else (Inr (with_identity roleScaler [] r), keyCache))
        else let keyHash = am_hash k key in
          (case lookup x keyHash (lookupTenantKey f s key keyHash) keyCache of
             (Inl _, c') \<Rightarrow> (Inl (writeError 500 ''auth lookup failed''), c')
           | (Inr t, c') \<Rightarrow>
               if t \<noteq> [] then (Inr (with_identity roleTenant t r), c')
               else (Inl (writeError 401 ''invalid API key''), c')))"

definition requireAdmin :: "request \<Rightarrow> response option" where
  "requireAdmin r =
     (case rq_auth r of
        Some i \<Rightarrow> if ai_Role i \<noteq> roleAdmin then Some (writeError 403 ''admin API key required'') else None
      | None \<Rightarrow> Some (writeError 403 ''admin API key required''))"

definition requireAdminOrProvisioner :: "request \<Rightarrow> response + authRole" where
  "requireAdminOrProvisioner r =
     (case rq_auth r of
        Some i \<Rightarrow> if ai_Role i \<noteq> roleAdmin \<and> ai_Role i \<noteq> roleProvisioner
                   then Inl (writeError 403 ''admin or provisioner API key required'') else Inr (ai_Role i)
      | None \<Rightarrow> Inl (writeError 403 ''admin or provisioner API key required''))"

definition requireAdminOrScaler :: "request \<Rightarrow> response option" where
  "requireAdminOrScaler r =
     (case rq_auth r of
        Some i \<Rightarrow> if ai_Role i \<noteq> roleAdmin \<and> ai_Role i \<noteq> roleScaler
                   then Some (writeError 403 ''admin or scaler API key required'') else None
      | None \<Rightarrow> Some (writeError 403 ''admin or scaler API key required''))"

definition canAccessSandbox :: "request \<Rightarrow> SandboxRecord \<Rightarrow> bool" where
  "canAccessSandbox r rec =
     (case rq_auth r of
        None \<Rightarrow> False
      | Some i \<Rightarrow>
          if ai_Role i = roleAdmin then True
          else ai_Role i = roleTenant \<and> \<not> IsAdminTenantID (sb_TenantID rec) \<and> sb_TenantID rec = ai_TenantID i)"

section \<open>The per-tenant request limit\<close>

definition reasonTenantRequestLimit :: string where "reasonTenantRequestLimit = ''tenant_request_limit''"
definition limitRetryAfter :: string where "limitRetryAfter = ''1''"
definition maxExecutionDeletesPerTenant :: int where "maxExecutionDeletesPerTenant = 16"

text \<open>
  The wrapped handler is a state transformer; \<open>get_l\<close> and \<open>set_l\<close> reach the limiter in the state,
  which the handler may see change while it runs.
\<close>

definition tenantLimit :: "('s \<Rightarrow> KeyedLimiter) \<Rightarrow> (KeyedLimiter \<Rightarrow> 's \<Rightarrow> 's) \<Rightarrow> (request \<Rightarrow> 's \<Rightarrow> response \<times> 's) \<Rightarrow>
    request \<Rightarrow> 's \<Rightarrow> response \<times> 's" where
  "tenantLimit get_l set_l handler r s =
     (case rq_auth r of
        None \<Rightarrow> handler r s
      | Some i \<Rightarrow>
          if ai_Role i \<noteq> roleTenant then handler r s
          else (case TryAcquire (get_l s) (ai_TenantID i) of
                  (False, l) \<Rightarrow>
                    ((writeErrorReason 429 ''too many requests in progress for this tenant'' reasonTenantRequestLimit)
                       \<lparr>rs_retryAfter := Some limitRetryAfter\<rparr>, set_l l s)
                | (True, l) \<Rightarrow>
                    (case handler r (set_l l s) of
                       (resp, s') \<Rightarrow> (resp, set_l (Release (get_l s') (ai_TenantID i)) s'))))"

section \<open>Lemmas\<close>

lemma pathMatch_prefix:
  "CHR ''*'' \<notin> set p \<Longrightarrow> pathMatch (p @ q) s \<longleftrightarrow> (\<exists>t. s = p @ t \<and> pathMatch q t)"
proof (induction p arbitrary: s)
  case (Cons c p)
  then show ?case by (cases s) auto
qed simp

lemma pathMatch_literal: "CHR ''*'' \<notin> set p \<Longrightarrow> pathMatch p s \<longleftrightarrow> s = p"
  using pathMatch_prefix [of p "[]" s] by simp

lemma pathMatch_star:
  assumes "CHR ''*'' \<notin> set q"
  shows "pathMatch (CHR ''*'' # q) s \<longleftrightarrow> (\<exists>seg. CHR ''/'' \<notin> set seg \<and> s = seg @ q)"
proof (induction s)
  case Nil
  then show ?case using assms by (auto simp: pathMatch_literal)
next
  case (Cons x s)
  have "(\<exists>seg. CHR ''/'' \<notin> set seg \<and> x # s = seg @ q) \<longleftrightarrow>
      x # s = q \<or> x \<noteq> CHR ''/'' \<and> (\<exists>seg. CHR ''/'' \<notin> set seg \<and> s = seg @ q)"
  proof
    assume "\<exists>seg. CHR ''/'' \<notin> set seg \<and> x # s = seg @ q"
    then obtain seg where "CHR ''/'' \<notin> set seg" "x # s = seg @ q" by blast
    then show "x # s = q \<or> x \<noteq> CHR ''/'' \<and> (\<exists>seg. CHR ''/'' \<notin> set seg \<and> s = seg @ q)"
      by (cases seg) auto
  next
    assume "x # s = q \<or> x \<noteq> CHR ''/'' \<and> (\<exists>seg. CHR ''/'' \<notin> set seg \<and> s = seg @ q)"
    then show "\<exists>seg. CHR ''/'' \<notin> set seg \<and> x # s = seg @ q"
      by (metis append_Cons append_Nil empty_iff empty_set set_ConsD)
  qed
  with Cons assms show ?case by (simp add: pathMatch_literal)
qed

text \<open>The paths open to a scaler key: the list of runners, and the cordon of one runner.\<close>

definition scaler_path :: "string \<Rightarrow> bool" where
  "scaler_path p \<longleftrightarrow> p = ''/admin/runners'' \<or>
     (\<exists>seg. CHR ''/'' \<notin> set seg \<and> p = ''/admin/runners/'' @ seg @ ''/cordon'')"

lemma scalerMayCall_iff: "scalerMayCall p \<longleftrightarrow> scaler_path p"
proof -
  have "pathMatch ''/admin/runners'' p \<longleftrightarrow> p = ''/admin/runners''" by (rule pathMatch_literal) simp
  moreover have "pathMatch (''/admin/runners/'' @ CHR ''*'' # ''/cordon'') p \<longleftrightarrow>
      (\<exists>t. p = ''/admin/runners/'' @ t \<and> pathMatch (CHR ''*'' # ''/cordon'') t)"
    by (rule pathMatch_prefix) simp
  moreover have "pathMatch (CHR ''*'' # ''/cordon'') t \<longleftrightarrow> (\<exists>seg. CHR ''/'' \<notin> set seg \<and> t = seg @ ''/cordon'')" for t
    by (rule pathMatch_star) simp
  ultimately show ?thesis by (auto simp: scalerMayCall_def scaler_path_def)
qed

lemma constantTimeContains_iff [simp]: "constantTimeContains ks k \<longleftrightarrow> k \<in> set ks"
  by (auto simp: constantTimeContains_def list_ex_iff)

definition active_key :: "db \<Rightarrow> string \<Rightarrow> string \<Rightarrow> string \<Rightarrow> bool" where
  "active_key s keyHash pre t \<longleftrightarrow> (\<exists>k \<in> set (db_keys s). kr_KeyHash k = keyHash \<and> kr_Prefix k = pre \<and>
     kr_RevokedAt k = None \<and> kr_TenantID k = t)"

lemma find_SomeD: "List.find P xs = Some x \<Longrightarrow> x \<in> set xs \<and> P x"
  by (induction xs) (auto split: if_splits)

lemma lookupTenantKey_sound:
  assumes "lookupTenantKey f s key keyHash = Inr t" and "t \<noteq> []"
  shows "active_key s keyHash (apiKeyPrefix key) t"
proof -
  obtain cs c where "ListActiveAPIKeysByPrefix f (apiKeyPrefix key) s = Inr cs"
    and c: "List.find (\<lambda>c. ak_KeyHash c = keyHash) cs = Some c" "t = ak_TenantID c"
    using assms by (auto simp: lookupTenantKey_def split: sum.splits option.splits)
  then have "c \<in> scanAPIKey ` {k \<in> set (db_keys s). kr_Prefix k = apiKeyPrefix key \<and> kr_RevokedAt k = None}"
    by (auto simp: ListActiveAPIKeysByPrefix_def dest!: run_read_InrD find_SomeD)
  then obtain k where "k \<in> set (db_keys s)" "kr_Prefix k = apiKeyPrefix key" "kr_RevokedAt k = None" "c = scanAPIKey k"
    by blast
  with c find_SomeD [OF c(1)] show ?thesis by (auto simp: active_key_def scanAPIKey_def)
qed

text \<open>What the lookup answers was just read from the store or is what the cache had.\<close>

lemma lookup_source:
  assumes "lookup x h load co = (Inr t, co')"
  shows "load = Inr t \<or> (\<exists>c e. co = Some c \<and> map_of (kc_byKeyHash c) h = Some e \<and> le_now x < ce_expires e \<and> t = ce_tenantID e)"
  using assms by (auto simp: lookup_def lookup_begin_def split: option.splits sum.splits if_splits)

section \<open>Claims\<close>

text \<open>
  Claim C20. An identity is only ever what the key says: an admin or provisioner or scaler identity
  needs a key of that configured set (admin first), a provisioner only reaches tenant paths and
  a scaler only the runner list and one runner's cordon; a tenant identity needs an active key of
  that tenant with the right hash and prefix, in the store or in an unexpired cache entry.
\<close>

theorem identity_from_key:
  assumes "AuthMiddleware k x f s c r = (Inr r', c')" and "\<not> Public r" and "rq_auth r' = Some i"
  shows "rq_apiKey r \<noteq> [] \<and>
    (case ai_Role i of
       roleAdmin \<Rightarrow> rq_apiKey r \<in> set (am_adminKeys k)
     | roleProvisioner \<Rightarrow> rq_apiKey r \<in> set (am_provisionerKeys k) - set (am_adminKeys k) \<and>
         hasPrefix (rq_path r) ''/admin/tenants''
     | roleScaler \<Rightarrow> rq_apiKey r \<in> set (am_scalerKeys k) - set (am_adminKeys k) - set (am_provisionerKeys k) \<and>
         scaler_path (rq_path r)
     | roleTenant \<Rightarrow> ai_TenantID i \<noteq> [] \<and>
         (active_key s (am_hash k (rq_apiKey r)) (apiKeyPrefix (rq_apiKey r)) (ai_TenantID i) \<or>
          (\<exists>cache e. c = Some cache \<and> map_of (kc_byKeyHash cache) (am_hash k (rq_apiKey r)) = Some e \<and>
             le_now x < ce_expires e \<and> ce_tenantID e = ai_TenantID i)))"
proof (cases "ai_Role i = roleTenant")
  case True
  then obtain co' where "lookup x (am_hash k (rq_apiKey r)) (lookupTenantKey f s (rq_apiKey r) (am_hash k (rq_apiKey r))) c =
      (Inr (ai_TenantID i), co')" and t: "ai_TenantID i \<noteq> []" "rq_apiKey r \<noteq> []"
    using assms by (auto simp: AuthMiddleware_def Let_def with_identity_def split: if_splits prod.splits sum.splits)
  from lookup_source [OF this(1)] lookupTenantKey_sound [of f s "rq_apiKey r"] t True show ?thesis by auto
next
  case False
  then show ?thesis
    using assms
    by (auto simp: AuthMiddleware_def Let_def with_identity_def provisionerPathPrefix_def scalerMayCall_iff
        split: if_splits prod.splits sum.splits)
qed

definition example_keys :: auth_keys where
  "example_keys = \<lparr>am_adminKeys = [''root''], am_provisionerKeys = [''prov''], am_scalerKeys = [''scale''], am_hash = (\<lambda>k. k)\<rparr>"

definition example_request :: "string \<Rightarrow> string \<Rightarrow> string \<Rightarrow> request" where
  "example_request m p key = \<lparr>rq_method = m, rq_path = p, rq_rawQuery = [], rq_traceparent = [], rq_apiKey = key, rq_tenantIDs = [], rq_auth = None\<rparr>"

definition example_lookup :: lookup_env where
  "example_lookup = \<lparr>le_now = 0, le_started = 0, le_stored = 0, le_others = (\<lambda>c. c)\<rparr>"

theorem identity_from_key_witness:
  "AuthMiddleware example_keys example_lookup NoFault example_db None (example_request ''GET'' ''/admin/runners'' ''scale'') =
     (Inr ((example_request ''GET'' ''/admin/runners'' ''scale'')\<lparr>rq_auth := Some \<lparr>ai_Role = roleScaler, ai_TenantID = []\<rparr>\<rparr>), None) \<and>
   scaler_path ''/admin/runners''"
proof -
  have run: "AuthMiddleware example_keys example_lookup NoFault example_db None (example_request ''GET'' ''/admin/runners'' ''scale'') =
     (Inr ((example_request ''GET'' ''/admin/runners'' ''scale'')\<lparr>rq_auth := Some \<lparr>ai_Role = roleScaler, ai_TenantID = []\<rparr>\<rparr>), None)"
    by (simp add: AuthMiddleware_def example_keys_def example_request_def Public_def publicPaths_def with_identity_def
        constantTimeContains_def scalerMayCall_def)
  with identity_from_key [OF run] show ?thesis
    by (simp add: example_request_def Public_def publicPaths_def)
qed

section \<open>Minting and revoking a key\<close>

lemma length_hexEncode: "length (hexEncode bs) = 2 * length bs"
  by (induction bs) (auto simp: hexEncode_def)

lemma apiKeyPrefix_minted:
  assumes "length (ke_prefix x) = 4"
  shows "apiKeyPrefix (key_plaintext x) = hexEncode (ke_prefix x)"
  using assms length_hexEncode [of "ke_prefix x"] by (simp add: apiKeyPrefix_def key_plaintext_def)

lemma find_append_new:
  "(\<And>y. y \<in> set xs \<Longrightarrow> \<not> P y) \<Longrightarrow> P x \<Longrightarrow> List.find P (xs @ [x]) = Some x"
  by (induction xs) auto

lemma CreateAPIKey_ok: "CreateAPIKey f k s = (None, s') \<Longrightarrow>
    ak_ID k \<notin> kr_ID ` set (db_keys s) \<and> s' = s\<lparr>db_keys := db_keys s @ [key_row k]\<rparr>"
  by (auto simp: CreateAPIKey_def insertKey_def split: if_splits dest!: run_write_NoneD)

text \<open>
  Claim C21. A minted key works until it is revoked: after the key is stored, looking up its
  plaintext finds its tenant by prefix and hash; after it is revoked the lookup finds no tenant.
  (No other stored key has the same hash.)
\<close>

theorem minted_key_until_revoked:
  assumes "length (ke_prefix x) = 4" and "newAPIKey hash (Some x) t = Some (k, plaintext)"
    and "CreateAPIKey f k s = (None, s1)" and "RevokeAPIKey g now (ak_ID k) s1 = (None, s2)"
    and "\<forall>row \<in> set (db_keys s). kr_KeyHash row \<noteq> hash plaintext"
  shows "lookupTenantKey NoFault s1 plaintext (hash plaintext) = Inr t \<and>
    lookupTenantKey NoFault s2 plaintext (hash plaintext) = Inr []"
proof -
  let ?p = "apiKeyPrefix plaintext"
  have k: "plaintext = key_plaintext x" "ak_KeyHash k = hash plaintext" "ak_Prefix k = ?p" "ak_TenantID k = t"
    "ak_RevokedAt k = 0"
    using assms(2) apiKeyPrefix_minted [OF assms(1)] by (auto simp: newAPIKey_def)
  note s1 = CreateAPIKey_ok [OF assms(3)]
  have old: "ak_KeyHash (scanAPIKey row) \<noteq> hash plaintext" if "row \<in> set (db_keys s)" for row
    using assms(5) that by (simp add: scanAPIKey_def)
  have "List.find (\<lambda>c. ak_KeyHash c = hash plaintext)
      (map scanAPIKey (filter (\<lambda>r. kr_Prefix r = ?p \<and> kr_RevokedAt r = None) (db_keys s)) @ [scanAPIKey (key_row k)]) =
      Some (scanAPIKey (key_row k))"
    by (rule find_append_new) (use old k in \<open>auto simp: scanAPIKey_def key_row_def\<close>)
  then have one: "lookupTenantKey NoFault s1 plaintext (hash plaintext) = Inr t"
    using s1 k by (simp add: lookupTenantKey_def ListActiveAPIKeysByPrefix_def key_row_def scanAPIKey_def)
  have s2: "s2 = s1\<lparr>db_keys := update_rows (\<lambda>r. kr_ID r = ak_ID k \<and> kr_RevokedAt r = None)
      (kr_RevokedAt_update (\<lambda>_. Some now)) (db_keys s1)\<rparr>"
    using assms(4) by (auto simp: RevokeAPIKey_def dest!: run_write_NoneD)
  have "kr_KeyHash row \<noteq> hash plaintext" if "row \<in> set (db_keys s2)" "kr_RevokedAt row = None" for row
    using that s1 s2 assms(5) by (auto simp: update_rows_def key_row_def split: if_splits)
  then have "List.find (\<lambda>c. ak_KeyHash c = hash plaintext)
      (map scanAPIKey (filter (\<lambda>r. kr_Prefix r = ?p \<and> kr_RevokedAt r = None) (db_keys s2))) = None"
    by (auto simp: find_None_iff scanAPIKey_def)
  with one show ?thesis by (simp add: lookupTenantKey_def ListActiveAPIKeysByPrefix_def)
qed

definition example_entropy :: key_entropy where
  "example_entropy = \<lparr>ke_prefix = [1, 2, 3, 255], ke_secret = [], ke_uuid = ''k1'', ke_now = 7\<rparr>"

theorem minted_key_until_revoked_witness:
  "\<exists>k plaintext s1. newAPIKey (\<lambda>p. p) (Some example_entropy) ''t1'' = Some (k, plaintext) \<and>
     plaintext = ''sbk_010203ff_'' \<and> CreateAPIKey NoFault k example_db = (None, s1) \<and>
     lookupTenantKey NoFault s1 plaintext plaintext = Inr ''t1''"
proof -
  obtain k plaintext where new: "newAPIKey (\<lambda>p. p) (Some example_entropy) ''t1'' = Some (k, plaintext)"
    by (simp add: newAPIKey_def)
  then have k: "ak_TenantID k = ''t1''" "plaintext = ''sbk_010203ff_''"
    by (auto simp: newAPIKey_def key_plaintext_def example_entropy_def hexEncode_def hexDigit_def)
  let ?s1 = "example_db\<lparr>db_keys := [key_row k]\<rparr>"
  have create: "CreateAPIKey NoFault k example_db = (None, ?s1)"
    using k by (simp add: CreateAPIKey_def insertKey_def example_db_def example_tenant_def run_write_def)
  obtain s2 where "RevokeAPIKey NoFault 8 (ak_ID k) ?s1 = (None, s2)" by (simp add: RevokeAPIKey_def run_write_def)
  from minted_key_until_revoked [OF _ new create this] new create k show ?thesis
    by (auto simp: example_entropy_def example_db_def)
qed

text \<open>
  A tenant's request either gets the 429 and changes nothing, or runs its handler with a
  slot taken; when the handler's own requests leave the other counts alone, afterwards every
  tenant holds exactly the slots it held before.
\<close>

theorem tenant_limit_brackets:
  assumes "rq_auth r = Some i" and "ai_Role i = roleTenant"
    and lens: "\<And>l s. get_l (set_l l s) = l" "\<And>s. set_l (get_l s) s = s"
    and handler: "\<And>s. kl_max (get_l (snd (handler r s))) = kl_max (get_l s) \<and>
      in_progress (get_l (snd (handler r s))) = in_progress (get_l s)"
  shows "(rs_code (fst (tenantLimit get_l set_l handler r s)) = 429 \<and> snd (tenantLimit get_l set_l handler r s) = s) \<or>
    (\<exists>l. TryAcquire (get_l s) (ai_TenantID i) = (True, l) \<and>
       fst (tenantLimit get_l set_l handler r s) = fst (handler r (set_l l s)) \<and>
       in_progress (get_l (snd (tenantLimit get_l set_l handler r s))) = in_progress (get_l s))"
proof (cases "TryAcquire (get_l s) (ai_TenantID i)")
  case (Pair ok l)
  show ?thesis
  proof (cases ok)
    case True
    obtain resp s' where h: "handler r (set_l l s) = (resp, s')" by (cases "handler r (set_l l s)")
    have "kl_max (get_l s') = kl_max l" "in_progress (get_l s') = in_progress l"
      using handler [of "set_l l s"] lens h by simp_all
    with limiter.bracket_restores [of "get_l s" "ai_TenantID i" l "get_l s'"] Pair True
    have "in_progress (Release (get_l s') (ai_TenantID i)) = in_progress (get_l s)" by simp
    with Pair True assms(1,2) h lens show ?thesis by (simp add: tenantLimit_def)
  next
    case False
    with Pair have "l = get_l s" using limiter.refused_same [of "get_l s" "ai_TenantID i" l] by simp
    with Pair False assms(1,2) lens show ?thesis by (simp add: tenantLimit_def)
  qed
qed

theorem tenant_limit_brackets_witness:
  "rs_code (fst (tenantLimit (\<lambda>s. s) (\<lambda>l _. l) (\<lambda>r s. (writeHeader 200, s))
     \<lparr>rq_method = ''GET'', rq_path = ''/x'', rq_rawQuery = [], rq_traceparent = [], rq_apiKey = ''k'', rq_tenantIDs = [], rq_auth = Some \<lparr>ai_Role = roleTenant, ai_TenantID = ''t''\<rparr>\<rparr>
     (NewKeyedLimiter 1))) = 200"
proof -
  let ?r = "\<lparr>rq_method = ''GET'', rq_path = ''/x'', rq_rawQuery = [], rq_traceparent = [], rq_apiKey = ''k'', rq_tenantIDs = [], rq_auth = Some \<lparr>ai_Role = roleTenant, ai_TenantID = ''t''\<rparr>\<rparr>"
  have "fst (TryAcquire (NewKeyedLimiter 1) ''t'')" by (simp add: TryAcquire_def NewKeyedLimiter_def)
  then show ?thesis
    using tenant_limit_brackets [of ?r "\<lparr>ai_Role = roleTenant, ai_TenantID = ''t''\<rparr>" "\<lambda>s. s" "\<lambda>l _. l"
        "\<lambda>r s. (writeHeader 200, s)" "NewKeyedLimiter 1"]
    by (auto simp: tenantLimit_def split: prod.splits bool.splits)
qed

end
