(* ===== verification/Tenant_Quota.thy ===== *)
theory Tenant_Quota
  imports Sandbox_Store
begin

text \<open>
  The check of a tenant's sandbox limit before a create reaches a runner,
  \<open>internal/api/tenant_quota.go\<close>. The per-tenant counters are shared by pointer: \<open>reserve\<close> and the
  release function it returns keep the pointer while the entry may be dropped from the map. They
  therefore live in an explicit store of cells, and the map holds addresses. Each function is
  split where the mutex is released; \<open>quota_step\<close> interleaves these pieces over any number of
  requests.
\<close>

record tenantCreates =
  tc_inProgress :: int
  tc_saved :: int
  tc_reading :: int

record tenantQuota =
  tq_tenants :: "string \<rightharpoonup> nat"
  tq_cells :: "nat \<Rightarrow> tenantCreates"
  tq_next :: nat

definition newCreates :: tenantCreates where
  "newCreates = \<lparr>tc_inProgress = 0, tc_saved = 0, tc_reading = 0\<rparr>"

definition newTenantQuota :: tenantQuota where
  "newTenantQuota = \<lparr>tq_tenants = Map.empty, tq_cells = (\<lambda>_. newCreates), tq_next = 0\<rparr>"

definition upd_cell :: "nat \<Rightarrow> (tenantCreates \<Rightarrow> tenantCreates) \<Rightarrow> tenantQuota \<Rightarrow> tenantQuota" where
  "upd_cell a f q = q\<lparr>tq_cells := (tq_cells q)(a := f (tq_cells q a))\<rparr>"

definition forgetIfIdle :: "string \<Rightarrow> nat \<Rightarrow> tenantQuota \<Rightarrow> tenantQuota" where
  "forgetIfIdle t a q =
     (if tc_inProgress (tq_cells q a) = 0 \<and> tc_reading (tq_cells q a) = 0
      then q\<lparr>tq_tenants := (tq_tenants q)(t := None)\<rparr> else q)"

text \<open>From the first lock of \<open>reserve\<close> to the first read of the count: the entry and its address.\<close>

definition entry_of :: "string \<Rightarrow> tenantQuota \<Rightarrow> nat \<times> tenantQuota" where
  "entry_of t q =
     (case tq_tenants q t of
        Some a \<Rightarrow> (a, q)
      | None \<Rightarrow> (tq_next q, q\<lparr>tq_tenants := (tq_tenants q)(t \<mapsto> tq_next q),
                             tq_cells := (tq_cells q)(tq_next q := newCreates),
                             tq_next := Suc (tq_next q)\<rparr>))"

definition reserve_enter :: "string \<Rightarrow> tenantQuota \<Rightarrow> nat \<times> tenantQuota" where
  "reserve_enter t q =
     (case entry_of t q of (a, q') \<Rightarrow> (a, upd_cell a (\<lambda>e. e\<lparr>tc_reading := tc_reading e + 1\<rparr>) q'))"

text \<open>The deferred function of \<open>reserve\<close>, run under the lock when it returns.\<close>

definition reserve_leave :: "string \<Rightarrow> nat \<Rightarrow> tenantQuota \<Rightarrow> tenantQuota" where
  "reserve_leave t a q =
     forgetIfIdle t a (upd_cell a (\<lambda>e. e\<lparr>tc_reading := tc_reading e - 1\<rparr>) q)"

definition maxReads :: nat where "maxReads = 3"

datatype verdict = Granted | Full | ReadAgain

text \<open>From the return of a read to the next unlock: one turn of the loop of \<open>reserve\<close>.\<close>

definition reserve_decide :: "int \<Rightarrow> nat \<Rightarrow> int \<Rightarrow> nat \<Rightarrow> int \<Rightarrow> tenantQuota \<Rightarrow> verdict \<times> tenantQuota" where
  "reserve_decide limit a savedBefore read n q =
     (let e = tq_cells q a; savedDuring = tc_saved e - savedBefore in
      if n + tc_inProgress e + savedDuring < limit
      then (Granted, upd_cell a (\<lambda>e. e\<lparr>tc_inProgress := tc_inProgress e + 1\<rparr>) q)
      else if savedDuring = 0 \<or> read = maxReads then (Full, q)
      else (ReadAgain, q))"

text \<open>
  The release function: the once flag, and the slot it gives back unless it is the no-op returned
  for an unlimited tenant.
\<close>

record release_handle =
  rh_slot :: "(string \<times> nat) option"
  rh_done :: bool

definition release_slot :: "string \<Rightarrow> nat \<Rightarrow> bool \<Rightarrow> tenantQuota \<Rightarrow> tenantQuota" where
  "release_slot t a saved q =
     forgetIfIdle t a
       (upd_cell a (\<lambda>e. e\<lparr>tc_inProgress := tc_inProgress e - 1,
                          tc_saved := (if saved then tc_saved e + 1 else tc_saved e)\<rparr>) q)"

definition release :: "release_handle \<Rightarrow> bool \<Rightarrow> tenantQuota \<Rightarrow> release_handle \<times> tenantQuota" where
  "release h saved q =
     (case rh_slot h of
        None \<Rightarrow> (h, q)
      | Some (t, a) \<Rightarrow>
          if rh_done h then (h, q) else (h\<lparr>rh_done := True\<rparr>, release_slot t a saved q))"

text \<open>
  The whole of \<open>reserve\<close> as one request sees it. \<open>cnt k\<close> is the answer of read \<open>k\<close> and
  \<open>others k\<close> what the other requests did to the counters while the lock was released for it. \<open>reserve_decide\<close>
  does not ask for another read at \<open>maxReads\<close>, so the last test only makes the recursion's end
  explicit.
\<close>

datatype reservation = Reserved release_handle | QuotaFull | CountFailed store_error

function reserve_loop :: "(nat \<Rightarrow> store_error + int) \<Rightarrow> (nat \<Rightarrow> tenantQuota \<Rightarrow> tenantQuota) \<Rightarrow>
    string \<Rightarrow> int \<Rightarrow> nat \<Rightarrow> nat \<Rightarrow> tenantQuota \<Rightarrow> reservation \<times> tenantQuota" where
  "reserve_loop cnt others t limit a read q =
     (let savedBefore = tc_saved (tq_cells q a); q1 = others read q in
      case cnt read of
        Inl e \<Rightarrow> (CountFailed e, reserve_leave t a q1)
      | Inr n \<Rightarrow>
          (case reserve_decide limit a savedBefore read n q1 of
             (Granted, q2) \<Rightarrow> (Reserved \<lparr>rh_slot = Some (t, a), rh_done = False\<rparr>, reserve_leave t a q2)
           | (Full, q2) \<Rightarrow> (QuotaFull, reserve_leave t a q2)
           | (ReadAgain, q2) \<Rightarrow>
               if maxReads \<le> read then (QuotaFull, reserve_leave t a q2)
               else reserve_loop cnt others t limit a (Suc read) q2))"
  by pat_completeness auto
termination
  by (relation "measure (\<lambda>(cnt, others, t, limit, a, read, q). maxReads - read)") auto

declare reserve_loop.simps [simp del]

definition reserve :: "(nat \<Rightarrow> store_error + int) \<Rightarrow> (nat \<Rightarrow> tenantQuota \<Rightarrow> tenantQuota) \<Rightarrow>
    string \<Rightarrow> int \<Rightarrow> tenantQuota \<Rightarrow> reservation \<times> tenantQuota" where
  "reserve cnt others t limit q =
     (if limit \<le> 0 then (Reserved \<lparr>rh_slot = None, rh_done = False\<rparr>, q)
      else case reserve_enter t q of (a, q') \<Rightarrow> reserve_loop cnt others t limit a 1 q')"

section \<open>Requests running together\<close>

text \<open>
  Where one create of a limited tenant stands: reading the count, read (with the number
  it got), holding a slot, or saved but with its release still to come.
\<close>

datatype quota_pc =
    Reading (pc_tenant: string) (pc_addr: nat) (pc_savedBefore: int) (pc_read: nat)
  | Counted (pc_tenant: string) (pc_addr: nat) (pc_savedBefore: int) (pc_read: nat) (pc_count: int)
  | Holding (pc_tenant: string) (pc_addr: nat)
  | SavedRow (pc_tenant: string) (pc_addr: nat)

record quota_state =
  qs_q :: tenantQuota
  qs_rows :: "string \<Rightarrow> int"
  qs_pcs :: "quota_pc multiset"

text \<open>
  \<open>limit\<close> is each tenant's limit. Saving adds a row; a row can go at any time, by a delete or the
  idle sweep.
\<close>

inductive quota_step :: "(string \<Rightarrow> int) \<Rightarrow> quota_state \<Rightarrow> quota_state \<Rightarrow> bool" for limit where
  begin_reserve: "limit t > 0 \<Longrightarrow> reserve_enter t q = (a, q') \<Longrightarrow>
    quota_step limit \<lparr>qs_q = q, qs_rows = rows, qs_pcs = P\<rparr>
      \<lparr>qs_q = q', qs_rows = rows, qs_pcs = add_mset (Reading t a (tc_saved (tq_cells q' a)) 1) P\<rparr>"
| read_count:
    "quota_step limit \<lparr>qs_q = q, qs_rows = rows, qs_pcs = add_mset (Reading t a sb k) P\<rparr>
      \<lparr>qs_q = q, qs_rows = rows, qs_pcs = add_mset (Counted t a sb k (rows t)) P\<rparr>"
| read_fails:
    "quota_step limit \<lparr>qs_q = q, qs_rows = rows, qs_pcs = add_mset (Reading t a sb k) P\<rparr>
      \<lparr>qs_q = reserve_leave t a q, qs_rows = rows, qs_pcs = P\<rparr>"
| granted: "reserve_decide (limit t) a sb k n q = (Granted, q') \<Longrightarrow>
    quota_step limit \<lparr>qs_q = q, qs_rows = rows, qs_pcs = add_mset (Counted t a sb k n) P\<rparr>
      \<lparr>qs_q = reserve_leave t a q', qs_rows = rows, qs_pcs = add_mset (Holding t a) P\<rparr>"
| full: "reserve_decide (limit t) a sb k n q = (Full, q') \<Longrightarrow>
    quota_step limit \<lparr>qs_q = q, qs_rows = rows, qs_pcs = add_mset (Counted t a sb k n) P\<rparr>
      \<lparr>qs_q = reserve_leave t a q', qs_rows = rows, qs_pcs = P\<rparr>"
| again: "reserve_decide (limit t) a sb k n q = (ReadAgain, q') \<Longrightarrow>
    quota_step limit \<lparr>qs_q = q, qs_rows = rows, qs_pcs = add_mset (Counted t a sb k n) P\<rparr>
      \<lparr>qs_q = q', qs_rows = rows, qs_pcs = add_mset (Reading t a (tc_saved (tq_cells q' a)) (Suc k)) P\<rparr>"
| save_row:
    "quota_step limit \<lparr>qs_q = q, qs_rows = rows, qs_pcs = add_mset (Holding t a) P\<rparr>
      \<lparr>qs_q = q, qs_rows = rows(t := rows t + 1), qs_pcs = add_mset (SavedRow t a) P\<rparr>"
| release_saved:
    "quota_step limit \<lparr>qs_q = q, qs_rows = rows, qs_pcs = add_mset (SavedRow t a) P\<rparr>
      \<lparr>qs_q = release_slot t a True q, qs_rows = rows, qs_pcs = P\<rparr>"
| release_unsaved:
    "quota_step limit \<lparr>qs_q = q, qs_rows = rows, qs_pcs = add_mset (Holding t a) P\<rparr>
      \<lparr>qs_q = release_slot t a saved q, qs_rows = rows, qs_pcs = P\<rparr>"
| delete_row: "rows t > 0 \<Longrightarrow>
    quota_step limit \<lparr>qs_q = q, qs_rows = rows, qs_pcs = P\<rparr>
      \<lparr>qs_q = q, qs_rows = rows(t := rows t - 1), qs_pcs = P\<rparr>"

inductive quota_reach :: "(string \<Rightarrow> int) \<Rightarrow> (string \<Rightarrow> int) \<Rightarrow> quota_state \<Rightarrow> bool" for limit rows0 where
  start: "quota_reach limit rows0 \<lparr>qs_q = newTenantQuota, qs_rows = rows0, qs_pcs = {#}\<rparr>"
| step: "quota_reach limit rows0 s \<Longrightarrow> quota_step limit s s' \<Longrightarrow> quota_reach limit rows0 s'"

inductive_cases quota_stepE: "quota_step limit s s'"

section \<open>The invariant\<close>

text \<open>How many of some requests read, hold a slot, or are saved but not released.\<close>

definition n_reading :: "quota_pc multiset \<Rightarrow> int" where
  "n_reading P = int (size {#p \<in># P. is_Reading p \<or> is_Counted p#})"

definition n_holding :: "quota_pc multiset \<Rightarrow> int" where
  "n_holding P = int (size {#p \<in># P. is_Holding p#})"

definition n_saved :: "quota_pc multiset \<Rightarrow> int" where
  "n_saved P = int (size {#p \<in># P. is_SavedRow p#})"

definition pcs_of :: "string \<Rightarrow> quota_pc multiset \<Rightarrow> quota_pc multiset" where
  "pcs_of t P = {#p \<in># P. pc_tenant p = t#}"

definition cell_of :: "tenantQuota \<Rightarrow> string \<Rightarrow> (nat \<times> tenantCreates) option" where
  "cell_of q t = map_option (\<lambda>a. (a, tq_cells q a)) (tq_tenants q t)"

text \<open>
  A reader: no create was saved before it read \<open>saved\<close>, and a count it got is short of \<open>d\<close>, the
  rows less the saved creates that are still counted in progress, by at most the creates that
  were saved since.
\<close>

definition reader_ok :: "int \<Rightarrow> int \<Rightarrow> quota_pc \<Rightarrow> bool" where
  "reader_ok saved d p \<longleftrightarrow>
     (is_Reading p \<or> is_Counted p \<longrightarrow> pc_savedBefore p \<le> saved) \<and>
     (is_Counted p \<longrightarrow> d \<le> pc_count p + (saved - pc_savedBefore p))"

text \<open>
  The state of one tenant: its cell counts exactly its requests, is kept exactly while it has
  requests, all of which share it; and rows and held slots together are within the limit.
\<close>

definition tenant_ok :: "int \<Rightarrow> (nat \<times> tenantCreates) option \<Rightarrow> int \<Rightarrow> quota_pc multiset \<Rightarrow> bool" where
  "tenant_ok limit c rows P \<longleftrightarrow>
     (limit > 0 \<longrightarrow> rows + n_holding P \<le> limit) \<and>
     (case c of
        None \<Rightarrow> P = {#}
      | Some (a, e) \<Rightarrow>
          P \<noteq> {#} \<and> limit > 0 \<and> (\<forall>p \<in># P. pc_addr p = a) \<and>
          tc_inProgress e = n_holding P + n_saved P \<and> tc_reading e = n_reading P \<and>
          (\<forall>p \<in># P. reader_ok (tc_saved e) (rows - n_saved P) p))"

definition addr_ok :: "tenantQuota \<Rightarrow> bool" where
  "addr_ok q \<longleftrightarrow> (\<forall>t a. tq_tenants q t = Some a \<longrightarrow> a < tq_next q) \<and>
     (\<forall>t t' a. tq_tenants q t = Some a \<longrightarrow> tq_tenants q t' = Some a \<longrightarrow> t = t')"

definition quota_inv :: "(string \<Rightarrow> int) \<Rightarrow> quota_state \<Rightarrow> bool" where
  "quota_inv limit s \<longleftrightarrow> addr_ok (qs_q s) \<and>
     (\<forall>t. tenant_ok (limit t) (cell_of (qs_q s) t) (qs_rows s t) (pcs_of t (qs_pcs s)))"

lemma n_simps [simp]:
  "n_reading {#} = 0" "n_holding {#} = 0" "n_saved {#} = 0"
  "n_reading (add_mset p P) = (if is_Reading p \<or> is_Counted p then 1 else 0) + n_reading P"
  "n_holding (add_mset p P) = (if is_Holding p then 1 else 0) + n_holding P"
  "n_saved (add_mset p P) = (if is_SavedRow p then 1 else 0) + n_saved P"
  by (simp_all add: n_reading_def n_holding_def n_saved_def)

lemma n_nonneg [simp]: "0 \<le> n_reading P" "0 \<le> n_holding P" "0 \<le> n_saved P"
  by (simp_all add: n_reading_def n_holding_def n_saved_def)

lemma n_none: "n_reading P = 0 \<Longrightarrow> n_holding P + n_saved P = 0 \<Longrightarrow> P = {#}"
proof (induction P)
  case (add p P)
  then show ?case by (cases p) (use n_nonneg [of P] in auto)
qed simp

lemma pcs_of_simps [simp]:
  "pcs_of t {#} = {#}"
  "pcs_of t (add_mset p P) = (if pc_tenant p = t then add_mset p (pcs_of t P) else pcs_of t P)"
  by (simp_all add: pcs_of_def)

lemma addr_ok_upd_cell [simp]: "addr_ok (upd_cell a f q) = addr_ok q"
  by (simp add: addr_ok_def upd_cell_def)

lemma addr_ok_forget: "addr_ok q \<Longrightarrow> addr_ok (forgetIfIdle t a q)"
  by (auto simp: addr_ok_def forgetIfIdle_def)

lemma cell_of_upd_cell:
  assumes "addr_ok q" and "cell_of q t = Some (a, e)"
  shows "cell_of (upd_cell a f q) = (cell_of q)(t \<mapsto> (a, f e))"
proof
  fix u
  show "cell_of (upd_cell a f q) u = ((cell_of q)(t \<mapsto> (a, f e))) u"
    using assms by (cases "tq_tenants q u") (auto simp: cell_of_def upd_cell_def addr_ok_def)
qed

lemma cell_of_forget:
  assumes "cell_of q t = Some (a, e)"
  shows "cell_of (forgetIfIdle t a q) =
    (if tc_inProgress e = 0 \<and> tc_reading e = 0 then (cell_of q)(t := None) else cell_of q)"
  using assms by (auto simp: cell_of_def forgetIfIdle_def fun_eq_iff)

lemma reserve_enter_cell:
  assumes "addr_ok q" and "reserve_enter t q = (a, q')"
  shows "addr_ok q' \<and> (\<exists>e. (cell_of q t = Some (a, e) \<or> cell_of q t = None \<and> e = newCreates) \<and>
    cell_of q' = (cell_of q)(t \<mapsto> (a, e\<lparr>tc_reading := tc_reading e + 1\<rparr>)))"
proof (cases "tq_tenants q t")
  case None
  define e where "e = newCreates\<lparr>tc_reading := tc_reading newCreates + 1\<rparr>"
  have q': "a = tq_next q" "tq_tenants q' = (tq_tenants q)(t \<mapsto> a)" "tq_next q' = Suc a"
    "tq_cells q' = (tq_cells q)(a := e)"
    using assms(2) None by (auto simp: reserve_enter_def entry_of_def upd_cell_def e_def)
  have fresh: "tq_tenants q u \<noteq> Some a" for u using assms(1) q'(1) by (auto simp: addr_ok_def)
  have "addr_ok q'"
    using assms(1) fresh q' by (auto simp: addr_ok_def less_Suc_eq)
  moreover have "cell_of q' u = ((cell_of q)(t \<mapsto> (a, e))) u" for u
    using fresh [of u] q' by (cases "tq_tenants q u") (auto simp: cell_of_def)
  ultimately show ?thesis using None by (auto simp: cell_of_def e_def)
next
  case (Some b)
  with assms have a: "a = b" "q' = upd_cell b (\<lambda>e. e\<lparr>tc_reading := tc_reading e + 1\<rparr>) q"
    by (auto simp: reserve_enter_def entry_of_def)
  with Some have "cell_of q t = Some (a, tq_cells q a)" by (simp add: cell_of_def)
  then show ?thesis using cell_of_upd_cell [OF assms(1)] assms(1) a by auto
qed

lemma reserve_leave_cell:
  assumes "addr_ok q" and "cell_of q t = Some (a, e)"
  defines "e' \<equiv> e\<lparr>tc_reading := tc_reading e - 1\<rparr>"
  shows "addr_ok (reserve_leave t a q) \<and> cell_of (reserve_leave t a q) =
    (cell_of q)(t := (if tc_inProgress e' = 0 \<and> tc_reading e' = 0 then None else Some (a, e')))"
  using assms cell_of_upd_cell [OF assms(1,2)]
  by (auto simp: reserve_leave_def addr_ok_forget cell_of_forget)

lemma release_slot_cell:
  fixes saved
  assumes "addr_ok q" and "cell_of q t = Some (a, e)"
    and "e' = e\<lparr>tc_inProgress := tc_inProgress e - 1, tc_saved := (if saved then tc_saved e + 1 else tc_saved e)\<rparr>"
  shows "addr_ok (release_slot t a saved q) \<and> cell_of (release_slot t a saved q) =
    (cell_of q)(t := (if tc_inProgress e' = 0 \<and> tc_reading e' = 0 then None else Some (a, e')))"
  using assms cell_of_upd_cell [OF assms(1,2)]
  by (auto simp: release_slot_def addr_ok_forget cell_of_forget)

lemma tenant_ok_cell: "tenant_ok limit c rows (add_mset p P) \<Longrightarrow> \<exists>e. c = Some (pc_addr p, e)"
  by (auto simp: tenant_ok_def split: option.splits)

lemma quota_inv_update:
  assumes "quota_inv limit \<lparr>qs_q = q, qs_rows = rows, qs_pcs = P\<rparr>"
    and "addr_ok q' \<and> cell_of q' = (cell_of q)(t := c)"
    and "tenant_ok (limit t) c (rows' t) (pcs_of t P')"
    and "\<And>u. u \<noteq> t \<Longrightarrow> pcs_of u P' = pcs_of u P" and "\<And>u. u \<noteq> t \<Longrightarrow> rows' u = rows u"
  shows "quota_inv limit \<lparr>qs_q = q', qs_rows = rows', qs_pcs = P'\<rparr>"
  using assms by (auto simp: quota_inv_def)

lemma quota_inv_pc:
  assumes "quota_inv limit \<lparr>qs_q = q, qs_rows = rows, qs_pcs = add_mset p P\<rparr>"
  obtains e where "addr_ok q" and "cell_of q (pc_tenant p) = Some (pc_addr p, e)"
    and "tenant_ok (limit (pc_tenant p)) (Some (pc_addr p, e)) (rows (pc_tenant p)) (add_mset p (pcs_of (pc_tenant p) P))"
proof -
  have ok: "tenant_ok (limit (pc_tenant p)) (cell_of q (pc_tenant p)) (rows (pc_tenant p)) (add_mset p (pcs_of (pc_tenant p) P))"
    using assms by (auto simp: quota_inv_def dest: spec [of _ "pc_tenant p"])
  from tenant_ok_cell [OF this] obtain e where "cell_of q (pc_tenant p) = Some (pc_addr p, e)" by auto
  with ok assms that show ?thesis by (simp add: quota_inv_def)
qed

lemma cell_of_saved: "cell_of q t = Some (a, e) \<Longrightarrow> tq_cells q a = e"
  by (auto simp: cell_of_def)

text \<open>One tenant's view of each step.\<close>

lemma reader_ok_mono:
  "reader_ok saved d p \<Longrightarrow> saved \<le> saved' \<Longrightarrow> d' - d \<le> saved' - saved \<Longrightarrow> reader_ok saved' d' p"
  by (auto simp: reader_ok_def)

lemma reader_ok_simps [simp]:
  "reader_ok saved d (Reading t a sb k) \<longleftrightarrow> sb \<le> saved"
  "reader_ok saved d (Counted t a sb k n) \<longleftrightarrow> sb \<le> saved \<and> d \<le> n + (saved - sb)"
  "reader_ok saved d (Holding t a)" "reader_ok saved d (SavedRow t a)"
  by (auto simp: reader_ok_def)

lemma ok_enter:
  assumes "tenant_ok limit c rows P" and "limit > 0" and "c = Some (a, e) \<or> c = None \<and> e = newCreates"
  shows "tenant_ok limit (Some (a, e\<lparr>tc_reading := tc_reading e + 1\<rparr>)) rows
    (add_mset (Reading t a (tc_saved e) 1) P)"
  using assms by (auto simp: tenant_ok_def newCreates_def)

lemma ok_read:
  assumes "tenant_ok limit (Some (a, e)) rows (add_mset (Reading t a sb k) P)"
  shows "tenant_ok limit (Some (a, e)) rows (add_mset (Counted t a sb k rows) P)"
  using assms by (auto simp: tenant_ok_def intro: order.trans [of _ 0])

lemma ok_left:
  assumes "tenant_ok limit (Some (a, e)) rows (add_mset p P)" and "is_Reading p \<or> is_Counted p"
    and "e' = e\<lparr>tc_reading := tc_reading e - 1\<rparr>"
  shows "tenant_ok limit (if tc_inProgress e' = 0 \<and> tc_reading e' = 0 then None else Some (a, e')) rows P"
  using assms by (cases p) (auto simp: tenant_ok_def dest: n_none)

lemma ok_granted:
  assumes "tenant_ok limit (Some (a, e)) rows (add_mset (Counted t a sb k n) P)"
    and "n + tc_inProgress e + (tc_saved e - sb) < limit"
  shows "tenant_ok limit (Some (a, e\<lparr>tc_inProgress := tc_inProgress e + 1, tc_reading := tc_reading e - 1\<rparr>))
    rows (add_mset (Holding t a) P)"
  using assms by (auto simp: tenant_ok_def)

lemma ok_again:
  assumes "tenant_ok limit (Some (a, e)) rows (add_mset (Counted t a sb k n) P)"
  shows "tenant_ok limit (Some (a, e)) rows (add_mset (Reading t a (tc_saved e) k') P)"
  using assms by (auto simp: tenant_ok_def)

lemma ok_save:
  assumes "tenant_ok limit (Some (a, e)) rows (add_mset (Holding t a) P)"
  shows "tenant_ok limit (Some (a, e)) (rows + 1) (add_mset (SavedRow t a) P)"
  using assms by (auto simp: tenant_ok_def)

lemma ok_released:
  assumes "tenant_ok limit (Some (a, e)) rows (add_mset p P)"
    and "is_SavedRow p \<and> saved \<or> is_Holding p"
    and "e' = e\<lparr>tc_inProgress := tc_inProgress e - 1, tc_saved := (if saved then tc_saved e + 1 else tc_saved e)\<rparr>"
  shows "tenant_ok limit (if tc_inProgress e' = 0 \<and> tc_reading e' = 0 then None else Some (a, e')) rows P"
proof -
  have readers: "\<forall>p \<in># P. reader_ok (tc_saved e') (rows - n_saved P) p"
  proof
    fix r assume "r \<in># P"
    with assms show "reader_ok (tc_saved e') (rows - n_saved P) r"
      by (cases p) (auto simp: tenant_ok_def elim: reader_ok_mono dest!: bspec [of "set_mset P" _ r])
  qed
  show ?thesis
  proof (cases "tc_inProgress e' = 0 \<and> tc_reading e' = 0")
    case True
    then have "P = {#}" using assms by (intro n_none; cases p) (auto simp: tenant_ok_def)
    then show ?thesis using True assms by (cases p) (auto simp: tenant_ok_def)
  next
    case False
    with readers show ?thesis using assms by (cases p) (auto simp: tenant_ok_def)
  qed
qed

lemma ok_delete: "tenant_ok limit c rows P \<Longrightarrow> tenant_ok limit c (rows - 1) P"
  by (force simp: tenant_ok_def intro: reader_ok_mono split: option.splits)

text \<open>The kinds of step: a request moves on, leaves, is granted its slot or gives it back.\<close>

lemma inv_move:
  assumes inv: "quota_inv limit \<lparr>qs_q = q, qs_rows = rows, qs_pcs = add_mset p P\<rparr>"
    and same: "pc_tenant p' = pc_tenant p" "\<And>u. u \<noteq> pc_tenant p \<Longrightarrow> rows' u = rows u"
    and ok: "\<And>e. tq_cells q (pc_addr p) = e \<Longrightarrow>
      tenant_ok (limit (pc_tenant p)) (Some (pc_addr p, e)) (rows (pc_tenant p)) (add_mset p (pcs_of (pc_tenant p) P)) \<Longrightarrow>
      tenant_ok (limit (pc_tenant p)) (Some (pc_addr p, e)) (rows' (pc_tenant p)) (add_mset p' (pcs_of (pc_tenant p) P))"
  shows "quota_inv limit \<lparr>qs_q = q, qs_rows = rows', qs_pcs = add_mset p' P\<rparr>"
proof (rule quota_inv_pc [OF inv])
  fix e
  assume c: "addr_ok q" "cell_of q (pc_tenant p) = Some (pc_addr p, e)"
    and old: "tenant_ok (limit (pc_tenant p)) (Some (pc_addr p, e)) (rows (pc_tenant p)) (add_mset p (pcs_of (pc_tenant p) P))"
  then have "addr_ok q \<and> cell_of q = (cell_of q)(pc_tenant p := Some (pc_addr p, e))" by (simp add: fun_upd_idem)
  from quota_inv_update [OF inv this] show ?thesis
    using ok [OF cell_of_saved [OF c(2)] old] same by simp
qed

lemma inv_leave:
  assumes inv: "quota_inv limit \<lparr>qs_q = q, qs_rows = rows, qs_pcs = add_mset p P\<rparr>"
    and "is_Reading p \<or> is_Counted p"
  shows "quota_inv limit \<lparr>qs_q = reserve_leave (pc_tenant p) (pc_addr p) q, qs_rows = rows, qs_pcs = P\<rparr>"
proof (rule quota_inv_pc [OF inv])
  fix e
  assume c: "addr_ok q" "cell_of q (pc_tenant p) = Some (pc_addr p, e)"
    and "tenant_ok (limit (pc_tenant p)) (Some (pc_addr p, e)) (rows (pc_tenant p)) (add_mset p (pcs_of (pc_tenant p) P))"
  then show ?thesis
    by (intro quota_inv_update [OF inv reserve_leave_cell [OF c]] ok_left [OF _ assms(2) refl]) auto
qed

lemma inv_release:
  assumes inv: "quota_inv limit \<lparr>qs_q = q, qs_rows = rows, qs_pcs = add_mset p P\<rparr>"
    and "is_SavedRow p \<and> saved \<or> is_Holding p"
  shows "quota_inv limit \<lparr>qs_q = release_slot (pc_tenant p) (pc_addr p) saved q, qs_rows = rows, qs_pcs = P\<rparr>"
proof (rule quota_inv_pc [OF inv])
  fix e
  assume c: "addr_ok q" "cell_of q (pc_tenant p) = Some (pc_addr p, e)"
    and "tenant_ok (limit (pc_tenant p)) (Some (pc_addr p, e)) (rows (pc_tenant p)) (add_mset p (pcs_of (pc_tenant p) P))"
  then show ?thesis
    by (intro quota_inv_update [OF inv release_slot_cell [OF c refl]] ok_released [OF _ assms(2) refl]) auto
qed

lemma inv_granted:
  assumes inv: "quota_inv limit \<lparr>qs_q = q, qs_rows = rows, qs_pcs = add_mset (Counted t a sb k n) P\<rparr>"
    and "reserve_decide (limit t) a sb k n q = (Granted, q')"
  shows "quota_inv limit \<lparr>qs_q = reserve_leave t a q', qs_rows = rows, qs_pcs = add_mset (Holding t a) P\<rparr>"
proof (rule quota_inv_pc [OF inv])
  fix e
  assume "addr_ok q" "cell_of q (pc_tenant (Counted t a sb k n)) = Some (pc_addr (Counted t a sb k n), e)"
    and "tenant_ok (limit (pc_tenant (Counted t a sb k n))) (Some (pc_addr (Counted t a sb k n), e))
      (rows (pc_tenant (Counted t a sb k n))) (add_mset (Counted t a sb k n) (pcs_of (pc_tenant (Counted t a sb k n)) P))"
  then have c: "addr_ok q" "cell_of q t = Some (a, e)"
    and ok: "tenant_ok (limit t) (Some (a, e)) (rows t) (add_mset (Counted t a sb k n) (pcs_of t P))" by simp_all
  define e1 where "e1 = e\<lparr>tc_inProgress := tc_inProgress e + 1\<rparr>"
  have q': "q' = upd_cell a (\<lambda>e. e\<lparr>tc_inProgress := tc_inProgress e + 1\<rparr>) q"
    and below: "n + tc_inProgress e + (tc_saved e - sb) < limit t"
    using assms(2) cell_of_saved [OF c(2)] by (auto simp: reserve_decide_def Let_def split: if_splits)
  have c': "addr_ok q'" "cell_of q' = (cell_of q)(t \<mapsto> (a, e1))"
    unfolding q' using cell_of_upd_cell [OF c] c(1) by (auto simp: e1_def)
  have "tc_inProgress e = n_holding (pcs_of t P) + n_saved (pcs_of t P)" using ok by (simp add: tenant_ok_def)
  then have "tc_inProgress e \<ge> 0" by simp
  with reserve_leave_cell [OF c'(1), of t a e1] c' have "addr_ok (reserve_leave t a q') \<and>
      cell_of (reserve_leave t a q') = (cell_of q)(t := Some (a, e1\<lparr>tc_reading := tc_reading e1 - 1\<rparr>))"
    by (simp add: e1_def)
  from quota_inv_update [OF inv this] ok_granted [OF ok below] show ?thesis by (simp add: e1_def)
qed

lemma inv_enter:
  assumes inv: "quota_inv limit \<lparr>qs_q = q, qs_rows = rows, qs_pcs = P\<rparr>" and "limit t > 0"
    and enter: "reserve_enter t q = (a, q')"
  shows "quota_inv limit \<lparr>qs_q = q', qs_rows = rows,
    qs_pcs = add_mset (Reading t a (tc_saved (tq_cells q' a)) 1) P\<rparr>"
proof -
  have ok: "addr_ok q" "tenant_ok (limit t) (cell_of q t) (rows t) (pcs_of t P)"
    using inv by (auto simp: quota_inv_def)
  obtain e where e: "cell_of q t = Some (a, e) \<or> cell_of q t = None \<and> e = newCreates"
    and q': "addr_ok q' \<and> cell_of q' = (cell_of q)(t \<mapsto> (a, e\<lparr>tc_reading := tc_reading e + 1\<rparr>))"
    using reserve_enter_cell [OF ok(1) enter] by auto
  then have "tc_saved (tq_cells q' a) = tc_saved e" using cell_of_saved [of q' t a] by auto
  then show ?thesis
    using ok_enter [OF ok(2) assms(2) e] by (intro quota_inv_update [OF inv q']) auto
qed

lemma reserve_decide_same: "reserve_decide limit a sb k n q = (v, q') \<Longrightarrow> v \<noteq> Granted \<Longrightarrow> q' = q"
  by (auto simp: reserve_decide_def Let_def split: if_splits)

lemma quota_inv_step: "quota_step limit s s' \<Longrightarrow> quota_inv limit s \<Longrightarrow> quota_inv limit s'"
proof (induction rule: quota_step.induct)
  case (begin_reserve t q a q' rows P)
  then show ?case by (intro inv_enter)
next
  case (read_count q rows t a sb k P)
  then show ?case by (rule inv_move) (auto intro: ok_read)
next
  case (read_fails q rows t a sb k P)
  from inv_leave [OF this] show ?case by simp
next
  case (granted t a sb k n q q' rows P)
  then show ?case by (auto intro: inv_granted)
next
  case (full t a sb k n q q' rows P)
  from inv_leave [OF full(2)] reserve_decide_same [OF full(1)] show ?case by simp
next
  case (again t a sb k n q q' rows P)
  have "q' = q" using reserve_decide_same [OF again(1)] by simp
  then show ?case by (auto intro!: inv_move [OF again(2)] intro: ok_again)
next
  case (save_row q rows t a P)
  then show ?case by (rule inv_move) (auto intro: ok_save)
next
  case (release_saved q rows t a P)
  from inv_release [OF this, of True] show ?case by simp
next
  case (release_unsaved q rows t a P saved)
  from inv_release [OF this, of saved] show ?case by simp
next
  case (delete_row rows t q P)
  then have "addr_ok q \<and> cell_of q = (cell_of q)(t := cell_of q t)" by (simp add: quota_inv_def fun_upd_idem)
  from quota_inv_update [OF delete_row(2) this] delete_row show ?case
    by (auto simp: quota_inv_def intro: ok_delete)
qed

lemma quota_inv_start:
  "(\<And>t. limit t > 0 \<Longrightarrow> rows0 t \<le> limit t) \<Longrightarrow>
   quota_inv limit \<lparr>qs_q = newTenantQuota, qs_rows = rows0, qs_pcs = {#}\<rparr>"
  by (simp add: quota_inv_def newTenantQuota_def addr_ok_def cell_of_def tenant_ok_def)

section \<open>Claims\<close>

text \<open>
  Claim C1. However the creates of one API pod interleave, a tenant's saved sandboxes plus its
  creates that passed the check and are not saved yet never exceed its limit.
\<close>

theorem quota_holds_under_interleaving:
  assumes "quota_reach limit rows0 s" and "\<forall>t. limit t > 0 \<longrightarrow> rows0 t \<le> limit t" and "limit t > 0"
  shows "qs_rows s t + n_holding (pcs_of t (qs_pcs s)) \<le> limit t"
proof -
  from assms(1) have "quota_inv limit s"
    by induction (use assms(2) in \<open>auto intro: quota_inv_start quota_inv_step\<close>)
  then show ?thesis using assms(3) by (auto simp: quota_inv_def tenant_ok_def)
qed

text \<open>A tenant with a limit of 1: its only create has passed the check.\<close>

definition example_holding :: quota_state where
  "example_holding =
     (case reserve_enter ''t'' newTenantQuota of (a, q) \<Rightarrow>
        \<lparr>qs_q = reserve_leave ''t'' a (snd (reserve_decide 1 a 0 1 0 q)), qs_rows = (\<lambda>_. 0),
         qs_pcs = {#Holding ''t'' a#}\<rparr>)"

lemma example_holding_reach: "quota_reach (\<lambda>_. 1) (\<lambda>_. 0) example_holding"
proof -
  define q where "q = snd (reserve_enter ''t'' newTenantQuota)"
  have enter: "reserve_enter ''t'' newTenantQuota = (0, q)"
    by (simp add: q_def reserve_enter_def entry_of_def newTenantQuota_def)
  have cell: "tq_cells q 0 = \<lparr>tc_inProgress = 0, tc_saved = 0, tc_reading = 1\<rparr>"
    by (simp add: q_def reserve_enter_def entry_of_def newTenantQuota_def upd_cell_def newCreates_def)
  have grant: "reserve_decide 1 0 0 1 0 q = (Granted, snd (reserve_decide 1 0 0 1 0 q))"
    by (simp add: reserve_decide_def cell)
  note start = quota_reach.start [of "\<lambda>_. 1" "\<lambda>_. 0"]
  from quota_reach.step [OF start quota_step.begin_reserve [OF _ enter]]
  have "quota_reach (\<lambda>_. 1) (\<lambda>_. 0) \<lparr>qs_q = q, qs_rows = \<lambda>_. 0, qs_pcs = {#Reading ''t'' 0 0 1#}\<rparr>"
    by (simp add: cell)
  from quota_reach.step [OF this quota_step.read_count]
  have "quota_reach (\<lambda>_. 1) (\<lambda>_. 0) \<lparr>qs_q = q, qs_rows = \<lambda>_. 0, qs_pcs = {#Counted ''t'' 0 0 1 0#}\<rparr>" .
  from quota_reach.step [OF this quota_step.granted [OF grant]] show ?thesis
    by (simp add: example_holding_def enter)
qed

theorem quota_holds_under_interleaving_witness:
  "qs_rows example_holding ''t'' + n_holding (pcs_of ''t'' (qs_pcs example_holding)) \<le> 1 \<and>
   n_holding (pcs_of ''t'' (qs_pcs example_holding)) = 1"
  using quota_holds_under_interleaving [OF example_holding_reach, of "''t''"]
  by (simp add: example_holding_def split: prod.split)

text \<open>
  The quota keeps an entry for exactly the tenants that have a request in it, so the
  map does not grow with the tenants served; and every such request works on the cell the map
  holds for its tenant, never on one that was dropped and replaced.
\<close>

theorem quota_entries_live:
  assumes "quota_reach limit rows0 s" and "\<forall>t. limit t > 0 \<longrightarrow> rows0 t \<le> limit t"
  shows "(tq_tenants (qs_q s) t \<noteq> None \<longleftrightarrow> (\<exists>p \<in># qs_pcs s. pc_tenant p = t)) \<and>
    (\<forall>p \<in># qs_pcs s. tq_tenants (qs_q s) (pc_tenant p) = Some (pc_addr p))"
proof -
  from assms(1) have inv: "quota_inv limit s"
    by induction (use assms(2) in \<open>auto intro: quota_inv_start quota_inv_step\<close>)
  then have ok: "tenant_ok (limit u) (cell_of (qs_q s) u) (qs_rows s u) (pcs_of u (qs_pcs s))" for u
    by (simp add: quota_inv_def)
  have "tq_tenants (qs_q s) u = Some (pc_addr p)" if "p \<in># qs_pcs s" "pc_tenant p = u" for p u
    using ok [of u] that by (auto simp: tenant_ok_def cell_of_def pcs_of_def split: option.splits)
  moreover have "\<exists>p \<in># qs_pcs s. pc_tenant p = t" if "tq_tenants (qs_q s) t \<noteq> None"
    using ok [of t] that
    by (auto simp: tenant_ok_def cell_of_def pcs_of_def filter_mset_eq_conv split: option.splits)
  ultimately show ?thesis by blast
qed

theorem quota_entries_live_witness:
  "tq_tenants (qs_q example_holding) ''t'' \<noteq> None \<and> tq_tenants (qs_q example_holding) ''u'' = None"
  using quota_entries_live [OF example_holding_reach, of "''t''"]
    quota_entries_live [OF example_holding_reach, of "''u''"]
  by (auto simp: example_holding_def split: prod.splits)

end
