(* ===== verification/Placement.thy ===== *)
theory Placement
  imports Runner_Registry
begin

text \<open>
  Placing a create on a runner, \<open>internal/api/placement.go\<close>, and the marker by which a runner's
  refusal is recognised, \<open>internal/api/runnerctl/refusal.go\<close>. What happens around the loop is
  given by functions of the attempt number: what the registry picks, what the runner answers,
  how much time has passed and whether the client is still there.
\<close>

section \<open>gRPC errors and the capacity refusal\<close>

datatype grpc_code =
    CodeOK | Canceled | CodeUnknown | InvalidArgument | DeadlineExceeded | CodeNotFound | AlreadyExists
  | PermissionDenied | ResourceExhausted | FailedPrecondition | Aborted | OutOfRange | Unimplemented
  | CodeInternal | Unavailable | DataLoss | Unauthenticated

datatype detail = ErrorInfo string string | OtherDetail string

text \<open>An error of a call: a gRPC status with its details, or any other Go error.\<close>

datatype go_error = StatusErr grpc_code string "detail list" | PlainErr string

definition refusalDomain :: string where "refusalDomain = ''sandbox-runner''"
definition refusalReason :: string where "refusalReason = ''CAPACITY_EXHAUSTED''"

text \<open>\<open>encodes\<close> tells whether \<open>WithDetails\<close> could marshal the detail.\<close>

definition CapacityRefusal :: "bool \<Rightarrow> string \<Rightarrow> go_error" where
  "CapacityRefusal encodes msg =
     (if \<not> encodes then StatusErr ResourceExhausted msg []
      else StatusErr ResourceExhausted msg [ErrorInfo refusalDomain refusalReason])"

fun is_refusal_detail :: "detail \<Rightarrow> bool" where
  "is_refusal_detail (ErrorInfo dm reason) = (dm = refusalDomain \<and> reason = refusalReason)"
| "is_refusal_detail (OtherDetail _) = False"

fun IsCapacityRefusal :: "go_error option \<Rightarrow> bool" where
  "IsCapacityRefusal (Some (StatusErr code _ details)) =
     (code = ResourceExhausted \<and> list_ex is_refusal_detail details)"
| "IsCapacityRefusal _ = False"

section \<open>The placement loop\<close>

definition createPlacementAttempts :: nat where "createPlacementAttempts = 3"
definition createPlacementBudget :: duration where "createPlacementBudget = 5 * second_ns"

record create_response =
  cr_ContainerIP :: string
  cr_AppliedCreateOptionsJson :: string

datatype place_error =
    PlaceNoRunners
  | PlaceRegistry string
  | PlaceRunner go_error
  | PlaceAtCapacity

datatype placement_outcome = PlacementNoRunner | PlacementFirstChoice | PlacementRetried | PlacementExhausted

type_synonym attempt = "Runner \<times> (go_error + create_response)"

record place_env =
  pe_pick :: "nat \<Rightarrow> string list \<Rightarrow> registry_error + Runner"
  pe_create :: "nat \<Rightarrow> Runner \<Rightarrow> go_error + create_response"
  pe_elapsed :: "nat \<Rightarrow> duration"
  pe_clientGone :: "nat \<Rightarrow> bool"

text \<open>What a placement leaves behind: its answer, the metric it observes, and the calls it made.\<close>

record place_result =
  pl_answer :: "place_error + Runner \<times> create_response"
  pl_outcome :: "placement_outcome option"
  pl_calls :: "attempt list"

definition rpc_error :: "go_error + 'a \<Rightarrow> go_error option" where
  "rpc_error res = (case res of Inl e \<Rightarrow> Some e | Inr _ \<Rightarrow> None)"

definition exhausted :: "attempt list \<Rightarrow> place_result" where
  "exhausted calls = \<lparr>pl_answer = Inl PlaceAtCapacity, pl_outcome = Some PlacementExhausted, pl_calls = calls\<rparr>"

text \<open>
  One turn of the \<open>for\<close> loop per call; \<open>attempts\<close> counts the runner calls made so far and
  \<open>refusedBy\<close> lists the runners that refused.
\<close>

function place_loop :: "place_env \<Rightarrow> string list \<Rightarrow> nat \<Rightarrow> attempt list \<Rightarrow> place_result" where
  "place_loop e refusedBy attempts calls =
     (case pe_pick e attempts refusedBy of
        Inl ErrNoRunners \<Rightarrow>
          if length refusedBy > 0 then exhausted calls
          else \<lparr>pl_answer = Inl PlaceNoRunners, pl_outcome = Some PlacementNoRunner, pl_calls = calls\<rparr>
      | Inl (RegistryErr msg) \<Rightarrow>
          \<lparr>pl_answer = Inl (PlaceRegistry msg), pl_outcome = None, pl_calls = calls\<rparr>
      | Inr run \<Rightarrow>
          (let res = pe_create e attempts run; calls' = calls @ [(run, res)] in
           if \<not> IsCapacityRefusal (rpc_error res) then
             \<lparr>pl_answer = (case res of Inl err \<Rightarrow> Inl (PlaceRunner err) | Inr resp \<Rightarrow> Inr (run, resp)),
              pl_outcome = Some (if length refusedBy = 0 then PlacementFirstChoice else PlacementRetried),
              pl_calls = calls'\<rparr>
           else if Suc attempts \<ge> createPlacementAttempts \<or> pe_elapsed e (Suc attempts) \<ge> createPlacementBudget
             \<or> pe_clientGone e (Suc attempts) then exhausted calls'
           else place_loop e (refusedBy @ [rn_ID run]) (Suc attempts) calls'))"
  by pat_completeness auto
termination
  by (relation "measure (\<lambda>(e, refusedBy, attempts, calls). createPlacementAttempts - attempts)") auto

declare place_loop.simps [simp del]

definition placeSandbox :: "place_env \<Rightarrow> place_result" where
  "placeSandbox e = place_loop e [] 0 []"

text \<open>The response to a create no runner took: status, Retry-After and reason.\<close>

definition reasonNoCapacity :: string where "reasonNoCapacity = ''no_capacity''"
definition capacityRetryAfter :: string where "capacityRetryAfter = ''1''"

definition placeErr_noCapacity :: "place_error \<Rightarrow> bool" where
  "placeErr_noCapacity e \<longleftrightarrow> e = PlaceNoRunners \<or> e = PlaceAtCapacity"

section \<open>Lemmas\<close>

definition refused :: "attempt \<Rightarrow> bool" where
  "refused a \<longleftrightarrow> IsCapacityRefusal (rpc_error (snd a))"

lemma refused_Inr [simp]: "\<not> refused (run, Inr resp)"
  by (simp add: refused_def rpc_error_def)

lemma refusal_recognised: "IsCapacityRefusal (Some (CapacityRefusal encodes msg)) \<longleftrightarrow> encodes"
  by (simp add: CapacityRefusal_def)

text \<open>
  What is true of the calls of a loop: each went to the runner the registry picked after excluding
  the runners called before, and a further call was made only within the budget and for a client
  that was still there.
\<close>

definition calls_follow :: "place_env \<Rightarrow> attempt list \<Rightarrow> bool" where
  "calls_follow e calls \<longleftrightarrow>
     (\<forall>k < length calls. pe_pick e k (map (rn_ID \<circ> fst) (take k calls)) = Inr (fst (calls ! k)) \<and>
        snd (calls ! k) = pe_create e k (fst (calls ! k)) \<and>
        (k > 0 \<longrightarrow> pe_elapsed e k < createPlacementBudget \<and> \<not> pe_clientGone e k))"

definition may_continue :: "place_env \<Rightarrow> nat \<Rightarrow> bool" where
  "may_continue e k \<longleftrightarrow> k < createPlacementAttempts \<and>
     (k > 0 \<longrightarrow> pe_elapsed e k < createPlacementBudget \<and> \<not> pe_clientGone e k)"

definition place_inv :: "place_env \<Rightarrow> string list \<Rightarrow> nat \<Rightarrow> attempt list \<Rightarrow> bool" where
  "place_inv e refusedBy attempts calls \<longleftrightarrow>
     refusedBy = map (rn_ID \<circ> fst) calls \<and> attempts = length calls \<and> may_continue e attempts \<and>
     (\<forall>a \<in> set calls. refused a) \<and> calls_follow e calls"

text \<open>What the answer says about the calls.\<close>

fun answer_fits :: "place_env \<Rightarrow> place_error + Runner \<times> create_response \<Rightarrow> attempt list \<Rightarrow> bool" where
  "answer_fits e (Inl PlaceNoRunners) calls = (calls = [] \<and> pe_pick e 0 [] = Inl ErrNoRunners)"
| "answer_fits e (Inl (PlaceRegistry _)) calls = (\<forall>a \<in> set calls. refused a)"
| "answer_fits e (Inl (PlaceRunner err)) calls =
     (\<exists>pre run. calls = pre @ [(run, Inl err)] \<and> \<not> refused (run, Inl err) \<and> (\<forall>a \<in> set pre. refused a))"
| "answer_fits e (Inl PlaceAtCapacity) calls =
     (calls \<noteq> [] \<and> (\<forall>a \<in> set calls. refused a) \<and>
      (may_continue e (length calls) \<longrightarrow>
         pe_pick e (length calls) (map (rn_ID \<circ> fst) calls) = Inl ErrNoRunners))"
| "answer_fits e (Inr (run, resp)) calls =
     (\<exists>pre. calls = pre @ [(run, Inr resp)] \<and> (\<forall>a \<in> set pre. refused a))"

definition justified :: "place_env \<Rightarrow> place_result \<Rightarrow> bool" where
  "justified e p \<longleftrightarrow> length (pl_calls p) \<le> createPlacementAttempts \<and> calls_follow e (pl_calls p) \<and>
     answer_fits e (pl_answer p) (pl_calls p)"

lemma calls_follow_snoc:
  assumes "place_inv e refusedBy attempts calls" and "pe_pick e attempts refusedBy = Inr run"
  shows "calls_follow e (calls @ [(run, pe_create e attempts run)])"
  using assms by (auto simp: calls_follow_def place_inv_def may_continue_def nth_append less_Suc_eq)

lemma justified_called:
  assumes inv: "place_inv e refusedBy attempts calls" and pick: "pe_pick e attempts refusedBy = Inr run"
    and "pe_create e attempts run = res" and fits: "answer_fits e ans (calls @ [(run, res)])"
  shows "justified e \<lparr>pl_answer = ans, pl_outcome = m, pl_calls = calls @ [(run, res)]\<rparr>"
  using calls_follow_snoc [OF inv pick] assms
  by (auto simp: justified_def place_inv_def may_continue_def)

lemma place_loop_justified:
  "place_inv e refusedBy attempts calls \<Longrightarrow> justified e (place_loop e refusedBy attempts calls)"
proof (induction e refusedBy attempts calls rule: place_loop.induct)
  case (1 e refusedBy attempts calls)
  note inv = 1(2)
  show ?case
  proof (cases "pe_pick e attempts refusedBy")
    case (Inl err)
    with inv show ?thesis
      unfolding place_loop.simps [of e refusedBy]
      by (cases err) (auto simp: exhausted_def place_inv_def justified_def may_continue_def)
  next
    case (Inr run)
    let ?res = "pe_create e attempts run"
    have calls: "\<forall>a \<in> set calls. refused a" and len: "attempts = length calls"
      using inv by (simp_all add: place_inv_def)
    consider (finished) "\<not> refused (run, ?res)"
      | (stop) "refused (run, ?res)" "\<not> may_continue e (Suc attempts)"
      | (again) "refused (run, ?res)" "may_continue e (Suc attempts)" by blast
    then show ?thesis
    proof cases
      case finished
      with Inr calls show ?thesis
        unfolding place_loop.simps [of e refusedBy]
        by (auto simp: Let_def refused_def split: sum.split intro!: justified_called [OF inv Inr])
    next
      case stop
      with Inr calls len show ?thesis
        unfolding place_loop.simps [of e refusedBy]
        by (auto simp: Let_def refused_def may_continue_def exhausted_def not_less
            intro!: justified_called [OF inv Inr])
    next
      case again
      have "place_inv e (refusedBy @ [rn_ID run]) (Suc attempts) (calls @ [(run, ?res)])"
        using again inv calls_follow_snoc [OF inv Inr] by (auto simp: place_inv_def)
      moreover have "place_loop e refusedBy attempts calls =
          place_loop e (refusedBy @ [rn_ID run]) (Suc attempts) (calls @ [(run, ?res)])"
        using again Inr by (simp add: place_loop.simps [of e refusedBy] Let_def refused_def may_continue_def)
      ultimately show ?thesis
        using again 1(1) [OF Inr refl refl] by (simp add: refused_def may_continue_def)
    qed
  qed
qed

lemma placeSandbox_justified: "justified e (placeSandbox e)"
  unfolding placeSandbox_def
  by (rule place_loop_justified)
    (simp add: place_inv_def may_continue_def calls_follow_def createPlacementAttempts_def)

lemma answer_fits_butlast: "answer_fits e ans calls \<Longrightarrow> a \<in> set (butlast calls) \<Longrightarrow> refused a"
  by (induction e ans calls rule: answer_fits.induct) (auto dest: in_set_butlastD)

section \<open>Placement over a registry\<close>

context runner_picker
begin

text \<open>No runner is called twice, and each call goes to a runner that was usable then.\<close>

lemma placed_distinct:
  assumes "calls_follow e calls" and "\<And>k ex. pe_pick e k ex = pick ex (reg k)"
  shows "distinct (map (rn_ID \<circ> fst) calls)"
proof -
  have "map (rn_ID \<circ> fst) calls ! k \<notin> set (take k (map (rn_ID \<circ> fst) calls))" if "k < length calls" for k
    using assms that pick_usable [of "map (rn_ID \<circ> fst) (take k calls)" "reg k" "fst (calls ! k)"]
    by (simp add: calls_follow_def take_map)
  then show ?thesis by (intro distinct_by_prefix) simp
qed

lemma placed_usable:
  assumes "calls_follow e calls" and "\<And>k ex. pe_pick e k ex = pick ex (reg k)" and "k < length calls"
  shows "usable (reg k) (fst (calls ! k))"
  using assms pick_usable [of "map (rn_ID \<circ> fst) (take k calls)" "reg k" "fst (calls ! k)"]
  by (simp add: calls_follow_def)

lemma capacity_means_all_refused:
  assumes "justified e p" and "\<And>k ex. pe_pick e k ex = pick ex (reg k)"
    and "pl_answer p = Inl PlaceAtCapacity" and "may_continue e (length (pl_calls p))"
    and "usable (reg (length (pl_calls p))) run"
  shows "\<exists>a \<in> set (pl_calls p). rn_ID (fst a) = rn_ID run \<and> refused a"
proof -
  have "rn_ID run \<in> set (map (rn_ID \<circ> fst) (pl_calls p))"
    using assms pick_none [of "map (rn_ID \<circ> fst) (pl_calls p)" "reg (length (pl_calls p))" run]
    by (simp add: justified_def)
  then obtain a where "a \<in> set (pl_calls p)" and "rn_ID (fst a) = rn_ID run" by auto
  moreover from this(1) have "refused a" using assms(1,3) by (simp add: justified_def)
  ultimately show ?thesis by blast
qed

end

section \<open>Claims\<close>

text \<open>A placement that asks the in-memory registry, as it is at each attempt.\<close>

definition memory_env :: "(nat \<Rightarrow> int \<times> MemoryRegistry) \<Rightarrow> place_env \<Rightarrow> place_env" where
  "memory_env reg e = e\<lparr>pe_pick := (\<lambda>k ex. PickLowestUsed (fst (reg k)) ex (snd (reg k)))\<rparr>"

lemma memory_env_pick:
  "pe_pick (memory_env reg e) k ex = (\<lambda>ex (now, r). PickLowestUsed now ex r) ex (reg k)"
  by (simp add: memory_env_def split_def)

text \<open>
  Claim C24. One create makes at most three runner calls, never two to one runner; every call
  but the last was a capacity refusal, which is the only answer after which the runner is known
  to have created nothing; and on success the last call is the one that created the sandbox.
  This holds whatever the registry does between attempts.
\<close>

theorem placement_calls:
  "let p = placeSandbox (memory_env reg e) in
    length (pl_calls p) \<le> 3 \<and> distinct (map (rn_ID \<circ> fst) (pl_calls p)) \<and>
    (\<forall>a \<in> set (butlast (pl_calls p)). refused a) \<and>
    (\<forall>run resp. pl_answer p = Inr (run, resp) \<longrightarrow> pl_calls p \<noteq> [] \<and> last (pl_calls p) = (run, Inr resp))"
proof -
  define p where "p = placeSandbox (memory_env reg e)"
  have j: "justified (memory_env reg e) p" unfolding p_def by (rule placeSandbox_justified)
  have "distinct (map (rn_ID \<circ> fst) (pl_calls p))"
    using j by (intro memory.placed_distinct [of "memory_env reg e" _ reg, OF _ memory_env_pick]) (simp add: justified_def)
  moreover have "\<forall>run resp. pl_answer p = Inr (run, resp) \<longrightarrow> pl_calls p \<noteq> [] \<and> last (pl_calls p) = (run, Inr resp)"
    using j by (auto simp: justified_def)
  ultimately show ?thesis
    using j unfolding p_def [symmetric] Let_def
    by (auto simp: justified_def createPlacementAttempts_def dest: answer_fits_butlast)
qed

definition example_place_env :: place_env where
  "example_place_env = \<lparr>pe_pick = (\<lambda>_ _. Inl ErrNoRunners),
     pe_create = (\<lambda>_ run. if rn_ID run = ''c'' then Inr \<lparr>cr_ContainerIP = ''10.0.0.9'', cr_AppliedCreateOptionsJson = []\<rparr>
        else Inl (CapacityRefusal True ''full'')),
     pe_elapsed = (\<lambda>_. 0), pe_clientGone = (\<lambda>_. False)\<rparr>"

text \<open>The first choice refuses and the second takes the sandbox.\<close>

theorem placement_calls_witness:
  "map (rn_ID \<circ> fst) (pl_calls (placeSandbox (memory_env (\<lambda>_. (7, example_registry)) example_place_env))) = [''b'', ''c''] \<and>
   list_all refused (butlast (pl_calls (placeSandbox (memory_env (\<lambda>_. (7, example_registry)) example_place_env))))"
proof
  show "map (rn_ID \<circ> fst) (pl_calls (placeSandbox (memory_env (\<lambda>_. (7, example_registry)) example_place_env))) = [''b'', ''c'']"
    by (simp add: placeSandbox_def place_loop.simps memory_env_def example_place_env_def example_registry_defs
        PickLowestUsed_def eligibleLocked_def run_eligible_def List.map_filter_def timeSub_def better_def
        CapacityRefusal_def rpc_error_def createPlacementAttempts_def createPlacementBudget_def Let_def)
  show "list_all refused (butlast (pl_calls (placeSandbox (memory_env (\<lambda>_. (7, example_registry)) example_place_env))))"
    using placement_calls [of "\<lambda>_. (7, example_registry)" example_place_env] by (simp add: Let_def list_all_iff)
qed

text \<open>
  Claim C23. The two errors that tell the client to retry mean that nothing was created: every
  runner that was called refused for capacity. With a runner left to try, budget and a client,
  the capacity error further means that every runner the registry would have offered refused.
\<close>

theorem no_capacity_means_nothing_created:
  assumes "pl_answer (placeSandbox (memory_env reg e)) = Inl err" and "placeErr_noCapacity err"
  shows "let p = placeSandbox (memory_env reg e) in (\<forall>a \<in> set (pl_calls p). refused a) \<and>
    (may_continue (memory_env reg e) (length (pl_calls p)) \<longrightarrow>
      (\<forall>run \<in> set (case reg (length (pl_calls p)) of (now, r) \<Rightarrow> eligibleLocked now r).
         \<exists>a \<in> set (pl_calls p). rn_ID (fst a) = rn_ID run \<and> refused a))"
proof -
  define p where "p = placeSandbox (memory_env reg e)"
  note ans = assms(1) [folded p_def]
  have j: "justified (memory_env reg e) p" unfolding p_def by (rule placeSandbox_justified)
  consider "err = PlaceNoRunners" | "err = PlaceAtCapacity" using assms(2) by (auto simp: placeErr_noCapacity_def)
  then show ?thesis
  proof cases
    case 1
    with j ans have none: "pl_calls p = []" "pe_pick (memory_env reg e) 0 [] = Inl ErrNoRunners"
      by (auto simp: justified_def)
    obtain now r where reg: "reg 0 = (now, r)" by (cases "reg 0")
    with none(2) have "PickLowestUsed now [] r = Inl ErrNoRunners" by (simp add: memory_env_def)
    then have "set (eligibleLocked now r) = {}" by (auto dest: PickLowestUsed_Inl)
    then show ?thesis using none(1) reg by (simp add: p_def [symmetric])
  next
    case 2
    obtain now r where reg: "reg (length (pl_calls p)) = (now, r)" by (cases "reg (length (pl_calls p))")
    have "\<exists>a \<in> set (pl_calls p). rn_ID (fst a) = rn_ID run \<and> refused a"
      if "may_continue (memory_env reg e) (length (pl_calls p))" "run \<in> set (eligibleLocked now r)" for run
      using memory.capacity_means_all_refused [OF j memory_env_pick] 2 ans reg that by simp
    with 2 j ans reg show ?thesis by (simp add: justified_def p_def [symmetric])
  qed
qed

text \<open>Two runners, both of which refuse: two calls and the capacity error.\<close>

definition example_two_runners :: MemoryRegistry where
  "example_two_runners = reg_run [RegUpsert 0 (example_report ''b'' 1), RegUpsert 0 (example_report ''a'' 2)] (NewMemory 0)"

theorem no_capacity_means_nothing_created_witness:
  "pl_answer (placeSandbox (memory_env (\<lambda>_. (7, example_two_runners)) example_place_env)) = Inl PlaceAtCapacity \<and>
   map (rn_ID \<circ> fst) (pl_calls (placeSandbox (memory_env (\<lambda>_. (7, example_two_runners)) example_place_env))) = [''b'', ''a''] \<and>
   list_all refused (pl_calls (placeSandbox (memory_env (\<lambda>_. (7, example_two_runners)) example_place_env)))"
proof -
  have run: "placeSandbox (memory_env (\<lambda>_. (7, example_two_runners)) example_place_env) =
      exhausted [(reported_runner 0 (example_report ''b'' 1), Inl (CapacityRefusal True ''full'')),
                 (reported_runner 0 (example_report ''a'' 2), Inl (CapacityRefusal True ''full''))]"
    by (simp add: placeSandbox_def place_loop.simps memory_env_def example_place_env_def example_two_runners_def
        example_report_def NewMemory_def default_grace_def Upsert_def reported_runner_def trimRight_def trimSpace_def
        isSpace_def PickLowestUsed_def eligibleLocked_def run_eligible_def List.map_filter_def timeSub_def better_def
        CapacityRefusal_def rpc_error_def createPlacementAttempts_def createPlacementBudget_def Let_def)
  have ans: "pl_answer (placeSandbox (memory_env (\<lambda>_. (7, example_two_runners)) example_place_env)) = Inl PlaceAtCapacity"
    unfolding run by (simp add: exhausted_def)
  have "list_all refused (pl_calls (placeSandbox (memory_env (\<lambda>_. (7, example_two_runners)) example_place_env)))"
    using no_capacity_means_nothing_created [OF ans] by (simp add: placeErr_noCapacity_def Let_def list_all_iff)
  with ans show ?thesis unfolding run by (simp add: exhausted_def reported_runner_def example_report_def)
qed

end
