(* ===== verification/Idle_Policy.thy ===== *)
theory Idle_Policy
  imports Sandbox_Store
begin

text \<open>
  The idle windows, shared by the request path (\<open>isPastIdleDeleteWindow\<close> in
  \<open>internal/api/handlers.go\<close>) and the sweeper (\<open>internal/api/ttl.go\<close>): rounding to seconds, which
  window applies, and the cutoffs. Durations and times are int64, so sums are wrapped.
\<close>

record idle_config =
  ic_IdleStopAfter :: duration
  ic_IdleDeleteAfter :: duration
  ic_IdleDeleteSafetyBuffer :: duration
  ic_OrphanReapBuffer :: duration
  ic_IdleSweepConcurrency :: int

text \<open>What \<open>LoadAPI\<close> does to the safety buffer after reading the three durations.\<close>

definition default_safety_buffer :: "idle_config \<Rightarrow> idle_config" where
  "default_safety_buffer cfg =
     (if (ic_IdleDeleteAfter cfg > 0 \<or> ic_IdleStopAfter cfg > 0) \<and> ic_IdleDeleteSafetyBuffer cfg \<le> 0
      then cfg\<lparr>ic_IdleDeleteSafetyBuffer := 60 * second_ns\<rparr> else cfg)"

definition orphanReapBuffer :: "idle_config \<Rightarrow> duration" where
  "orphanReapBuffer cfg = (if ic_OrphanReapBuffer cfg \<le> 0 then 5 * 60 * second_ns else ic_OrphanReapBuffer cfg)"

definition sweepConcurrency :: "idle_config \<Rightarrow> int" where
  "sweepConcurrency cfg = (if ic_IdleSweepConcurrency cfg \<le> 0 then 1 else ic_IdleSweepConcurrency cfg)"

text \<open>Go's \<open>/\<close> and \<open>%\<close> truncate towards zero.\<close>

definition idleSeconds :: "duration \<Rightarrow> int" where
  "idleSeconds d =
     (let secs = d sdiv second_ns in if d smod second_ns \<noteq> 0 then wrap64 (secs + 1) else secs)"

definition ephemeralIdleWindow :: "idle_config \<Rightarrow> duration" where
  "ephemeralIdleWindow cfg = (if ic_IdleStopAfter cfg > 0 then ic_IdleStopAfter cfg else ic_IdleDeleteAfter cfg)"

definition isPastIdleDeleteWindow :: "SandboxRecord \<Rightarrow> idle_config \<Rightarrow> int \<Rightarrow> bool" where
  "isPastIdleDeleteWindow rec cfg now =
     (let window = (if sb_Ephemeral rec then ephemeralIdleWindow cfg else ic_IdleDeleteAfter cfg) in
      window > 0 \<and> now > wrap64 (sb_LastActiveAt rec + idleSeconds window))"

text \<open>The cutoffs of the three sweeps; a row is due when it was last active at or before its cutoff.\<close>

definition stopCutoff :: "idle_config \<Rightarrow> int \<Rightarrow> int" where
  "stopCutoff cfg now = wrap64 (now - idleSeconds (ic_IdleStopAfter cfg))"

definition deleteCutoff :: "idle_config \<Rightarrow> int \<Rightarrow> int" where
  "deleteCutoff cfg now =
     wrap64 (wrap64 (now - idleSeconds (ic_IdleDeleteAfter cfg)) - idleSeconds (ic_IdleDeleteSafetyBuffer cfg))"

definition ephemeralCutoff :: "idle_config \<Rightarrow> int \<Rightarrow> int" where
  "ephemeralCutoff cfg now =
     wrap64 (wrap64 (now - idleSeconds (ephemeralIdleWindow cfg)) - idleSeconds (ic_IdleDeleteSafetyBuffer cfg))"

text \<open>The predicates the three sweeps recheck on the fresh record under the sandbox lock.\<close>

definition stop_due :: "idle_config \<Rightarrow> int \<Rightarrow> SandboxRecord \<Rightarrow> bool" where
  "stop_due cfg now rec \<longleftrightarrow> \<not> (sb_Status rec \<noteq> ''running'' \<or> sb_LastActiveAt rec > stopCutoff cfg now)"

definition delete_due :: "idle_config \<Rightarrow> int \<Rightarrow> SandboxRecord \<Rightarrow> bool" where
  "delete_due cfg now rec \<longleftrightarrow> \<not> (sb_Status rec \<noteq> ''stopped'' \<or> sb_LastActiveAt rec > deleteCutoff cfg now)"

definition ephemeral_due :: "idle_config \<Rightarrow> int \<Rightarrow> SandboxRecord \<Rightarrow> bool" where
  "ephemeral_due cfg now rec \<longleftrightarrow> \<not> (sb_Status rec \<noteq> ''running'' \<or> sb_LastActiveAt rec > ephemeralCutoff cfg now)"

section \<open>Rounding\<close>

lemma ceil_div:
  fixes d n :: int
  assumes "0 < n"
  shows "(d + (n - 1)) div n = d div n + (if d mod n = 0 then 0 else 1)"
proof -
  have "d + (n - 1) = (d mod n + (n - 1)) + d div n * n" using div_mult_mod_eq [of d n] by simp
  then have "(d + (n - 1)) div n = d div n + (d mod n + (n - 1)) div n"
    using assms by (metis add.commute div_mult_self1 less_irrefl)
  moreover have "(d mod n + (n - 1)) div n = 1" if "d mod n \<noteq> 0"
  proof (rule int_div_pos_eq [of _ _ _ "d mod n - 1"])
    show "0 \<le> d mod n - 1" using pos_mod_sign [OF assms, of d] that by linarith
    show "d mod n - 1 < n" using pos_mod_bound [OF assms, of d] by linarith
  qed simp
  moreover have "(n - 1) div n = 0" using assms by (intro div_pos_pos_trivial) auto
  ultimately show ?thesis by auto
qed

lemma idleSeconds_nonneg_eq:
  assumes "0 \<le> d" and "d < 2 ^ 63"
  shows "idleSeconds d = (d + (second_ns - 1)) div second_ns"
proof -
  have "d sdiv second_ns = d div second_ns" "d smod second_ns = d mod second_ns"
    using assms by (simp_all add: signed_divide_int_def signed_modulo_int_def sgn_if minus_mult_div_eq_mod [symmetric] algebra_simps)
  moreover have "in_int64 (d div second_ns + 1)" using assms by auto
  moreover have "(d + (second_ns - 1)) div second_ns = d div second_ns + (if d mod second_ns = 0 then 0 else 1)"
    by (rule ceil_div) simp
  ultimately show ?thesis by (auto simp: idleSeconds_def Let_def)
qed

lemma idleSeconds_bounds:
  assumes "0 \<le> d" and "d < 2 ^ 63"
  shows "d \<le> idleSeconds d * second_ns" and "idleSeconds d * second_ns < d + second_ns"
    and "0 \<le> idleSeconds d" and "idleSeconds d \<le> 10 ^ 10" and "0 < d \<Longrightarrow> 0 < idleSeconds d"
  using assms by (auto simp: idleSeconds_nonneg_eq)

section \<open>Claims\<close>

text \<open>
  \<open>idleSeconds\<close> rounds any non-negative duration up: the seconds cover the duration, by
  less than one second too much, are positive for a positive duration, and never overflow, the
  largest duration included.
\<close>

theorem idleSeconds_rounds_up:
  assumes "0 \<le> d" and "d < 2 ^ 63"
  shows "d \<le> idleSeconds d * second_ns \<and> idleSeconds d * second_ns < d + second_ns \<and>
    in_int64 (idleSeconds d) \<and> (0 < d \<longrightarrow> 0 < idleSeconds d)"
  using idleSeconds_bounds [OF assms] by auto

theorem idleSeconds_rounds_up_witness:
  "idleSeconds (2 ^ 63 - 1) = 9223372037 \<and> in_int64 (idleSeconds (2 ^ 63 - 1))"
  using idleSeconds_rounds_up [of "2 ^ 63 - 1"] by (simp add: idleSeconds_nonneg_eq)

text \<open>A configuration the API runs with, and times far from the ends of int64.\<close>

definition idle_config_ok :: "idle_config \<Rightarrow> bool" where
  "idle_config_ok cfg \<longleftrightarrow>
     (\<forall>d \<in> {ic_IdleStopAfter cfg, ic_IdleDeleteAfter cfg, ic_IdleDeleteSafetyBuffer cfg}. 0 \<le> d \<and> d < 2 ^ 63)"

definition plausible_time :: "int \<Rightarrow> bool" where
  "plausible_time t \<longleftrightarrow> 0 \<le> t \<and> t < 2 ^ 62"

lemma idle_config_ok_buffer:
  "idle_config_ok cfg \<Longrightarrow> idle_config_ok (default_safety_buffer cfg)"
  by (auto simp: idle_config_ok_def default_safety_buffer_def)

lemma buffer_positive:
  "0 < ic_IdleDeleteAfter cfg \<or> 0 < ic_IdleStopAfter cfg \<Longrightarrow>
   0 < ic_IdleDeleteSafetyBuffer (default_safety_buffer cfg)"
  by (auto simp: default_safety_buffer_def)

lemma cutoff_fence:
  assumes "0 < w" "w < 2 ^ 63" and "0 < b" "b < 2 ^ 63" and "plausible_time now" "plausible_time l"
    and "l \<le> wrap64 (wrap64 (now - idleSeconds w) - idleSeconds b)"
  shows "wrap64 (l + idleSeconds w) \<le> now - idleSeconds b"
proof -
  have w: "0 < idleSeconds w" "idleSeconds w \<le> 10 ^ 10" and b: "0 < idleSeconds b" "idleSeconds b \<le> 10 ^ 10"
    using assms idleSeconds_bounds by auto
  then have "wrap64 (now - idleSeconds w) = now - idleSeconds w"
    "wrap64 (now - idleSeconds w - idleSeconds b) = now - idleSeconds w - idleSeconds b"
    "wrap64 (l + idleSeconds w) = l + idleSeconds w"
    using assms(5,6) by (auto simp: plausible_time_def intro!: wrap64_id)
  with assms(7) b show ?thesis by simp
qed

text \<open>A row that an idle delete or an ephemeral sweep takes: it is due, and that sweep is enabled.\<close>

definition reap_due :: "idle_config \<Rightarrow> int \<Rightarrow> SandboxRecord \<Rightarrow> bool" where
  "reap_due cfg now rec \<longleftrightarrow>
     (sb_Ephemeral rec \<and> ephemeralIdleWindow cfg > 0 \<and> ephemeral_due cfg now rec) \<or>
     (\<not> sb_Ephemeral rec \<and> ic_IdleDeleteAfter cfg > 0 \<and> delete_due cfg now rec)"

lemma reap_due_buffer:
  assumes "idle_config_ok cfg0" "cfg = default_safety_buffer cfg0" "reap_due cfg now rec"
  shows "0 < ic_IdleDeleteSafetyBuffer cfg" "ic_IdleDeleteSafetyBuffer cfg < 2 ^ 63"
proof -
  have "0 < ic_IdleDeleteAfter cfg \<or> 0 < ic_IdleStopAfter cfg"
    using assms(3) by (auto simp: reap_due_def ephemeralIdleWindow_def split: if_splits)
  then show "0 < ic_IdleDeleteSafetyBuffer cfg" "ic_IdleDeleteSafetyBuffer cfg < 2 ^ 63"
    using assms(2) buffer_positive [of cfg0] idle_config_ok_buffer [OF assms(1)]
    by (auto simp: idle_config_ok_def default_safety_buffer_def split: if_splits)
qed

lemma reap_due_fenced:
  assumes "idle_config_ok cfg0" and "cfg = default_safety_buffer cfg0"
    and "plausible_time now" and "plausible_time (sb_LastActiveAt rec)" and "reap_due cfg now rec"
    and "now - idleSeconds (ic_IdleDeleteSafetyBuffer cfg) < t"
  shows "isPastIdleDeleteWindow rec cfg t"
proof -
  define w where "w = (if sb_Ephemeral rec then ephemeralIdleWindow cfg else ic_IdleDeleteAfter cfg)"
  have w: "0 < w" "w < 2 ^ 63"
    using assms(1,2,5) idle_config_ok_buffer [OF assms(1)]
    by (auto simp: w_def idle_config_ok_def ephemeralIdleWindow_def reap_due_def)
  have "sb_LastActiveAt rec \<le> wrap64 (wrap64 (now - idleSeconds w) - idleSeconds (ic_IdleDeleteSafetyBuffer cfg))"
    using assms(5) by (auto simp: w_def reap_due_def ephemeral_due_def delete_due_def ephemeralCutoff_def deleteCutoff_def)
  from cutoff_fence [OF w reap_due_buffer [OF assms(1,2,5)] assms(3,4) this] w(1) assms(6) show ?thesis
    by (simp add: isPastIdleDeleteWindow_def w_def [symmetric])
qed

lemma reap_due_fenced_later:
  assumes "idle_config_ok cfg0" "cfg = default_safety_buffer cfg0" "plausible_time now" "plausible_time (sb_LastActiveAt rec)"
    "reap_due cfg now rec" "now \<le> later"
  shows "isPastIdleDeleteWindow rec cfg later"
proof -
  have "0 < idleSeconds (ic_IdleDeleteSafetyBuffer cfg)" using idleSeconds_bounds(5) reap_due_buffer [OF assms(1,2,5)] by simp
  then show ?thesis using reap_due_fenced [OF assms(1-5), of later] assms(6) by simp
qed

text \<open>
  Claim C31. The fence is up before the idle delete: a row that the delete sweep or the ephemeral
  sweep finds due at \<open>now\<close> has been past its idle window for the whole safety buffer, which is at
  least a second, and stays so: at every moment from then on a request that reads this row is
  refused. The buffer is the one the API defaults to. It is about rows due for idleness, not about
  orphans; the durations are non-negative (\<open>idle_config_ok\<close>) and the clock and the last activity are
  far from the ends of int64 (\<open>plausible_time\<close>). Activity is recorded when a response starts, so a
  request that was let through earlier may still be streaming.
\<close>

theorem fence_before_delete:
  assumes "idle_config_ok cfg0" and "cfg = default_safety_buffer cfg0"
    and "plausible_time now" and "plausible_time (sb_LastActiveAt rec)" and "reap_due cfg now rec"
  shows "1 \<le> idleSeconds (ic_IdleDeleteSafetyBuffer cfg) \<and>
    (\<forall>t. now - idleSeconds (ic_IdleDeleteSafetyBuffer cfg) < t \<longrightarrow> isPastIdleDeleteWindow rec cfg t)"
proof -
  note b = reap_due_buffer [OF assms(1,2,5)]
  have "0 < idleSeconds (ic_IdleDeleteSafetyBuffer cfg)" using idleSeconds_bounds(5) b by simp
  then show ?thesis using reap_due_fenced [OF assms] by simp
qed

definition example_idle_config :: idle_config where
  "example_idle_config = \<lparr>ic_IdleStopAfter = 3600 * second_ns, ic_IdleDeleteAfter = 86400 * second_ns,
     ic_IdleDeleteSafetyBuffer = 0, ic_OrphanReapBuffer = 0, ic_IdleSweepConcurrency = 8\<rparr>"

lemma example_idle_config_ok: "idle_config_ok example_idle_config"
  by (simp add: idle_config_ok_def example_idle_config_def)

lemma example_idle_seconds [simp]:
  "idleSeconds 86400000000000 = 86400" "idleSeconds 60000000000 = 60" "idleSeconds 3600000000000 = 3600"
  by (simp_all add: idleSeconds_nonneg_eq)

theorem fence_before_delete_witness:
  "delete_due (default_safety_buffer example_idle_config) 100000 ((example_row ''a'' ''t1'')\<lparr>sb_Status := ''stopped''\<rparr>) \<and>
   isPastIdleDeleteWindow ((example_row ''a'' ''t1'')\<lparr>sb_Status := ''stopped''\<rparr>) (default_safety_buffer example_idle_config) 99941"
proof -
  let ?rec = "(example_row ''a'' ''t1'')\<lparr>sb_Status := ''stopped''\<rparr>" and ?cfg = "default_safety_buffer example_idle_config"
  have due: "delete_due ?cfg 100000 ?rec"
    by (simp add: delete_due_def deleteCutoff_def default_safety_buffer_def example_idle_config_def example_row_def)
  then have "reap_due ?cfg 100000 ?rec"
    by (simp add: reap_due_def example_row_def default_safety_buffer_def example_idle_config_def)
  from fence_before_delete [OF example_idle_config_ok refl _ _ this] have
    "isPastIdleDeleteWindow ?rec ?cfg t" if "100000 - idleSeconds (ic_IdleDeleteSafetyBuffer ?cfg) < t" for t
    using that by (simp add: plausible_time_def example_row_def)
  from this [of 99941] due show ?thesis by (simp add: default_safety_buffer_def example_idle_config_def)
qed

end
