(* ===== verification/Sandbox_Handlers.thy ===== *)
theory Sandbox_Handlers
  imports Auth Tenant_Quota Placement Idle_Policy
begin

text \<open>
  The sandbox routes of the API, \<open>internal/api/handlers.go\<close>, and the create options they exchange
  with runners (\<open>internal/runner/runtime/runtime.go\<close>). A handler takes the environment of its
  run (what the clock, the store's faults, the runners and the decoders answer), the request
  and the state of the API pod; it returns the response and the new state. Calls to runners are
  recorded in \<open>gw_calls\<close>. JSON decoding, URL parsing and random ids are parameters.
\<close>

section \<open>State and configuration\<close>

text \<open>What a proxied request carries to the runner.\<close>

record out_request =
  or_base :: string
  or_method :: string
  or_path :: string
  or_rawQuery :: string
  or_apiKey :: "string option"
  or_traceparent :: "string option"
  or_maxBytes :: "int option"

datatype runner_call =
    RpcCreate string string string
  | RpcDelete string string
  | RpcSetCordon string string bool
  | Forward out_request

record gateway =
  gw_db :: db
  gw_quota :: tenantQuota
  gw_cache :: "apiKeyCache option"
  gw_inflight :: KeyedLimiter
  gw_deletes :: KeyedLimiter
  gw_calls :: "runner_call list"
  gw_untracked :: "(string \<times> string \<times> string \<times> go_error) list"

record api_config =
  ac_idle :: idle_config
  ac_RunnerAPIKey :: string
  ac_MaxFileBytes :: int
  ac_DefaultMaxSandboxes :: int
  ac_HeartbeatGrace :: duration
  ac_ScalerURL :: string

definition call_runner :: "runner_call \<Rightarrow> gateway \<Rightarrow> gateway" where
  "call_runner c g = g\<lparr>gw_calls := gw_calls g @ [c]\<rparr>"

fun errText :: "store_error \<Rightarrow> string" where
  "errText ErrTenantHasSandboxes = ''tenant has sandboxes''"
| "errText ErrTenantNotFound = ''tenant not found''"
| "errText ErrTenantQuotaExceeded = ''tenant sandbox quota exceeded''"
| "errText ErrAPIKeyTenantMismatch = ''api key tenant_id does not match tenant''"
| "errText (ErrDB m) = m"

fun code_name :: "grpc_code \<Rightarrow> string" where
  "code_name CodeOK = ''OK''"
| "code_name Canceled = ''Canceled''"
| "code_name CodeUnknown = ''Unknown''"
| "code_name InvalidArgument = ''InvalidArgument''"
| "code_name DeadlineExceeded = ''DeadlineExceeded''"
| "code_name CodeNotFound = ''NotFound''"
| "code_name AlreadyExists = ''AlreadyExists''"
| "code_name PermissionDenied = ''PermissionDenied''"
| "code_name ResourceExhausted = ''ResourceExhausted''"
| "code_name FailedPrecondition = ''FailedPrecondition''"
| "code_name Aborted = ''Aborted''"
| "code_name OutOfRange = ''OutOfRange''"
| "code_name Unimplemented = ''Unimplemented''"
| "code_name CodeInternal = ''Internal''"
| "code_name Unavailable = ''Unavailable''"
| "code_name DataLoss = ''DataLoss''"
| "code_name Unauthenticated = ''Unauthenticated''"

fun go_errText :: "go_error \<Rightarrow> string" where
  "go_errText (StatusErr c m _) = ''rpc error: code = '' @ code_name c @ '' desc = '' @ m"
| "go_errText (PlainErr m) = m"

fun placeErrText :: "place_error \<Rightarrow> string" where
  "placeErrText PlaceNoRunners = ''no sandbox runners are registered or available''"
| "placeErrText (PlaceRegistry m) = m"
| "placeErrText (PlaceRunner e) = ''failed to create container: '' @ go_errText e"
| "placeErrText PlaceAtCapacity = ''sandbox runners are at capacity''"

definition writeNoCapacity :: "place_error \<Rightarrow> response" where
  "writeNoCapacity e = (writeErrorReason 503 (placeErrText e) reasonNoCapacity)\<lparr>rs_retryAfter := Some capacityRetryAfter\<rparr>"

section \<open>Ids\<close>

definition lowerHex :: "char \<Rightarrow> bool" where
  "lowerHex c \<longleftrightarrow> c \<in> set ''0123456789abcdef''"

definition uuidRegex :: "string \<Rightarrow> bool" where
  "uuidRegex s \<longleftrightarrow> length s = 36 \<and>
     list_all (\<lambda>(i, c). if i \<in> {8, 13, 18, 23} then c = CHR ''-'' else lowerHex c) (enumerate 0 s)"

definition isValidUUID :: "string \<Rightarrow> bool" where
  "isValidUUID i \<longleftrightarrow> i \<noteq> [] \<and> uuidRegex i"

section \<open>Create options\<close>

text \<open>
  The verb \<open>%q\<close>. Bytes above 127 belong to runes of the decoded UTF-8 text and are kept, as they are
  for printable ones.
\<close>

definition quoteByte :: "char \<Rightarrow> string" where
  "quoteByte c =
     (if c = CHR 0x22 then [CHR 0x5C, CHR 0x22]
      else if c = CHR 0x5C then [CHR 0x5C, CHR 0x5C]
      else if c = CHR 0x07 then [CHR 0x5C, CHR ''a'']
      else if c = CHR 0x08 then [CHR 0x5C, CHR ''b'']
      else if c = CHR 0x0C then [CHR 0x5C, CHR ''f'']
      else if c = CHR 0x0A then [CHR 0x5C, CHR ''n'']
      else if c = CHR 0x0D then [CHR 0x5C, CHR ''r'']
      else if c = CHR 0x09 then [CHR 0x5C, CHR ''t'']
      else if c = CHR 0x0B then [CHR 0x5C, CHR ''v'']
      else let n = of_char c :: nat in
        if n < 32 \<or> n = 127 then [CHR 0x5C, CHR ''x'', hexDigit (n div 16), hexDigit (n mod 16)]
        else [c])"

definition goQuote :: "string \<Rightarrow> string" where
  "goQuote s = CHR 0x22 # concat (map quoteByte s) @ [CHR 0x22]"

definition ParseEgress :: "string \<Rightarrow> string + string" where
  "ParseEgress s =
     (if s = [] \<or> s = ''public'' then Inr ''public''
      else if s = ''none'' then Inr ''none''
      else Inl (''invalid egress '' @ goQuote s @ '': must be '' @ goQuote ''public'' @ '' or '' @ goQuote ''none''))"

text \<open>What \<open>json.Unmarshal\<close> into the options makes of a text: an error, null, or an object's egress field.\<close>

datatype json_options = JsonErr string | JsonNull | JsonEgress string

definition ParseCreateOptions :: "(string \<Rightarrow> json_options) \<Rightarrow> string \<Rightarrow> string + string" where
  "ParseCreateOptions json s =
     (if trimSpace s = [] then ParseEgress []
      else case json s of
             JsonErr e \<Rightarrow> Inl e
           | JsonNull \<Rightarrow> Inl ''create options: null''
           | JsonEgress e \<Rightarrow> ParseEgress e)"

text \<open>The runner's side of the options: whether the guest gets no egress. \<open>None\<close> is the panic.\<close>

definition BlockEgress :: "string option \<Rightarrow> bool option" where
  "BlockEgress opts =
     (case opts of
        None \<Rightarrow> Some False
      | Some e \<Rightarrow> if e = [] \<or> e = ''public'' then Some False else if e = ''none'' then Some True else None)"

text \<open>\<open>json.Marshal\<close> of the options; the modes need no escaping.\<close>

definition marshalCreateOptions :: "string \<Rightarrow> string" where
  "marshalCreateOptions egress =
     (if egress = [] then ''{}''
      else ''{'' @ goQuote ''egress'' @ '':'' @ goQuote egress @ ''}'')"

section \<open>Reading\<close>

definition sandboxResponse :: "SandboxRecord \<Rightarrow> SandboxResponse" where
  "sandboxResponse rec =
     (let tenantID = (if IsAdminTenantID (sb_TenantID rec) then AdminTenantID else sb_TenantID rec) in
      \<lparr>sr_ID = sb_ID rec, sr_Status = sb_Status rec, sr_CreatedAt = sb_CreatedAt rec,
       sr_LastActiveAt = sb_LastActiveAt rec, sr_Ephemeral = sb_Ephemeral rec, sr_Egress = sb_Egress rec,
       sr_TenantID = tenantID\<rparr>)"

definition listTenantFilter :: "request \<Rightarrow> authRole \<Rightarrow> response + string" where
  "listTenantFilter r role =
     (let vals = rq_tenantIDs r in
      if length vals = 0 then Inr []
      else if role \<noteq> roleAdmin then Inl (writeError 403 ''filtering by tenant_id requires an admin API key'')
      else if length vals \<noteq> 1 then Inl (writeError 400 ''tenant_id may be given once'')
      else let tenantID = hd vals in
        if tenantID = AdminTenantID then Inr tenantID
        else if \<not> isValidUUID tenantID
        then Inl (writeError 400 (''invalid tenant_id: expected a tenant UUID or '' @ AdminTenantID))
        else Inr tenantID)"

definition handleListSandboxes :: "fault \<Rightarrow> request \<Rightarrow> gateway \<Rightarrow> response \<times> gateway" where
  "handleListSandboxes f r g =
     (case rq_auth r of
        None \<Rightarrow> (writeError 401 ''invalid API key'', g)
      | Some i \<Rightarrow>
          if ai_Role i \<noteq> roleAdmin \<and> ai_Role i \<noteq> roleTenant
          then (writeError 403 ''sandbox access requires an admin or tenant API key'', g)
          else (case listTenantFilter r (ai_Role i) of
                  Inl resp \<Rightarrow> (resp, g)
                | Inr filt \<Rightarrow>
                    (case (if ai_Role i = roleTenant then ListByTenant f (ai_TenantID i) (gw_db g)
                           else if filt \<noteq> [] then ListByTenant f filt (gw_db g)
                           else ListSandboxes f (gw_db g)) of
                       Inl e \<Rightarrow> (writeError 500 (errText e), g)
                     | Inr recs \<Rightarrow> (writeJSON 200 (SandboxesBody (map sandboxResponse recs)), g))))"

definition handleGetSandbox :: "api_config \<Rightarrow> fault \<Rightarrow> unix_time \<Rightarrow> string \<Rightarrow> request \<Rightarrow> gateway \<Rightarrow> response \<times> gateway" where
  "handleGetSandbox cfg f now i r g =
     (if \<not> isValidUUID i then (writeError 400 ''invalid sandbox id'', g)
      else case Get f i (gw_db g) of
             Inl e \<Rightarrow> (writeError 500 (errText e), g)
           | Inr None \<Rightarrow> (writeError 404 ''sandbox not found'', g)
           | Inr (Some rec) \<Rightarrow>
               if \<not> canAccessSandbox r rec then (writeError 404 ''sandbox not found'', g)
               else if isPastIdleDeleteWindow rec (ac_idle cfg) now then (writeError 404 ''sandbox not found'', g)
               else (writeJSON 200 (SandboxBody (sandboxResponse rec)), g))"

section \<open>Deleting\<close>

text \<open>The answers of the runner and the store to a delete.\<close>

record delete_env =
  dx_lock :: "store_error option"
  dx_get :: fault
  dx_rpc :: "go_error option"
  dx_row :: fault

definition deleteSandboxRecord :: "go_error option \<Rightarrow> fault \<Rightarrow> SandboxRecord \<Rightarrow> gateway \<Rightarrow> response option \<times> gateway" where
  "deleteSandboxRecord rpc f rec g =
     (let g1 = call_runner (RpcDelete (sb_RunnerControlGRPCAddr rec) (sb_ID rec)) g in
      case rpc of
        Some e \<Rightarrow> (Some (writeError 502 (''failed to delete container: '' @ go_errText e)), g1)
      | None \<Rightarrow>
          (case Delete f (sb_ID rec) (gw_db g1) of
             (Some e, s') \<Rightarrow> (Some (writeError 500 (errText e)), g1\<lparr>gw_db := s'\<rparr>)
           | (None, s') \<Rightarrow> (None, g1\<lparr>gw_db := s'\<rparr>)))"

definition handleDeleteSandbox :: "delete_env \<Rightarrow> string \<Rightarrow> request \<Rightarrow> gateway \<Rightarrow> response \<times> gateway" where
  "handleDeleteSandbox x i r g =
     (if \<not> isValidUUID i then (writeError 400 ''invalid sandbox id'', g)
      else case dx_lock x of
        Some e \<Rightarrow> (writeError 500 (errText e), g)
      | None \<Rightarrow>
          (case Get (dx_get x) i (gw_db g) of
             Inl e \<Rightarrow> (writeError 500 (errText e), g)
           | Inr None \<Rightarrow> (writeError 404 ''sandbox not found'', g)
           | Inr (Some rec) \<Rightarrow>
               if \<not> canAccessSandbox r rec then (writeError 404 ''sandbox not found'', g)
               else (case deleteSandboxRecord (dx_rpc x) (dx_row x) rec g of
                       (Some resp, g') \<Rightarrow> (resp, g')
                     | (None, g') \<Rightarrow> (writeHeader 204, g'))))"

section \<open>Creating\<close>

record createSandboxRequest =
  cq_ID :: "string option"
  cq_Ephemeral :: bool
  cq_Egress :: "string option"

datatype decoded = DecodeErr | DecodeEOF | DecodeOk createSandboxRequest

text \<open>
  What one create meets: the decoder, the random id, the faults of its store calls, the clock, the
  runners, and what other requests and other pods do to the store and to the quota counters while
  this one counts (\<open>cx_others\<close>) and while it waits for a runner (\<open>cx_meanwhile\<close>).
\<close>

record create_env =
  cx_decode :: decoded
  cx_trailingEOF :: bool
  cx_uuid :: string
  cx_lock :: "store_error option"
  cx_get :: fault
  cx_checkNow :: unix_time
  cx_stale_rpc :: "go_error option"
  cx_stale_row :: fault
  cx_tenant :: fault
  cx_count :: "nat \<Rightarrow> fault"
  cx_others :: "nat \<Rightarrow> tenantQuota \<Rightarrow> tenantQuota"
  cx_now :: unix_time
  cx_place :: place_env
  cx_meanwhile_db :: "db \<Rightarrow> db"
  cx_meanwhile_quota :: "tenantQuota \<Rightarrow> tenantQuota"
  cx_json :: "string \<Rightarrow> json_options"
  cx_create :: create_faults
  cx_rollback :: "go_error option"
  cx_reget :: fault

definition writeExistingSandbox :: "SandboxRecord \<Rightarrow> string \<Rightarrow> bool \<Rightarrow> response" where
  "writeExistingSandbox existing egress egressGiven =
     (if egressGiven \<and> egress \<noteq> sb_Egress existing
      then writeError 409 (''sandbox exists with egress '' @ sb_Egress existing)
      else writeJSON 200 (SandboxBody (sandboxResponse existing)))"

definition releaseQuota :: "bool \<Rightarrow> release_handle \<times> gateway \<Rightarrow> release_handle \<times> gateway" where
  "releaseQuota saved hg =
     (case release (fst hg) saved (gw_quota (snd hg)) of (h, q) \<Rightarrow> (h, (snd hg)\<lparr>gw_quota := q\<rparr>))"

definition new_record :: "create_env \<Rightarrow> createSandboxRequest \<Rightarrow> string \<Rightarrow> string \<Rightarrow> string \<Rightarrow> Runner \<Rightarrow>
    create_response \<Rightarrow> SandboxRecord" where
  "new_record x req egress tenantID sandboxID run gresp =
     \<lparr>sb_ID = sandboxID, sb_Status = ''running'', sb_CreatedAt = cx_now x, sb_LastActiveAt = cx_now x,
      sb_RootfsPath = [], sb_SocketPath = [], sb_ContainerIP = cr_ContainerIP gresp, sb_DaemonPort = 8081,
      sb_RunnerID = rn_ID run, sb_RunnerHTTPBase = trimRight (rn_HTTPBaseURL run) (CHR ''/''),
      sb_RunnerControlGRPCAddr = rn_ControlGRPCAddr run, sb_TenantID = tenantID,
      sb_Ephemeral = cq_Ephemeral req, sb_Egress = egress\<rparr>"

text \<open>
  The compensating delete of a create that is not tracked. It may fail (\<open>cx_rollback\<close>): then the
  sandbox stays on the runner and the error log names it, with its runner.
\<close>

definition rollbackRunnerCreate :: "create_env \<Rightarrow> string \<Rightarrow> Runner \<Rightarrow> gateway \<Rightarrow> gateway" where
  "rollbackRunnerCreate x sandboxID run g =
     (let controlAddr = rn_ControlGRPCAddr run; g1 = call_runner (RpcDelete controlAddr sandboxID) g in
      case cx_rollback x of
        None \<Rightarrow> g1
      | Some delErr \<Rightarrow> g1\<lparr>gw_untracked := gw_untracked g1 @ [(sandboxID, rn_ID run, controlAddr, delErr)]\<rparr>)"

text \<open>From the runner's answer on: the options check, the save, and its compensation.\<close>

definition create_save :: "create_env \<Rightarrow> request \<Rightarrow> createSandboxRequest \<Rightarrow> string \<Rightarrow> string \<Rightarrow> string \<Rightarrow> Runner \<Rightarrow>
    create_response \<Rightarrow> release_handle \<times> gateway \<Rightarrow> response \<times> release_handle \<times> gateway" where
  "create_save x r req egress tenantID sandboxID run gresp hg =
     (let rollback = rollbackRunnerCreate x sandboxID run; (h, g) = hg in
      if ParseCreateOptions (cx_json x) (cr_AppliedCreateOptionsJson gresp) \<noteq> Inr egress
      then (writeError 502 ''runner did not apply the requested egress'', h, rollback g)
      else
        (let record = new_record x req egress tenantID sandboxID run gresp in
         case Create (cx_create x) record (gw_db g) of
           (None, s') \<Rightarrow>
             (writeJSON 201 (SandboxBody (sandboxResponse record)), releaseQuota True (h, g\<lparr>gw_db := s'\<rparr>))
         | (Some err, s') \<Rightarrow>
             (let hg2 = releaseQuota (err \<noteq> ErrTenantQuotaExceeded \<and> err \<noteq> ErrTenantNotFound)
                          (h, rollback (g\<lparr>gw_db := s'\<rparr>)) in
              case Get (cx_reget x) sandboxID s' of
                Inr (Some existing) \<Rightarrow>
                  (if \<not> canAccessSandbox r existing then writeError 409 ''sandbox id unavailable''
                   else writeExistingSandbox existing egress (cq_Egress req \<noteq> None), hg2)
              | _ \<Rightarrow>
                  (if err = ErrTenantQuotaExceeded then writeError 403 ''tenant sandbox quota exceeded''
                   else if err = ErrTenantNotFound then writeError 409 ''tenant not found''
                   else writeError 500 (''failed to store sandbox: '' @ errText err), hg2))))"

definition place_calls :: "string \<Rightarrow> string \<Rightarrow> attempt list \<Rightarrow> runner_call list" where
  "place_calls sandboxID options as = map (\<lambda>(run, _). RpcCreate (rn_ControlGRPCAddr run) sandboxID options) as"

definition create_place :: "create_env \<Rightarrow> request \<Rightarrow> createSandboxRequest \<Rightarrow> string \<Rightarrow> string \<Rightarrow> string \<Rightarrow>
    release_handle \<times> gateway \<Rightarrow> response \<times> release_handle \<times> gateway" where
  "create_place x r req egress tenantID sandboxID hg =
     (let p = placeSandbox (cx_place x); (h, g) = hg;
          g1 = g\<lparr>gw_calls := gw_calls g @ place_calls sandboxID (marshalCreateOptions egress) (pl_calls p),
                 gw_db := cx_meanwhile_db x (gw_db g), gw_quota := cx_meanwhile_quota x (gw_quota g)\<rparr>
      in
      case pl_answer p of
        Inl e \<Rightarrow> (if e = PlaceNoRunners \<or> e = PlaceAtCapacity then writeNoCapacity e
                  else writeError 500 (placeErrText e), h, g1)
      | Inr (run, gresp) \<Rightarrow> create_save x r req egress tenantID sandboxID run gresp (h, g1))"

text \<open>The tenant and its quota; the deferred \<open>releaseQuota(false)\<close> runs when the rest returns.\<close>

definition noQuota :: release_handle where
  "noQuota = \<lparr>rh_slot = None, rh_done = False\<rparr>"

definition create_deferred :: "response \<times> release_handle \<times> gateway \<Rightarrow> response \<times> gateway" where
  "create_deferred rhg = (fst rhg, snd (releaseQuota False (snd rhg)))"

definition create_tenant :: "create_env \<Rightarrow> request \<Rightarrow> authIdentity \<Rightarrow> createSandboxRequest \<Rightarrow> string \<Rightarrow> string \<Rightarrow>
    gateway \<Rightarrow> response \<times> gateway" where
  "create_tenant x r authID req egress sandboxID g =
     (if ai_Role authID \<noteq> roleTenant
      then create_deferred (create_place x r req egress AdminTenantID sandboxID (noQuota, g))
      else
        (let tenantID = ai_TenantID authID in
         case GetTenant (cx_tenant x) tenantID (gw_db g) of
           Inl e \<Rightarrow> (writeError 500 (errText e), g)
         | Inr None \<Rightarrow> (writeError 401 ''invalid API key'', g)
         | Inr (Some tenant) \<Rightarrow>
             (case reserve (\<lambda>k. CountByTenant (cx_count x k) tenantID (gw_db g)) (cx_others x) tenantID
                (tn_MaxSandboxes tenant) (gw_quota g) of
                (CountFailed e, q) \<Rightarrow> (writeError 500 (errText e), g\<lparr>gw_quota := q\<rparr>)
              | (QuotaFull, q) \<Rightarrow> (writeError 403 ''tenant sandbox quota exceeded'', g\<lparr>gw_quota := q\<rparr>)
              | (Reserved h, q) \<Rightarrow>
                  create_deferred (create_place x r req egress tenantID sandboxID (h, g\<lparr>gw_quota := q\<rparr>)))))"

text \<open>A create that names its id: under the id's lock, an existing sandbox is answered or cleared away.\<close>

definition create_named :: "api_config \<Rightarrow> create_env \<Rightarrow> request \<Rightarrow> createSandboxRequest \<Rightarrow> string \<Rightarrow> string \<Rightarrow>
    gateway \<Rightarrow> response option \<times> gateway" where
  "create_named cfg x r req egress i g =
     (if \<not> isValidUUID i then (Some (writeError 400 ''invalid sandbox id''), g)
      else case cx_lock x of
        Some e \<Rightarrow> (Some (writeError 500 (errText e)), g)
      | None \<Rightarrow>
          (case Get (cx_get x) i (gw_db g) of
             Inl e \<Rightarrow> (Some (writeError 500 (errText e)), g)
           | Inr None \<Rightarrow> (None, g)
           | Inr (Some existing) \<Rightarrow>
               if \<not> canAccessSandbox r existing then (Some (writeError 409 ''sandbox id unavailable''), g)
               else if \<not> isPastIdleDeleteWindow existing (ac_idle cfg) (cx_checkNow x)
               then (Some (writeExistingSandbox existing egress (cq_Egress req \<noteq> None)), g)
               else deleteSandboxRecord (cx_stale_rpc x) (cx_stale_row x) existing g))"

definition zero_request :: createSandboxRequest where
  "zero_request = \<lparr>cq_ID = None, cq_Ephemeral = False, cq_Egress = None\<rparr>"

definition create_body :: "create_env \<Rightarrow> response + createSandboxRequest \<times> string" where
  "create_body x =
     (let bad = writeError 400 ''invalid request body'' in
      case cx_decode x of
        DecodeErr \<Rightarrow> Inl bad
      | d \<Rightarrow>
          (let req = (case d of DecodeOk q \<Rightarrow> q | _ \<Rightarrow> zero_request) in
           if \<not> cx_trailingEOF x then Inl bad
           else case ParseEgress (case cq_Egress req of None \<Rightarrow> [] | Some e \<Rightarrow> e) of
                  Inl e \<Rightarrow> Inl (writeError 400 e)
                | Inr egress \<Rightarrow> Inr (req, egress)))"

definition handleCreateSandbox :: "api_config \<Rightarrow> create_env \<Rightarrow> request \<Rightarrow> gateway \<Rightarrow> response \<times> gateway" where
  "handleCreateSandbox cfg x r g =
     (case rq_auth r of
        None \<Rightarrow> (writeError 401 ''invalid API key'', g)
      | Some authID \<Rightarrow>
          if ai_Role authID \<noteq> roleAdmin \<and> ai_Role authID \<noteq> roleTenant
          then (writeError 403 ''sandbox access requires an admin or tenant API key'', g)
          else (case create_body x of
                  Inl resp \<Rightarrow> (resp, g)
                | Inr (req, egress) \<Rightarrow>
                    (case cq_ID req of
                       None \<Rightarrow> create_tenant x r authID req egress (cx_uuid x) g
                     | Some i \<Rightarrow>
                         (case create_named cfg x r req egress i g of
                            (Some resp, g') \<Rightarrow> (resp, g')
                          | (None, g') \<Rightarrow> create_tenant x r authID req egress i g'))))"

section \<open>Proxying\<close>

definition asciiLower :: "char \<Rightarrow> char" where
  "asciiLower c = (let n = of_char c :: nat in if 65 \<le> n \<and> n \<le> 90 then char_of (n + 32) else c)"

definition equalFold :: "string \<Rightarrow> string \<Rightarrow> bool" where
  "equalFold a b \<longleftrightarrow> map asciiLower a = map asciiLower b"

fun containsText :: "string \<Rightarrow> string \<Rightarrow> bool" where
  "containsText [] sub = (sub = [])"
| "containsText (c # s) sub = (hasPrefix (c # s) sub \<or> containsText s sub)"

text \<open>A runner's answer: its status, the header \<open>X-Sandbox-Gone\<close> and its body; or a failed round trip.\<close>

record upstream =
  up_status :: nat
  up_gone :: string
  up_body :: string

datatype proxy_error = RunnerRedirect | MaxBytesError string | OtherProxyError string

text \<open>
  What a request on a sandbox meets. The handler takes no lock: \<open>px_meanwhile\<close> is what other
  requests, the sweeper and other pods do to the store between its read of the row and the response.
\<close>

record proxy_env =
  px_get :: fault
  px_meanwhile :: "db \<Rightarrow> db"
  px_now :: unix_time
  px_scheme :: "string \<Rightarrow> string option"
  px_upstream :: "out_request \<Rightarrow> proxy_error + upstream"
  px_reap :: fault
  px_active :: fault
  px_activeNow :: unix_time
  px_status :: fault

definition RunnerReportsSandboxGone :: "upstream \<Rightarrow> bool" where
  "RunnerReportsSandboxGone u \<longleftrightarrow> up_gone u = ''1''"

definition reapSandboxIfRunnerGone :: "fault \<Rightarrow> string \<Rightarrow> upstream \<Rightarrow> gateway \<Rightarrow> bool \<times> gateway" where
  "reapSandboxIfRunnerGone f sandboxID u g =
     (if \<not> RunnerReportsSandboxGone u then (False, g)
      else (True, g\<lparr>gw_db := snd (Delete f sandboxID (gw_db g))\<rparr>))"

definition markSandboxActive :: "fault \<Rightarrow> unix_time \<Rightarrow> fault \<Rightarrow> string \<Rightarrow> nat \<Rightarrow> gateway \<Rightarrow> gateway" where
  "markSandboxActive fa now fs sandboxID statusCode g =
     (if statusCode \<ge> 500 then g
      else let s1 = snd (UpdateLastActive fa now sandboxID (gw_db g)) in
        g\<lparr>gw_db := snd (UpdateStatus fs sandboxID ''running'' s1)\<rparr>)"

definition rewriteRequest :: "string \<Rightarrow> string \<Rightarrow> int option \<Rightarrow> request \<Rightarrow> out_request" where
  "rewriteRequest base runnerAPIKey maxBytes r =
     \<lparr>or_base = base, or_method = rq_method r, or_path = rq_path r, or_rawQuery = rq_rawQuery r,
      or_apiKey = (if runnerAPIKey \<noteq> [] then Some runnerAPIKey else None),
      or_traceparent = (if rq_traceparent r \<noteq> [] then Some (rq_traceparent r) else None),
      or_maxBytes = maxBytes\<rparr>"

fun proxyErrorHandler :: "proxy_error \<Rightarrow> response" where
  "proxyErrorHandler RunnerRedirect = writeError 502 ''runner returned a redirect''"
| "proxyErrorHandler (MaxBytesError m) = writeError 400 (''failed to read request body: '' @ m)"
| "proxyErrorHandler (OtherProxyError m) =
     (if containsText m ''request body too large''
      then writeError 400 ''failed to read request body: http: request body too large''
      else writeError 503 ''runner unavailable'')"

text \<open>\<open>ServeHTTP\<close> of the reverse proxy, with the hooks of \<open>newRunnerReverseProxy\<close>.\<close>

definition newRunnerReverseProxy :: "string \<Rightarrow> string \<Rightarrow> (out_request \<Rightarrow> proxy_error + upstream) \<Rightarrow>
    (upstream \<Rightarrow> gateway \<Rightarrow> gateway) \<Rightarrow> int option \<Rightarrow> request \<Rightarrow> gateway \<Rightarrow> response \<times> gateway" where
  "newRunnerReverseProxy base runnerAPIKey transport onResponse maxBytes r g =
     (let out = rewriteRequest base runnerAPIKey maxBytes r; g1 = call_runner (Forward out) g in
      case transport out of
        Inl e \<Rightarrow> (proxyErrorHandler e, g1)
      | Inr u \<Rightarrow>
          if up_status u \<ge> 300 \<and> up_status u < 400 then (proxyErrorHandler RunnerRedirect, g1)
          else (writeJSON (up_status u) (RelayedBody (up_body u)), onResponse u g1))"

definition sandboxProxyHandler :: "api_config \<Rightarrow> proxy_env \<Rightarrow> bool \<Rightarrow> string \<Rightarrow> request \<Rightarrow> gateway \<Rightarrow> response \<times> gateway" where
  "sandboxProxyHandler cfg x limitBody i r g =
     (if \<not> isValidUUID i then (writeError 400 ''invalid sandbox id'', g)
      else case Get (px_get x) i (gw_db g) of
        Inl e \<Rightarrow> (writeError 500 (errText e), g)
      | Inr None \<Rightarrow> (writeError 404 ''sandbox not found'', g)
      | Inr (Some rec) \<Rightarrow>
          if \<not> canAccessSandbox r rec then (writeError 404 ''sandbox not found'', g)
          else if isPastIdleDeleteWindow rec (ac_idle cfg) (px_now x) then (writeError 404 ''sandbox not found'', g)
          else if sb_RunnerHTTPBase rec = [] then (writeError 502 ''sandbox has no runner routing information'', g)
          else (let base = trimRight (sb_RunnerHTTPBase rec) (CHR ''/'');
                    bad = (writeError 502 ''sandbox runner is not reachable over https'', g) in
                case px_scheme x base of
                  None \<Rightarrow> bad
                | Some scheme \<Rightarrow>
                    if \<not> equalFold scheme ''https'' then bad
                    else newRunnerReverseProxy base (ac_RunnerAPIKey cfg) (px_upstream x)
                      (\<lambda>u g. case reapSandboxIfRunnerGone (px_reap x) i u g of
                               (True, g') \<Rightarrow> g'
                             | (False, g') \<Rightarrow> markSandboxActive (px_active x) (px_activeNow x) (px_status x) i (up_status u) g')
                      (if limitBody then Some (ac_MaxFileBytes cfg) else None) r
                      (g\<lparr>gw_db := px_meanwhile x (gw_db g)\<rparr>)))"

section \<open>Lemmas on creating\<close>

lemma call_runner_sel [simp]:
  "gw_calls (call_runner c g) = gw_calls g @ [c]" "gw_db (call_runner c g) = gw_db g"
  "gw_untracked (call_runner c g) = gw_untracked g"
  "gw_quota (call_runner c g) = gw_quota g"
  by (simp_all add: call_runner_def)

lemma rollback_sel [simp]:
  "gw_calls (rollbackRunnerCreate x i run g) = gw_calls g @ [RpcDelete (rn_ControlGRPCAddr run) i]"
  "gw_db (rollbackRunnerCreate x i run g) = gw_db g" "gw_quota (rollbackRunnerCreate x i run g) = gw_quota g"
  "gw_untracked (rollbackRunnerCreate x i run g) = gw_untracked g @
     (case cx_rollback x of None \<Rightarrow> [] | Some e \<Rightarrow> [(i, rn_ID run, rn_ControlGRPCAddr run, e)])"
  by (simp_all add: rollbackRunnerCreate_def call_runner_def Let_def split: option.split)

lemma releaseQuota_sel [simp]:
  "gw_calls (snd (releaseQuota b hg)) = gw_calls (snd hg)" "gw_db (snd (releaseQuota b hg)) = gw_db (snd hg)"
  "gw_untracked (snd (releaseQuota b hg)) = gw_untracked (snd hg)"
  "gw_quota (snd (releaseQuota b hg)) = snd (release (fst hg) b (gw_quota (snd hg)))"
  "fst (releaseQuota b hg) = fst (release (fst hg) b (gw_quota (snd hg)))"
  by (simp_all add: releaseQuota_def split: prod.split)

text \<open>The second release of a handle is the no-op its flag makes it.\<close>

lemma release_twice: "snd (release (fst (release h b q)) c q') = q'"
  by (auto simp: release_def split: option.split)

lemma create_deferred_sel [simp]:
  "fst (create_deferred rhg) = fst rhg"
  "gw_calls (snd (create_deferred rhg)) = gw_calls (snd (snd rhg))"
  "gw_db (snd (create_deferred rhg)) = gw_db (snd (snd rhg))"
  "gw_untracked (snd (create_deferred rhg)) = gw_untracked (snd (snd rhg))"
  "gw_quota (snd (create_deferred rhg)) = snd (release (fst (snd rhg)) False (gw_quota (snd (snd rhg))))"
  by (simp_all add: create_deferred_def)

lemma writeExistingSandbox_code: "rs_code (writeExistingSandbox rec egress b) \<in> {200, 409}"
  by (simp add: writeExistingSandbox_def)

text \<open>How a create ends once a runner has taken it.\<close>

lemma create_save_cases:
  assumes "create_save x r req egress t i run gresp (h, g) = (resp, h', g')"
  obtains
    (other_options) "rs_code resp = 502" "h' = h" "g' = rollbackRunnerCreate x i run g"
      "ParseCreateOptions (cx_json x) (cr_AppliedCreateOptionsJson gresp) \<noteq> Inr egress"
  | (saved) s' where
      "ParseCreateOptions (cx_json x) (cr_AppliedCreateOptionsJson gresp) = Inr egress"
      "Create (cx_create x) (new_record x req egress t i run gresp) (gw_db g) = (None, s')"
      "resp = writeJSON 201 (SandboxBody (sandboxResponse (new_record x req egress t i run gresp)))"
      "(h', g') = releaseQuota True (h, g\<lparr>gw_db := s'\<rparr>)"
  | (unsaved) err s' where
      "ParseCreateOptions (cx_json x) (cr_AppliedCreateOptionsJson gresp) = Inr egress"
      "Create (cx_create x) (new_record x req egress t i run gresp) (gw_db g) = (Some err, s')"
      "rs_code resp \<in> {200, 403, 409, 500}"
      "(h', g') = releaseQuota (err \<noteq> ErrTenantQuotaExceeded \<and> err \<noteq> ErrTenantNotFound)
         (h, rollbackRunnerCreate x i run (g\<lparr>gw_db := s'\<rparr>))"
      "rs_code resp = 200 \<longrightarrow> (\<exists>existing. Get (cx_reget x) i s' = Inr (Some existing) \<and> canAccessSandbox r existing)"
proof (cases "ParseCreateOptions (cx_json x) (cr_AppliedCreateOptionsJson gresp) = Inr egress")
  case opts: True
  obtain res s' where c: "Create (cx_create x) (new_record x req egress t i run gresp) (gw_db g) = (res, s')"
    by fastforce
  show thesis
  proof (cases res)
    case None
    with opts c assms saved show thesis by (auto simp: create_save_def)
  next
    case (Some err)
    have "rs_code resp \<in> {200, 403, 409, 500}"
      using assms opts c Some
      by (auto simp: create_save_def Let_def writeExistingSandbox_def split: sum.splits option.splits if_splits)
    moreover have "(h', g') = releaseQuota (err \<noteq> ErrTenantQuotaExceeded \<and> err \<noteq> ErrTenantNotFound)
         (h, rollbackRunnerCreate x i run (g\<lparr>gw_db := s'\<rparr>))"
      using assms opts c Some by (auto simp: create_save_def Let_def split: sum.splits option.splits)
    moreover have "rs_code resp = 200 \<longrightarrow> (\<exists>existing. Get (cx_reget x) i s' = Inr (Some existing) \<and> canAccessSandbox r existing)"
      using assms opts c Some by (auto simp: create_save_def Let_def split: sum.splits option.splits if_splits)
    ultimately show thesis using unsaved opts c Some by blast
  qed
qed (use assms other_options in \<open>auto simp: create_save_def\<close>)

definition only_deletes :: "runner_call list \<Rightarrow> bool" where
  "only_deletes cs \<longleftrightarrow> (\<forall>c \<in> set cs. case c of RpcDelete _ _ \<Rightarrow> True | _ \<Rightarrow> False)"

lemma only_deletes_simps [simp]:
  "only_deletes []" "only_deletes (c # cs) \<longleftrightarrow> (\<exists>a i. c = RpcDelete a i) \<and> only_deletes cs"
  by (auto simp: only_deletes_def split: runner_call.splits)


lemma deleteSandboxRecord_cases:
  assumes "deleteSandboxRecord rpc f rec g = (res, g')"
  shows "gw_calls g' = gw_calls g @ [RpcDelete (sb_RunnerControlGRPCAddr rec) (sb_ID rec)]"
    "gw_quota g' = gw_quota g"
    "(gw_db g' = gw_db g \<or> gw_db g' = snd (Delete f (sb_ID rec) (gw_db g)))"
    "res = None \<longrightarrow> rpc = None \<and> Delete f (sb_ID rec) (gw_db g) = (None, gw_db g')"
    "\<forall>resp. res = Some resp \<longrightarrow> rs_code resp \<in> {500, 502}"
  using assms by (auto simp: deleteSandboxRecord_def Let_def split: option.splits prod.splits)

lemma deleteSandboxRecord_untracked: "deleteSandboxRecord rpc f rec g = (res, g') \<Longrightarrow> gw_untracked g' = gw_untracked g"
  by (auto simp: deleteSandboxRecord_def Let_def split: option.splits prod.splits)

definition caller_tenant :: "authIdentity \<Rightarrow> string" where
  "caller_tenant a = (if ai_Role a = roleTenant then ai_TenantID a else AdminTenantID)"

definition create_id :: "create_env \<Rightarrow> createSandboxRequest \<Rightarrow> string" where
  "create_id x req = (case cq_ID req of None \<Rightarrow> cx_uuid x | Some i \<Rightarrow> i)"

lemma create_tenant_cases:
  assumes "create_tenant x r authID req egress i g = (resp, g')"
  obtains (early) "gw_calls g' = gw_calls g" "gw_db g' = gw_db g" "rs_code resp \<in> {401, 403, 500}"
  | (placing) h q where "create_tenant x r authID req egress i g =
       create_deferred (create_place x r req egress (caller_tenant authID) i (h, g\<lparr>gw_quota := q\<rparr>))"
proof (cases "ai_Role authID = roleTenant")
  case True
  show thesis
  proof (cases "\<exists>h q. create_tenant x r authID req egress i g =
       create_deferred (create_place x r req egress (caller_tenant authID) i (h, g\<lparr>gw_quota := q\<rparr>))")
    case False
    then have "\<forall>h q. create_deferred (create_place x r req egress (ai_TenantID authID) i (h, g\<lparr>gw_quota := q\<rparr>)) \<noteq> (resp, g')"
      using assms True by (metis caller_tenant_def)
    with assms True show thesis
      by (auto simp: create_tenant_def caller_tenant_def Let_def intro!: early
          split: sum.splits option.splits prod.splits reservation.splits)
  qed (use placing in blast)
next
  case False
  then have "create_tenant x r authID req egress i g =
      create_deferred (create_place x r req egress (caller_tenant authID) i (noQuota, g\<lparr>gw_quota := gw_quota g\<rparr>))"
    by (simp add: create_tenant_def caller_tenant_def)
  with placing show thesis by blast
qed

lemma create_named_cases:
  assumes "create_named cfg x r req egress i g = (res, g')"
  obtains cs where "gw_calls g' = gw_calls g @ cs" "only_deletes cs" "gw_quota g' = gw_quota g"
    "\<forall>resp. res = Some resp \<longrightarrow> rs_code resp \<in> {200, 400, 409, 500, 502}"
    "gw_untracked g' = gw_untracked g"
proof (cases "g' = g")
  case True
  with that [of "[]"] assms writeExistingSandbox_code show thesis
    by (fastforce simp: create_named_def split: if_splits option.splits sum.splits
        dest!: deleteSandboxRecord_cases)
next
  case False
  with assms obtain existing where
    "deleteSandboxRecord (cx_stale_rpc x) (cx_stale_row x) existing g = (res, g')"
    by (auto simp: create_named_def split: if_splits option.splits sum.splits)
  from deleteSandboxRecord_cases [OF this] deleteSandboxRecord_untracked [OF this] that show thesis by fastforce
qed

text \<open>Either a create ends before it asks a runner, or it is what \<open>create_place\<close> makes of it.\<close>

lemma handleCreate_cases:
  assumes "handleCreateSandbox cfg x r g = (resp, g')"
  obtains (early) cs where "gw_calls g' = gw_calls g @ cs" "only_deletes cs" "rs_code resp \<noteq> 201"
  | (placing) authID req egress h g1 cs where
      "rq_auth r = Some authID" "create_body x = Inr (req, egress)"
      "gw_calls g1 = gw_calls g @ cs" "only_deletes cs"
      "(resp, g') = create_deferred
         (create_place x r req egress (caller_tenant authID) (create_id x req) (h, g1))"
      "gw_untracked g1 = gw_untracked g"
proof -
  have start: thesis if t: "create_tenant x r authID req egress (create_id x req) g0 = (resp, g')"
    and "rq_auth r = Some authID" "create_body x = Inr (req, egress)"
    and "gw_calls g0 = gw_calls g @ cs" "only_deletes cs" "gw_untracked g0 = gw_untracked g" for authID req egress g0 cs
  proof (rule create_tenant_cases [OF t])
    fix h q
    assume "create_tenant x r authID req egress (create_id x req) g0 =
       create_deferred (create_place x r req egress (caller_tenant authID) (create_id x req) (h, g0\<lparr>gw_quota := q\<rparr>))"
    with that show thesis by (auto intro!: placing [of authID req egress "g0\<lparr>gw_quota := q\<rparr>" cs h])
  qed (use early that in auto)
  show thesis
  proof (cases "\<exists>authID req egress. rq_auth r = Some authID \<and> create_body x = Inr (req, egress) \<and>
      (ai_Role authID = roleAdmin \<or> ai_Role authID = roleTenant)")
    case False
    have "g' = g \<and> rs_code resp \<noteq> 201"
      using assms False
      by (auto simp: handleCreateSandbox_def create_body_def Let_def split: option.splits if_splits sum.splits decoded.splits)
    with early [of "[]"] show thesis by simp
  next
    case True
    then obtain authID req egress where auth: "rq_auth r = Some authID" and body: "create_body x = Inr (req, egress)"
      and role: "ai_Role authID = roleAdmin \<or> ai_Role authID = roleTenant" by blast
    show thesis
    proof (cases "cq_ID req")
      case None
      with assms auth body role start [of authID req egress g "[]"] show thesis
        by (auto simp: handleCreateSandbox_def create_id_def)
    next
      case (Some i)
      obtain res g1 where n: "create_named cfg x r req egress i g = (res, g1)" by fastforce
      from create_named_cases [OF this] obtain cs where cs: "gw_calls g1 = gw_calls g @ cs" "only_deletes cs"
        "\<forall>resp. res = Some resp \<longrightarrow> rs_code resp \<in> {200, 400, 409, 500, 502}" "gw_untracked g1 = gw_untracked g" by blast
      show thesis
      proof (cases res)
        case None
        with n assms auth body role Some cs start [of authID req egress g1 cs] show thesis
          by (auto simp: handleCreateSandbox_def create_id_def)
      next
        case (Some resp')
        with n assms auth body role \<open>cq_ID req = Some i\<close> cs early [of cs] show thesis
          by (auto simp: handleCreateSandbox_def)
      qed
    qed
  qed
qed

text \<open>What \<open>create_place\<close> leaves in the log and the store, for each answer of the placement.\<close>

lemma create_place_refused:
  assumes "create_place x r req egress t i (h, g) = (resp, h', g')" "pl_answer (placeSandbox (cx_place x)) = Inl e"
  shows "rs_code resp \<in> {500, 503}" "h' = h" "gw_db g' = cx_meanwhile_db x (gw_db g)"
    "gw_calls g' = gw_calls g @ place_calls i (marshalCreateOptions egress) (pl_calls (placeSandbox (cx_place x)))"
    "gw_quota g' = cx_meanwhile_quota x (gw_quota g)"
  using assms by (auto simp: create_place_def Let_def writeNoCapacity_def)

lemma create_place_taken:
  assumes "create_place x r req egress t i (h, g) = (resp, h', g')" "pl_answer (placeSandbox (cx_place x)) = Inr (run, gresp)"
  obtains g1 where "create_save x r req egress t i run gresp (h, g1) = (resp, h', g')"
    "gw_calls g1 = gw_calls g @ place_calls i (marshalCreateOptions egress) (pl_calls (placeSandbox (cx_place x)))"
    "gw_db g1 = cx_meanwhile_db x (gw_db g)" "gw_quota g1 = cx_meanwhile_quota x (gw_quota g)"
    "gw_untracked g1 = gw_untracked g"
  using assms by (fastforce simp: create_place_def Let_def)

lemma new_record_ID [simp]: "sb_ID (new_record x req egress t i run gresp) = i"
  by (simp add: new_record_def)

lemma create_deferred_eq:
  assumes "(resp, g') = create_deferred rhg"
  obtains h g1 where "rhg = (resp, h, g1)" "gw_calls g' = gw_calls g1" "gw_db g' = gw_db g1" "gw_untracked g' = gw_untracked g1"
    "gw_quota g' = snd (release h False (gw_quota g1))"
proof -
  obtain resp' h g1 where "rhg = (resp', h, g1)" by (metis prod.exhaust)
  with assms that show thesis by (metis create_deferred_sel fst_conv snd_conv)
qed

lemma releaseQuota_eqD:
  "(h', g') = releaseQuota b (h, g) \<Longrightarrow> gw_calls g' = gw_calls g \<and> gw_db g' = gw_db g \<and> gw_untracked g' = gw_untracked g
     \<and> h' = fst (release h b (gw_quota g)) \<and> gw_quota g' = snd (release h b (gw_quota g))"
  by (metis fst_conv releaseQuota_sel snd_conv)

section \<open>Properties of creating\<close>

text \<open>
  Claim C11. A create is answered 201 only for a sandbox that exists and is tracked: a runner took
  it and reported the egress mode that was asked for, the store holds exactly the record of that
  placement, owned by the caller, the response shows that record, and no call after the placement
  undoes it.
\<close>

theorem created_is_tracked:
  assumes "handleCreateSandbox cfg x r g = (resp, g')" and "rs_code resp = 201"
  shows "\<exists>authID req egress run gresp cs.
     rq_auth r = Some authID \<and> create_body x = Inr (req, egress) \<and>
     pl_answer (placeSandbox (cx_place x)) = Inr (run, gresp) \<and>
     ParseCreateOptions (cx_json x) (cr_AppliedCreateOptionsJson gresp) = Inr egress \<and>
     (let rec = new_record x req egress (caller_tenant authID) (create_id x req) run gresp in
        sandbox_rows (gw_db g') (create_id x req) = Some rec \<and> rs_body resp = SandboxBody (sandboxResponse rec)) \<and>
     gw_calls g' = gw_calls g @ cs
       @ place_calls (create_id x req) (marshalCreateOptions egress) (pl_calls (placeSandbox (cx_place x))) \<and>
     only_deletes cs"
  using assms(1)
proof (cases rule: handleCreate_cases)
  case (placing authID req egress h g1 cs)
  from placing(5) obtain h' g2 where p: "create_place x r req egress (caller_tenant authID) (create_id x req) (h, g1) = (resp, h', g2)"
    and g': "gw_calls g' = gw_calls g2" "gw_db g' = gw_db g2" by (rule create_deferred_eq)
  from p assms(2) obtain run gresp where ans: "pl_answer (placeSandbox (cx_place x)) = Inr (run, gresp)"
    by (cases "pl_answer (placeSandbox (cx_place x))") (auto dest: create_place_refused(1))
  from create_place_taken [OF p ans] obtain g3 where
    s: "create_save x r req egress (caller_tenant authID) (create_id x req) run gresp (h, g3) = (resp, h', g2)"
    and g3: "gw_calls g3 = gw_calls g1 @ place_calls (create_id x req) (marshalCreateOptions egress) (pl_calls (placeSandbox (cx_place x)))"
    by blast
  from s show ?thesis
  proof (cases rule: create_save_cases)
    case (saved s')
    from saved(2) have "sandbox_rows s' (create_id x req) = Some (new_record x req egress (caller_tenant authID) (create_id x req) run gresp)"
      by (auto dest!: sqlite.create_ok)
    with saved placing ans g' g3 releaseQuota_eqD [OF saved(4)] show ?thesis by (auto simp: Let_def)
  qed (use assms(2) in auto)
qed (use assms(2) in auto)


text \<open>
  Claim C29. The slot a tenant's create takes from the in-memory quota is given back exactly once,
  whatever the outcome. It is given back as saved after a 201, and it is given back as not saved
  only when this create left no row in the store.
\<close>

theorem quota_slot_given_back:
  assumes "create_tenant x r authID req egress i g = (resp, g')"
    and "ai_Role authID = roleTenant" and "GetTenant (cx_tenant x) (ai_TenantID authID) (gw_db g) = Inr (Some tenant)"
    and "reserve (\<lambda>k. CountByTenant (cx_count x k) (ai_TenantID authID) (gw_db g)) (cx_others x) (ai_TenantID authID)
           (tn_MaxSandboxes tenant) (gw_quota g) = (Reserved h, q)"
  shows "\<exists>saved. gw_quota g' = snd (release h saved (cx_meanwhile_quota x q)) \<and>
     (rs_code resp = 201 \<longrightarrow> saved) \<and>
     (\<not> saved \<longrightarrow> sandbox_rows (gw_db g') = sandbox_rows (cx_meanwhile_db x (gw_db g)))"
proof -
  from assms have "(resp, g') = create_deferred
      (create_place x r req egress (ai_TenantID authID) i (h, g\<lparr>gw_quota := q\<rparr>))"
    by (simp add: create_tenant_def Let_def)
  then obtain h' g2 where p: "create_place x r req egress (ai_TenantID authID) i (h, g\<lparr>gw_quota := q\<rparr>) = (resp, h', g2)"
    and g': "gw_db g' = gw_db g2" "gw_quota g' = snd (release h' False (gw_quota g2))" by (rule create_deferred_eq)
  show ?thesis
  proof (cases "pl_answer (placeSandbox (cx_place x))")
    case (Inl e)
    from create_place_refused [OF p this] g' show ?thesis by (auto intro!: exI [of _ False])
  next
    case (Inr a)
    obtain run gresp where "pl_answer (placeSandbox (cx_place x)) = Inr (run, gresp)" using Inr by (cases a) auto
    from create_place_taken [OF p this] obtain g3 where
      s: "create_save x r req egress (ai_TenantID authID) i run gresp (h, g3) = (resp, h', g2)"
      and g3: "gw_db g3 = cx_meanwhile_db x (gw_db g)" "gw_quota g3 = cx_meanwhile_quota x q" by auto
    from s show ?thesis
    proof (cases rule: create_save_cases)
      case other_options
      with g' g3 show ?thesis by (auto intro!: exI [of _ False])
    next
      case (saved s')
      with g' g3 show ?thesis by (auto dest!: releaseQuota_eqD simp: release_twice intro!: exI [of _ True])
    next
      case (unsaved err s')
      from unsaved(2) g3 have "err = ErrTenantQuotaExceeded \<or> err = ErrTenantNotFound \<Longrightarrow>
          sandbox_rows s' = sandbox_rows (cx_meanwhile_db x (gw_db g))"
        using sqlite.create_refused by auto
      with unsaved g' g3 show ?thesis
        by (auto dest!: releaseQuota_eqD simp: release_twice
            intro!: exI [of _ "err \<noteq> ErrTenantQuotaExceeded \<and> err \<noteq> ErrTenantNotFound"])
    qed
  qed
qed

text \<open>
  Claim C38. When the store saves the row but the reply to the save is lost, the handler deletes
  the sandbox from its runner and then answers 200 with it: the row, and the caller, keep a sandbox
  the runner was just told to delete.
\<close>

theorem lost_save_reply_answers_deleted_sandbox:
  assumes "ParseCreateOptions (cx_json x) (cr_AppliedCreateOptionsJson gresp) = Inr egress"
    and "rec = new_record x req egress t i run gresp"
    and "Create (cx_create x) rec (gw_db g) = (Some err, s')" and "sandbox_rows s' i = Some rec"
    and "canAccessSandbox r rec" and "cx_reget x = NoFault"
  shows "\<exists>h' g'. create_save x r req egress t i run gresp (h, g) =
       (writeJSON 200 (SandboxBody (sandboxResponse rec)), h', g') \<and>
     last (gw_calls g') = RpcDelete (sb_RunnerControlGRPCAddr rec) i \<and>
     sandbox_rows (gw_db g') i = Some rec"
proof -
  have "Get (cx_reget x) i s' = Inr (Some rec)"
    using assms(4,6) by (simp add: Get_def sandbox_rows_def)
  moreover have "sb_Egress rec = egress" "sb_RunnerControlGRPCAddr rec = rn_ControlGRPCAddr run"
    using assms(2) by (simp_all add: new_record_def)
  ultimately show ?thesis
    using assms by (simp add: create_save_def Let_def writeExistingSandbox_def releaseQuota_def
        split: prod.split)
qed

text \<open>
  Claim C28. Creating with an id is idempotent: repeating a request that was answered 201, while
  the sandbox is inside its idle window, is answered 200 with the same sandbox, calls no runner
  and changes nothing.
\<close>

theorem create_with_id_idempotent:
  assumes "handleCreateSandbox cfg x r g = (resp, g')" and "rs_code resp = 201"
    and "create_body x = Inr (req, egress)" and "cq_ID req = Some i" and "isValidUUID i"
    and "sandbox_rows (gw_db g') i = Some rec" and "canAccessSandbox r rec"
    and "create_body y = create_body x" and "cx_lock y = None" and "cx_get y = NoFault"
    and "\<not> isPastIdleDeleteWindow rec (ac_idle cfg) (cx_checkNow y)"
  shows "handleCreateSandbox cfg y r g' = (writeJSON 200 (rs_body resp), g')"
  using assms(1)
proof (cases rule: handleCreate_cases)
  case (placing authID req' egress' h g1 cs)
  have eq: "req' = req" "egress' = egress" "create_id x req = i" using placing(2) assms(3,4) by (auto simp: create_id_def)
  from placing(5) obtain h' g2 where p: "create_place x r req egress (caller_tenant authID) i (h, g1) = (resp, h', g2)"
    and g': "gw_db g' = gw_db g2" unfolding eq by (rule create_deferred_eq)
  from p assms(2) obtain run gresp where ans: "pl_answer (placeSandbox (cx_place x)) = Inr (run, gresp)"
    by (cases "pl_answer (placeSandbox (cx_place x))") (auto dest: create_place_refused(1))
  from create_place_taken [OF p ans] obtain g3 where
    s: "create_save x r req egress (caller_tenant authID) i run gresp (h, g3) = (resp, h', g2)" by blast
  then have "rec = new_record x req egress (caller_tenant authID) i run gresp \<and> rs_body resp = SandboxBody (sandboxResponse rec)"
  proof (cases rule: create_save_cases)
    case (saved s')
    with assms(6) g' show ?thesis by (auto dest!: releaseQuota_eqD sqlite.create_ok)
  qed (use assms(2) in auto)
  moreover have "ai_Role authID = roleAdmin \<or> ai_Role authID = roleTenant"
    using assms(7) placing(1) by (auto simp: canAccessSandbox_def split: if_splits)
  moreover have "Get (cx_get y) i (gw_db g') = Inr (Some rec)"
    using assms(6,10) by (simp add: Get_def sandbox_rows_def)
  ultimately show ?thesis
    using assms placing(1)
    by (auto simp: handleCreateSandbox_def create_named_def writeExistingSandbox_def new_record_def)
qed (use assms(2) in auto)

section \<open>Witnesses\<close>

definition example_uuid :: string where
  "example_uuid = ''0a1b2c3d-0000-4000-8000-0123456789ab''"

definition example_runner :: Runner where
  "example_runner = \<lparr>rn_ID = ''r1'', rn_HTTPBaseURL = ''https://r1/'', rn_ControlGRPCAddr = ''r1:1'', rn_Healthy = True,
     rn_Cordoned = False, rn_CapacityTotal = 4, rn_CapacityUsed = 0, rn_CapacityStopped = 0, rn_LastSeen = 0\<rparr>"

definition example_config :: api_config where
  "example_config = \<lparr>ac_idle = example_idle_config, ac_RunnerAPIKey = ''rk'', ac_MaxFileBytes = 1024,
     ac_DefaultMaxSandboxes = 5, ac_HeartbeatGrace = 45 * second_ns, ac_ScalerURL = []\<rparr>"

definition example_gateway :: "SandboxRecord list \<Rightarrow> gateway" where
  "example_gateway rows = \<lparr>gw_db = \<lparr>db_sandboxes = rows, db_tenants = [example_tenant], db_keys = []\<rparr>,
     gw_quota = newTenantQuota, gw_cache = None, gw_inflight = NewKeyedLimiter 8,
     gw_deletes = NewKeyedLimiter 8, gw_calls = [], gw_untracked = []\<rparr>"

definition example_caller :: request where
  "example_caller = (example_request ''POST'' ''/sandboxes'' ''k'')
     \<lparr>rq_auth := Some \<lparr>ai_Role = roleTenant, ai_TenantID = ''t1''\<rparr>\<rparr>"

text \<open>A create under a named id, sealed; the runner reports the egress mode \<open>applied\<close>.\<close>

definition example_create :: "string \<Rightarrow> create_faults \<Rightarrow> create_env" where
  "example_create applied f =
     \<lparr>cx_decode = DecodeOk \<lparr>cq_ID = Some example_uuid, cq_Ephemeral = False, cq_Egress = Some ''none''\<rparr>,
      cx_trailingEOF = True, cx_uuid = example_uuid, cx_lock = None, cx_get = NoFault, cx_checkNow = 1000,
      cx_stale_rpc = None, cx_stale_row = NoFault, cx_tenant = NoFault, cx_count = (\<lambda>_. NoFault), cx_others = (\<lambda>_ q. q),
      cx_now = 1000,
      cx_place = \<lparr>pe_pick = (\<lambda>_ _. Inr example_runner),
        pe_create = (\<lambda>_ _. Inr \<lparr>cr_ContainerIP = ''10.0.0.2'', cr_AppliedCreateOptionsJson = applied\<rparr>),
        pe_elapsed = (\<lambda>_. 0), pe_clientGone = (\<lambda>_. False)\<rparr>,
      cx_meanwhile_db = (\<lambda>s. s), cx_meanwhile_quota = (\<lambda>q. q), cx_json = (\<lambda>s. JsonEgress s),
      cx_create = f, cx_rollback = None, cx_reget = NoFault\<rparr>"

definition example_created :: "response \<times> gateway" where
  "example_created = handleCreateSandbox example_config (example_create ''none'' no_create_faults) example_caller (example_gateway [])"

lemma example_created_201: "rs_code (fst example_created) = 201"
  by code_simp

lemma example_created_row: "sb_RunnerID (hd (db_sandboxes (gw_db (snd example_created)))) = ''r1''"
  by code_simp

definition example_body :: createSandboxRequest where
  "example_body = \<lparr>cq_ID = Some example_uuid, cq_Ephemeral = False, cq_Egress = Some ''none''\<rparr>"

lemma example_create_body: "create_body (example_create applied f) = Inr (example_body, ''none'')"
  by (simp add: create_body_def example_create_def example_body_def ParseEgress_def)

theorem created_is_tracked_witness:
  "\<exists>rec. sandbox_rows (gw_db (snd example_created)) example_uuid = Some rec \<and> sb_Egress rec = ''none'' \<and> sb_TenantID rec = ''t1''"
proof -
  have "handleCreateSandbox example_config (example_create ''none'' no_create_faults) example_caller (example_gateway []) =
      (fst example_created, snd example_created)" by (simp add: example_created_def)
  from created_is_tracked [OF this example_created_201] show ?thesis
    by (auto simp: example_create_body Let_def create_id_def example_body_def new_record_def example_caller_def caller_tenant_def)
qed




definition example_reserve :: "reservation \<times> tenantQuota" where
  "example_reserve = reserve (\<lambda>k. CountByTenant NoFault ''t1'' (gw_db (example_gateway []))) (\<lambda>_ q. q) ''t1'' 1 newTenantQuota"

definition example_tenant_create :: "response \<times> gateway" where
  "example_tenant_create = create_tenant (example_create ''none'' no_create_faults) example_caller
     \<lparr>ai_Role = roleTenant, ai_TenantID = ''t1''\<rparr> example_body ''none'' example_uuid (example_gateway [])"

theorem quota_slot_given_back_witness:
  "fst example_reserve = Reserved \<lparr>rh_slot = Some (''t1'', 0), rh_done = False\<rparr> \<and>
   gw_quota (snd example_tenant_create) =
     snd (release \<lparr>rh_slot = Some (''t1'', 0), rh_done = False\<rparr> True (snd example_reserve))"
proof
  show slot: "fst example_reserve = Reserved \<lparr>rh_slot = Some (''t1'', 0), rh_done = False\<rparr>" by code_simp
  have "create_tenant (example_create ''none'' no_create_faults) example_caller \<lparr>ai_Role = roleTenant, ai_TenantID = ''t1''\<rparr>
      example_body ''none'' example_uuid (example_gateway []) = (fst example_tenant_create, snd example_tenant_create)"
    by (simp add: example_tenant_create_def)
  moreover have "rs_code (fst example_tenant_create) = 201" by code_simp
  ultimately show "gw_quota (snd example_tenant_create) =
     snd (release \<lparr>rh_slot = Some (''t1'', 0), rh_done = False\<rparr> True (snd example_reserve))"
    using quota_slot_given_back [of "example_create ''none'' no_create_faults" example_caller "\<lparr>ai_Role = roleTenant, ai_TenantID = ''t1''\<rparr>"
        example_body "''none''" example_uuid "example_gateway []" "fst example_tenant_create" "snd example_tenant_create" example_tenant
        "\<lparr>rh_slot = Some (''t1'', 0), rh_done = False\<rparr>" "snd example_reserve"] slot
    by (auto simp: example_create_def GetTenant_def example_gateway_def example_tenant_def example_reserve_def prod_eq_iff)
qed

definition example_lost :: create_env where
  "example_lost = example_create ''none'' (no_create_faults\<lparr>cf_commit := FailAfter ''connection reset''\<rparr>)"

definition example_record :: SandboxRecord where
  "example_record = new_record example_lost example_body ''none'' ''t1'' example_uuid example_runner
     \<lparr>cr_ContainerIP = ''10.0.0.2'', cr_AppliedCreateOptionsJson = ''none''\<rparr>"

theorem lost_save_reply_answers_deleted_sandbox_witness:
  "\<exists>h' g'. create_save example_lost example_caller example_body ''none'' ''t1'' example_uuid example_runner
       \<lparr>cr_ContainerIP = ''10.0.0.2'', cr_AppliedCreateOptionsJson = ''none''\<rparr> (noQuota, example_gateway []) =
       (writeJSON 200 (SandboxBody (sandboxResponse example_record)), h', g') \<and>
     last (gw_calls g') = RpcDelete (sb_RunnerControlGRPCAddr example_record) example_uuid \<and>
     sandbox_rows (gw_db g') example_uuid = Some example_record"
proof (rule lost_save_reply_answers_deleted_sandbox)
  let ?c = "Create (cx_create example_lost) example_record (gw_db (example_gateway []))"
  have "fst ?c = Some (ErrDB ''store: commit create sandbox: connection reset'')" by code_simp
  then show "?c = (Some (ErrDB ''store: commit create sandbox: connection reset''), snd ?c)" by (metis prod.collapse)
  show "sandbox_rows (snd ?c) example_uuid = Some example_record" by code_simp
  show "canAccessSandbox example_caller example_record" by code_simp
qed (simp_all add: example_record_def example_lost_def example_create_def ParseCreateOptions_def trimSpace_def isSpace_def ParseEgress_def)

theorem create_with_id_idempotent_witness:
  "handleCreateSandbox example_config (example_create ''none'' no_create_faults) example_caller (snd example_created) =
     (writeJSON 200 (rs_body (fst example_created)), snd example_created)"
proof (rule create_with_id_idempotent)
  let ?rec = "hd (db_sandboxes (gw_db (snd example_created)))"
  show "handleCreateSandbox example_config (example_create ''none'' no_create_faults) example_caller (example_gateway []) =
      (fst example_created, snd example_created)" by (simp add: example_created_def)
  show "rs_code (fst example_created) = 201" by (rule example_created_201)
  show "create_body (example_create ''none'' no_create_faults) = Inr (example_body, ''none'')" by (rule example_create_body)
  show "isValidUUID example_uuid" by code_simp
  show "sandbox_rows (gw_db (snd example_created)) example_uuid = Some ?rec" by code_simp
  show "canAccessSandbox example_caller ?rec" by code_simp
  show "\<not> isPastIdleDeleteWindow ?rec (ac_idle example_config) (cx_checkNow (example_create ''none'' no_create_faults))"
    by code_simp
qed (simp_all add: example_create_def example_body_def)

end
