(* ===== verification/Sandbox_Isolation.thy ===== *)
theory Sandbox_Isolation
  imports Sandbox_Handlers
begin

text \<open>
  Properties of the requests on existing sandboxes (\<open>internal/api/handlers.go\<close>): tenants neither see nor
  touch each other's sandboxes, and what the proxy lets through to a runner and records afterwards.
  Each handler is rewritten, for a tenant, into a function of the tenant's own rows.
\<close>

section \<open>Tenants do not see each other\<close>

text \<open>The requests on existing sandboxes, and the rows a tenant owns.\<close>

datatype sandbox_op =
    OpGet fault unix_time string
  | OpList fault
  | OpDeleteSandbox delete_env string
  | OpProxy proxy_env bool string

fun run_sandbox_op :: "api_config \<Rightarrow> sandbox_op \<Rightarrow> request \<Rightarrow> gateway \<Rightarrow> response \<times> gateway" where
  "run_sandbox_op cfg (OpGet f now i) r g = handleGetSandbox cfg f now i r g"
| "run_sandbox_op cfg (OpList f) r g = handleListSandboxes f r g"
| "run_sandbox_op cfg (OpDeleteSandbox x i) r g = handleDeleteSandbox x i r g"
| "run_sandbox_op cfg (OpProxy x limitBody i) r g = sandboxProxyHandler cfg x limitBody i r g"

text \<open>
  What others do to the store while the request is under way: only a forwarded request leaves them
  the time, since reading and listing are one statement and deleting holds the lock of the id that
  creates, deletes and the sweeper take.
\<close>

fun meanwhile :: "sandbox_op \<Rightarrow> db \<Rightarrow> db" where
  "meanwhile (OpProxy x limitBody i) s = px_meanwhile x s"
| "meanwhile _ s = s"

definition own_rows :: "string \<Rightarrow> db \<Rightarrow> SandboxRecord list" where
  "own_rows t s = filter (owned_by t) (db_sandboxes s)"

definition other_rows :: "string \<Rightarrow> db \<Rightarrow> SandboxRecord list" where
  "other_rows t s = filter (\<lambda>r. \<not> owned_by t r) (db_sandboxes s)"

definition tenant_request :: "string \<Rightarrow> request \<Rightarrow> bool" where
  "tenant_request t r \<longleftrightarrow> rq_auth r = Some \<lparr>ai_Role = roleTenant, ai_TenantID = t\<rparr> \<and> \<not> IsAdminTenantID t"

lemma tenant_access: "tenant_request t r \<Longrightarrow> canAccessSandbox r rec \<longleftrightarrow> owned_by t rec"
  by (auto simp: tenant_request_def canAccessSandbox_def)

text \<open>What a tenant finds under an id is what it owns under it.\<close>

lemma own_lookup:
  assumes "distinct (map sb_ID rs)"
  shows "find_row sb_ID i (filter (owned_by t) rs) =
    (case find_row sb_ID i rs of None \<Rightarrow> None | Some rec \<Rightarrow> if owned_by t rec then Some rec else None)"
  using assms
proof (induction rs)
  case (Cons a rs)
  show ?case
  proof (cases "sb_ID a = i")
    case True
    with Cons.prems have "find_row sb_ID i rs = None" by (auto simp: find_row_None_iff)
    with Cons True show ?thesis by auto
  qed (use Cons in auto)
qed simp

definition own_get :: "string \<Rightarrow> fault \<Rightarrow> string \<Rightarrow> SandboxRecord list \<Rightarrow> store_error + SandboxRecord option" where
  "own_get t f i rs = run_read f (''get sandbox '' @ i) (find_row sb_ID i rs)"

lemma Get_own:
  assumes "db_wf s"
  shows "own_get t f i (own_rows t s) =
    (case Get f i s of Inr (Some rec) \<Rightarrow> Inr (if owned_by t rec then Some rec else None) | v \<Rightarrow> v)"
  using assms
  by (auto simp: own_get_def own_rows_def Get_def db_wf_def own_lookup run_read_def
      split: fault.splits option.splits)

lemma own_get_owned: "own_get t f i (own_rows t s) = Inr (Some rec) \<Longrightarrow> owned_by t rec \<and> sb_ID rec = i \<and> rec \<in> set (db_sandboxes s)"
  by (auto simp: own_get_def own_rows_def dest!: run_read_InrD find_row_SomeD)

text \<open>Each handler, for a tenant, as a function of the tenant's own rows.\<close>

lemma tenant_get:
  assumes "tenant_request t r" "db_wf (gw_db g)"
  shows "handleGetSandbox cfg f now i r g =
    (if \<not> isValidUUID i then (writeError 400 ''invalid sandbox id'', g)
     else case own_get t f i (own_rows t (gw_db g)) of
        Inl e \<Rightarrow> (writeError 500 (errText e), g)
      | Inr None \<Rightarrow> (writeError 404 ''sandbox not found'', g)
      | Inr (Some rec) \<Rightarrow>
          if isPastIdleDeleteWindow rec (ac_idle cfg) now then (writeError 404 ''sandbox not found'', g)
          else (writeJSON 200 (SandboxBody (sandboxResponse rec)), g))"
  using assms
  by (auto simp: handleGetSandbox_def Get_own tenant_access split: sum.splits option.splits)

lemma tenant_delete:
  assumes "tenant_request t r" "db_wf (gw_db g)"
  shows "handleDeleteSandbox x i r g =
    (if \<not> isValidUUID i then (writeError 400 ''invalid sandbox id'', g)
     else case dx_lock x of
       Some e \<Rightarrow> (writeError 500 (errText e), g)
     | None \<Rightarrow>
        (case own_get t (dx_get x) i (own_rows t (gw_db g)) of
           Inl e \<Rightarrow> (writeError 500 (errText e), g)
         | Inr None \<Rightarrow> (writeError 404 ''sandbox not found'', g)
         | Inr (Some rec) \<Rightarrow>
             (case deleteSandboxRecord (dx_rpc x) (dx_row x) rec g of
                (Some resp, g') \<Rightarrow> (resp, g') | (None, g') \<Rightarrow> (writeHeader 204, g'))))"
  using assms
  by (auto simp: handleDeleteSandbox_def Get_own tenant_access split: sum.splits option.splits)

lemma tenant_list:
  assumes "tenant_request t r"
  shows "handleListSandboxes f r g =
    (case listTenantFilter r roleTenant of
       Inl resp \<Rightarrow> (resp, g)
     | Inr _ \<Rightarrow>
        (case run_read f ''query sandboxes'' (sort_key (\<lambda>r. - sb_CreatedAt r) (own_rows t (gw_db g))) of
           Inl e \<Rightarrow> (writeError 500 (errText e), g)
         | Inr recs \<Rightarrow> (writeJSON 200 (SandboxesBody (map sandboxResponse recs)), g)))"
  using assms by (auto simp: tenant_request_def handleListSandboxes_def ListByTenant_def own_rows_def split: sum.splits)

definition proxy_response :: "proxy_env \<Rightarrow> string \<Rightarrow> upstream \<Rightarrow> gateway \<Rightarrow> gateway" where
  "proxy_response x i u g =
     (case reapSandboxIfRunnerGone (px_reap x) i u g of
        (True, g') \<Rightarrow> g'
      | (False, g') \<Rightarrow> markSandboxActive (px_active x) (px_activeNow x) (px_status x) i (up_status u) g')"

definition proxy_route :: "api_config \<Rightarrow> proxy_env \<Rightarrow> SandboxRecord \<Rightarrow> response + string" where
  "proxy_route cfg x rec =
     (if isPastIdleDeleteWindow rec (ac_idle cfg) (px_now x) then Inl (writeError 404 ''sandbox not found'')
      else if sb_RunnerHTTPBase rec = [] then Inl (writeError 502 ''sandbox has no runner routing information'')
      else let base = trimRight (sb_RunnerHTTPBase rec) (CHR ''/'') in
        case px_scheme x base of
          None \<Rightarrow> Inl (writeError 502 ''sandbox runner is not reachable over https'')
        | Some scheme \<Rightarrow> if equalFold scheme ''https'' then Inr base
            else Inl (writeError 502 ''sandbox runner is not reachable over https''))"

definition proxy_result :: "api_config \<Rightarrow> proxy_env \<Rightarrow> bool \<Rightarrow> string \<Rightarrow> request \<Rightarrow> store_error + SandboxRecord option \<Rightarrow> gateway \<Rightarrow> response \<times> gateway" where
  "proxy_result cfg x limitBody i r v g =
     (if \<not> isValidUUID i then (writeError 400 ''invalid sandbox id'', g)
      else case v of
        Inl e \<Rightarrow> (writeError 500 (errText e), g)
      | Inr None \<Rightarrow> (writeError 404 ''sandbox not found'', g)
      | Inr (Some rec) \<Rightarrow>
          (case proxy_route cfg x rec of
             Inl resp \<Rightarrow> (resp, g)
           | Inr base \<Rightarrow> newRunnerReverseProxy base (ac_RunnerAPIKey cfg) (px_upstream x) (proxy_response x i)
               (if limitBody then Some (ac_MaxFileBytes cfg) else None) r (g\<lparr>gw_db := px_meanwhile x (gw_db g)\<rparr>)))"

lemma proxy_by_result:
  "sandboxProxyHandler cfg x limitBody i r g =
     proxy_result cfg x limitBody i r
       (case Get (px_get x) i (gw_db g) of Inr (Some rec) \<Rightarrow> Inr (if canAccessSandbox r rec then Some rec else None) | v \<Rightarrow> v) g"
  unfolding sandboxProxyHandler_def proxy_result_def proxy_route_def proxy_response_def Let_def
  by (auto split: sum.splits option.splits)

lemma tenant_proxy:
  assumes "tenant_request t r" "db_wf (gw_db g)"
  shows "sandboxProxyHandler cfg x limitBody i r g =
     proxy_result cfg x limitBody i r (own_get t (px_get x) i (own_rows t (gw_db g))) g"
  using assms by (auto simp: proxy_by_result Get_own tenant_access split: sum.splits option.splits)

text \<open>The writes of the handlers, seen from the rows of the tenant and from the rest.\<close>

fun lands :: "fault \<Rightarrow> bool" where
  "lands (FailBefore _) = False" | "lands _ = True"

lemma own_rows_Delete:
  "own_rows t (snd (Delete f i s)) = (if lands f then filter (\<lambda>r. sb_ID r \<noteq> i) (own_rows t s) else own_rows t s)"
  by (cases f) (auto simp: Delete_def run_write_def own_rows_def intro: filter_cong)

lemma own_rows_update:
  "(\<And>r. sb_TenantID (u r) = sb_TenantID r) \<Longrightarrow>
   filter (owned_by t) (update_rows p u rs) = update_rows p u (filter (owned_by t) rs)"
  by (induction rs) auto

lemma own_rows_UpdateLastActive:
  "own_rows t (snd (UpdateLastActive f now i s)) =
     (if lands f then update_rows (\<lambda>r. sb_ID r = i) (sb_LastActiveAt_update (\<lambda>_. now)) (own_rows t s) else own_rows t s)"
  by (cases f) (auto simp: UpdateLastActive_def run_write_def own_rows_def own_rows_update)

lemma own_rows_UpdateStatus:
  "own_rows t (snd (UpdateStatus f i st s)) =
     (if lands f then update_rows (\<lambda>r. sb_ID r = i) (sb_Status_update (\<lambda>_. st)) (own_rows t s) else own_rows t s)"
  by (cases f) (auto simp: UpdateStatus_def run_write_def own_rows_def own_rows_update)

lemma fst_Delete: "fst (Delete f i s) =
    (case f of NoFault \<Rightarrow> None | FailBefore e \<Rightarrow> Some (errorf (''delete sandbox '' @ i) e)
     | FailAfter e \<Rightarrow> Some (errorf (''delete sandbox '' @ i) e))"
  by (auto simp: Delete_def run_write_def split: fault.split)

definition owns_id :: "string \<Rightarrow> string \<Rightarrow> db \<Rightarrow> bool" where
  "owns_id t i s \<longleftrightarrow> (\<forall>r \<in> set (db_sandboxes s). sb_ID r = i \<longrightarrow> owned_by t r)"

lemma own_get_owns_id:
  assumes "db_wf s" "own_get t f i (own_rows t s) = Inr (Some rec)"
  shows "owns_id t i s"
proof -
  from own_get_owned [OF assms(2)] have rec: "owned_by t rec" "sb_ID rec = i" "rec \<in> set (db_sandboxes s)" by auto
  from assms(1) have "distinct (map sb_ID (db_sandboxes s))" by (simp add: db_wf_def)
  with rec show ?thesis by (metis owns_id_def find_row_distinct option.inject)
qed

lemma other_rows_filter:
  "owns_id t i s \<Longrightarrow> other_rows t (s\<lparr>db_sandboxes := filter (\<lambda>r. sb_ID r \<noteq> i) (db_sandboxes s)\<rparr>) = other_rows t s"
  unfolding other_rows_def owns_id_def by (simp, rule filter_cong) auto

lemma filter_update_rows_other:
  assumes "\<And>r. sb_TenantID (u r) = sb_TenantID r" "\<forall>r \<in> set rs. sb_ID r = i \<longrightarrow> owned_by t r"
  shows "filter (\<lambda>r. \<not> owned_by t r) (update_rows (\<lambda>r. sb_ID r = i) u rs) = filter (\<lambda>r. \<not> owned_by t r) rs"
  using assms by (induction rs) auto

lemma other_rows_Delete: "owns_id t i s \<Longrightarrow> other_rows t (snd (Delete f i s)) = other_rows t s"
  by (cases f) (auto simp: Delete_def run_write_def other_rows_filter)

lemma other_rows_UpdateLastActive: "owns_id t i s \<Longrightarrow> other_rows t (snd (UpdateLastActive f now i s)) = other_rows t s"
  by (cases f) (auto simp: UpdateLastActive_def run_write_def other_rows_def owns_id_def filter_update_rows_other)

lemma other_rows_UpdateStatus: "owns_id t i s \<Longrightarrow> other_rows t (snd (UpdateStatus f i st s)) = other_rows t s"
  by (cases f) (auto simp: UpdateStatus_def run_write_def other_rows_def owns_id_def filter_update_rows_other)

lemma owns_id_UpdateLastActive: "owns_id t i s \<Longrightarrow> owns_id t i (snd (UpdateLastActive f now i s))"
proof -
  have "(\<forall>r \<in> set (update_rows p (sb_LastActiveAt_update (\<lambda>_. now)) rs). sb_ID r = i \<longrightarrow> owned_by t r) =
      (\<forall>r \<in> set rs. sb_ID r = i \<longrightarrow> owned_by t r)" for p rs
    by (induction rs) auto
  then show "owns_id t i s \<Longrightarrow> owns_id t i (snd (UpdateLastActive f now i s))"
    by (cases f) (simp_all add: UpdateLastActive_def run_write_def owns_id_def)
qed

lemma deleteSandboxRecord_view:
  "own_rows t (gw_db (snd (deleteSandboxRecord rpc f rec g))) =
     (if rpc = None \<and> lands f then filter (\<lambda>r. sb_ID r \<noteq> sb_ID rec) (own_rows t (gw_db g)) else own_rows t (gw_db g))"
  "gw_calls (snd (deleteSandboxRecord rpc f rec g)) = gw_calls g @ [RpcDelete (sb_RunnerControlGRPCAddr rec) (sb_ID rec)]"
  "fst (deleteSandboxRecord rpc f rec g) =
     (case rpc of Some e \<Rightarrow> Some (writeError 502 (''failed to delete container: '' @ go_errText e))
      | None \<Rightarrow> map_option (\<lambda>e. writeError 500 (errText e))
          (case f of NoFault \<Rightarrow> None | FailBefore e \<Rightarrow> Some (errorf (''delete sandbox '' @ sb_ID rec) e)
           | FailAfter e \<Rightarrow> Some (errorf (''delete sandbox '' @ sb_ID rec) e)))"
proof -
  note d = own_rows_Delete [of t f "sb_ID rec" "gw_db g"] fst_Delete [of f "sb_ID rec" "gw_db g"]
  obtain e s' where D: "Delete f (sb_ID rec) (gw_db g) = (e, s')" by fastforce
  show "own_rows t (gw_db (snd (deleteSandboxRecord rpc f rec g))) =
     (if rpc = None \<and> lands f then filter (\<lambda>r. sb_ID r \<noteq> sb_ID rec) (own_rows t (gw_db g)) else own_rows t (gw_db g))"
    "gw_calls (snd (deleteSandboxRecord rpc f rec g)) = gw_calls g @ [RpcDelete (sb_RunnerControlGRPCAddr rec) (sb_ID rec)]"
    using d D by (auto simp: deleteSandboxRecord_def Let_def split: option.splits)
  show "fst (deleteSandboxRecord rpc f rec g) =
     (case rpc of Some e \<Rightarrow> Some (writeError 502 (''failed to delete container: '' @ go_errText e))
      | None \<Rightarrow> map_option (\<lambda>e. writeError 500 (errText e))
          (case f of NoFault \<Rightarrow> None | FailBefore e \<Rightarrow> Some (errorf (''delete sandbox '' @ sb_ID rec) e)
           | FailAfter e \<Rightarrow> Some (errorf (''delete sandbox '' @ sb_ID rec) e)))"
    unfolding d(2) [symmetric]
    using D by (auto simp: deleteSandboxRecord_def Let_def split: option.splits)
qed

lemma proxy_response_view:
  "gw_calls (proxy_response x i u g) = gw_calls g"
  "own_rows t (gw_db g) = own_rows t (gw_db g') \<Longrightarrow>
     own_rows t (gw_db (proxy_response x i u g)) = own_rows t (gw_db (proxy_response x i u g'))"
  "owns_id t i (gw_db g) \<Longrightarrow> other_rows t (gw_db (proxy_response x i u g)) = other_rows t (gw_db g)"
  by (auto simp: proxy_response_def reapSandboxIfRunnerGone_def markSandboxActive_def Let_def
      own_rows_Delete own_rows_UpdateLastActive own_rows_UpdateStatus
      other_rows_Delete other_rows_UpdateLastActive other_rows_UpdateStatus owns_id_UpdateLastActive)

lemma reverse_proxy_answer:
  "fst (newRunnerReverseProxy b k tr onr m r g) = fst (newRunnerReverseProxy b k tr onr m r g')"
  by (simp add: newRunnerReverseProxy_def Let_def split: sum.split)

lemma reverse_proxy_calls:
  "gw_calls (snd (newRunnerReverseProxy b k tr (proxy_response x i) m r g)) = gw_calls g @ [Forward (rewriteRequest b k m r)]"
  by (simp add: newRunnerReverseProxy_def Let_def proxy_response_view(1) split: sum.split)

lemma reverse_proxy_own:
  assumes "own_rows t (gw_db g) = own_rows t (gw_db g')"
  shows "own_rows t (gw_db (snd (newRunnerReverseProxy b k tr (proxy_response x i) m r g)))
       = own_rows t (gw_db (snd (newRunnerReverseProxy b k tr (proxy_response x i) m r g')))"
  using assms proxy_response_view(2) [of t "call_runner c g" "call_runner c g'" x i for c]
  by (simp add: newRunnerReverseProxy_def Let_def split: sum.split)

lemma reverse_proxy_other:
  "owns_id t i (gw_db g) \<Longrightarrow>
     other_rows t (gw_db (snd (newRunnerReverseProxy b k tr (proxy_response x i) m r g))) = other_rows t (gw_db g)"
  by (simp add: newRunnerReverseProxy_def Let_def proxy_response_view(3) split: sum.split)

definition same_effect :: "string \<Rightarrow> gateway \<Rightarrow> response \<times> gateway \<Rightarrow> gateway \<Rightarrow> response \<times> gateway \<Rightarrow> bool" where
  "same_effect t g1 res1 g2 res2 \<longleftrightarrow>
     fst res1 = fst res2 \<and> own_rows t (gw_db (snd res1)) = own_rows t (gw_db (snd res2)) \<and>
     (\<exists>cs. gw_calls (snd res1) = gw_calls g1 @ cs \<and> gw_calls (snd res2) = gw_calls g2 @ cs)"

lemma same_effect_answer: "own_rows t (gw_db g1) = own_rows t (gw_db g2) \<Longrightarrow> same_effect t g1 (resp, g1) g2 (resp, g2)"
  by (simp add: same_effect_def)

lemma same_effect_delete:
  assumes "own_rows t (gw_db g1) = own_rows t (gw_db g2)"
  shows "same_effect t
    g1 (case deleteSandboxRecord rpc f rec g1 of (None, g') \<Rightarrow> (a, g') | (Some resp, g') \<Rightarrow> (resp, g'))
    g2 (case deleteSandboxRecord rpc f rec g2 of (None, g') \<Rightarrow> (a, g') | (Some resp, g') \<Rightarrow> (resp, g'))"
proof -
  obtain o1 h1 where 1: "deleteSandboxRecord rpc f rec g1 = (o1, h1)" by fastforce
  obtain o2 h2 where 2: "deleteSandboxRecord rpc f rec g2 = (o2, h2)" by fastforce
  from deleteSandboxRecord_view(1) [of t rpc f rec g1] deleteSandboxRecord_view(1) [of t rpc f rec g2]
    deleteSandboxRecord_view(2,3) [of rpc f rec g1] deleteSandboxRecord_view(2,3) [of rpc f rec g2] 1 2 assms
  have "o1 = o2" "own_rows t (gw_db h1) = own_rows t (gw_db h2)"
    "gw_calls h1 = gw_calls g1 @ [RpcDelete (sb_RunnerControlGRPCAddr rec) (sb_ID rec)]"
    "gw_calls h2 = gw_calls g2 @ [RpcDelete (sb_RunnerControlGRPCAddr rec) (sb_ID rec)]" by auto
  with 1 2 show ?thesis by (cases o2) (auto simp: same_effect_def)
qed

text \<open>
  Claim C3. Tenants cannot learn of each other's sandboxes: what reading, listing, deleting or
  using sandboxes answers a tenant, which runner calls it makes and what becomes of the tenant's
  rows is the same in any two states that agree on the tenant's own rows, whatever the other
  tenants have. Requests are not atomic here: while one is at its runner others may write to the
  store, as long as what they do leaves the tenant with the same own rows in both runs.
\<close>

theorem tenant_noninterference:
  assumes "tenant_request t r" and "db_wf (gw_db g1)" and "db_wf (gw_db g2)"
    and "own_rows t (gw_db g1) = own_rows t (gw_db g2)"
    and "own_rows t (meanwhile op (gw_db g1)) = own_rows t (meanwhile op (gw_db g2))"
  shows "same_effect t g1 (run_sandbox_op cfg op r g1) g2 (run_sandbox_op cfg op r g2)"
proof (cases op)
  case (OpGet f now i)
  show ?thesis
    unfolding OpGet run_sandbox_op.simps tenant_get [OF assms(1,2)] tenant_get [OF assms(1,3)] assms(4)
    by (simp add: same_effect_answer assms(4) split: sum.split option.split)
next
  case (OpList f)
  show ?thesis
    unfolding OpList run_sandbox_op.simps tenant_list [OF assms(1)] assms(4)
    by (simp add: same_effect_answer assms(4) split: sum.split)
next
  case (OpDeleteSandbox x i)
  show ?thesis
    unfolding OpDeleteSandbox run_sandbox_op.simps tenant_delete [OF assms(1,2)] tenant_delete [OF assms(1,3)] assms(4)
    by (simp add: same_effect_answer [OF assms(4)] same_effect_delete [OF assms(4)] split: sum.split option.split)
next
  case (OpProxy x limitBody i)
  let ?later = "\<lambda>g. g\<lparr>gw_db := px_meanwhile x (gw_db g)\<rparr>"
  have "own_rows t (gw_db (?later g1)) = own_rows t (gw_db (?later g2))" using assms(5) OpProxy by simp
  then have "same_effect t g1 (newRunnerReverseProxy b k tr (proxy_response x i) m r (?later g1))
      g2 (newRunnerReverseProxy b k tr (proxy_response x i) m r (?later g2))" for b k tr m
    using reverse_proxy_own [of t "?later g1" "?later g2"] reverse_proxy_answer [of b k tr _ m r "?later g1" "?later g2"]
    by (simp add: same_effect_def reverse_proxy_calls)
  then show ?thesis
    unfolding OpProxy run_sandbox_op.simps tenant_proxy [OF assms(1,2)] tenant_proxy [OF assms(1,3)] assms(4) proxy_result_def
    by (simp add: same_effect_answer [OF assms(4)] split: sum.split option.split)
qed

text \<open>
  The id of the request has not passed to someone else by the time the runner has answered. An id
  is free again once its sandbox is deleted, and the caller of a create may name it.
\<close>

fun id_kept :: "string \<Rightarrow> sandbox_op \<Rightarrow> db \<Rightarrow> bool" where
  "id_kept t (OpProxy x limitBody i) s \<longleftrightarrow> owns_id t i s \<longrightarrow> owns_id t i (px_meanwhile x s)"
| "id_kept t _ s \<longleftrightarrow> True"

text \<open>
  Claim C12. Tenants cannot touch each other's sandboxes. After a tenant's request on a sandbox the
  rows of everyone else are as the request found them, or, when it was forwarded to a runner, as
  the writes of others during that time left them: the request itself changes none. Forwarded
  requests hold no lock, so this needs that the id of the request did not pass to another tenant
  while it was under way (deleted, and created again under the same id by someone else).
\<close>

theorem tenant_integrity:
  assumes "tenant_request t r" and "db_wf (gw_db g)" and "id_kept t op (gw_db g)"
  shows "other_rows t (gw_db (snd (run_sandbox_op cfg op r g))) = other_rows t (gw_db g) \<or>
    other_rows t (gw_db (snd (run_sandbox_op cfg op r g))) = other_rows t (meanwhile op (gw_db g))"
proof (cases op)
  case (OpDeleteSandbox x i)
  have "other_rows t (gw_db g') = other_rows t (gw_db g)"
    if "own_get t (dx_get x) i (own_rows t (gw_db g)) = Inr (Some rec)"
      and "deleteSandboxRecord (dx_rpc x) (dx_row x) rec g = (res, g')" for rec res g'
    using deleteSandboxRecord_cases(3) [OF that(2)] own_get_owned [OF that(1)] own_get_owns_id [OF assms(2) that(1)]
    by (auto simp: other_rows_Delete)
  then show ?thesis
    unfolding OpDeleteSandbox run_sandbox_op.simps tenant_delete [OF assms(1,2)]
    by (auto split: sum.split option.split prod.split)
next
  case (OpProxy x limitBody i)
  have "owns_id t i (px_meanwhile x (gw_db g))"
    if "own_get t (px_get x) i (own_rows t (gw_db g)) = Inr (Some rec)" for rec
    using own_get_owns_id [OF assms(2) that] assms(3) OpProxy by simp
  then show ?thesis
    unfolding OpProxy run_sandbox_op.simps tenant_proxy [OF assms(1,2)] proxy_result_def
    by (auto simp: reverse_proxy_other split: sum.split option.split)
next
  case (OpGet f now i)
  show ?thesis unfolding OpGet run_sandbox_op.simps tenant_get [OF assms(1,2)] by (auto split: sum.split option.split)
next
  case (OpList f)
  show ?thesis unfolding OpList run_sandbox_op.simps tenant_list [OF assms(1)] by (auto split: sum.split)
qed

section \<open>What goes to a runner\<close>

definition response_effect :: "proxy_env \<Rightarrow> string \<Rightarrow> db \<Rightarrow> proxy_error + upstream \<Rightarrow> response \<Rightarrow> db \<Rightarrow> bool" where
  "response_effect x i s answer resp s' =
     (case answer of
        Inl e \<Rightarrow> s' = s \<and> rs_code resp \<in> {400, 502, 503}
      | Inr u \<Rightarrow>
          if 300 \<le> up_status u \<and> up_status u < 400 then s' = s \<and> rs_code resp = 502
          else rs_code resp = up_status u \<and>
            s' = (if up_gone u = ''1'' then snd (Delete (px_reap x) i s)
                  else if up_status u < 500 then snd (UpdateStatus (px_status x) i ''running''
                    (snd (UpdateLastActive (px_active x) (px_activeNow x) i s)))
                  else s))"

lemma proxyErrorHandler_code: "rs_code (proxyErrorHandler e) \<in> {400, 502, 503}"
  by (cases e) auto

lemma proxy_response_db:
  "gw_db (proxy_response x i u g) =
     (if up_gone u = ''1'' then snd (Delete (px_reap x) i (gw_db g))
      else if up_status u < 500 then snd (UpdateStatus (px_status x) i ''running''
        (snd (UpdateLastActive (px_active x) (px_activeNow x) i (gw_db g))))
      else gw_db g)"
  by (simp add: proxy_response_def reapSandboxIfRunnerGone_def RunnerReportsSandboxGone_def markSandboxActive_def Let_def)

lemma reverse_proxy_effect:
  assumes "newRunnerReverseProxy base k tr (proxy_response x i) m r g = (resp, g')"
  shows "response_effect x i (gw_db g) (tr (rewriteRequest base k m r)) resp (gw_db g')"
proof (cases "tr (rewriteRequest base k m r)")
  case (Inl e)
  with assms proxyErrorHandler_code [of e] show ?thesis
    by (auto simp: newRunnerReverseProxy_def response_effect_def Let_def)
next
  case (Inr u)
  show ?thesis
  proof (cases "300 \<le> up_status u \<and> up_status u < 400")
    case True
    with assms Inr show ?thesis by (auto simp: newRunnerReverseProxy_def response_effect_def Let_def)
  next
    case False
    with assms Inr have "resp = writeJSON (up_status u) (RelayedBody (up_body u))"
      "g' = proxy_response x i u (call_runner (Forward (rewriteRequest base k m r)) g)"
      by (simp_all add: newRunnerReverseProxy_def Let_def)
    with False Inr show ?thesis by (simp add: response_effect_def proxy_response_db)
  qed
qed

lemma proxy_route_Inr:
  "proxy_route cfg x rec = Inr base \<Longrightarrow> \<not> isPastIdleDeleteWindow rec (ac_idle cfg) (px_now x) \<and>
     (\<exists>scheme. px_scheme x base = Some scheme \<and> equalFold scheme ''https'')"
  by (auto simp: proxy_route_def Let_def split: if_splits option.splits)

lemma proxy_route_Inl: "proxy_route cfg x rec = Inl resp \<Longrightarrow> rs_code resp \<in> {404, 502}"
  by (auto simp: proxy_route_def Let_def split: if_splits option.splits)

lemma proxy_result_cases:
  assumes "proxy_result cfg x limitBody i r v g = (resp, g')"
  obtains (answered) "g' = g" "rs_code resp \<in> {400, 404, 500, 502}"
  | (forwarded) rec base where "v = Inr (Some rec)" "proxy_route cfg x rec = Inr base"
      "newRunnerReverseProxy base (ac_RunnerAPIKey cfg) (px_upstream x) (proxy_response x i)
         (if limitBody then Some (ac_MaxFileBytes cfg) else None) r (g\<lparr>gw_db := px_meanwhile x (gw_db g)\<rparr>) = (resp, g')"
  using assms
  by (auto simp: proxy_result_def split: sum.splits option.splits if_splits dest!: proxy_route_Inl)

text \<open>
  Claim C30. A request is forwarded only for a sandbox the caller may use, inside its idle window,
  and only to an https base; it carries the API's own runner key or none, never the caller's key.
  A redirect, an error or a server error leaves the store alone; only the runner's gone header
  removes the row; anything else marks the sandbox as active and running. These effects are on the
  store as others left it while the request was at the runner (\<open>px_meanwhile\<close>).
\<close>

theorem proxy_guards_and_effects:
  assumes "sandboxProxyHandler cfg x limitBody i r g = (resp, g')"
  shows "(g' = g \<and> rs_code resp \<in> {400, 404, 500, 502}) \<or>
    (\<exists>rec out.
       sandbox_rows (gw_db g) i = Some rec \<and> canAccessSandbox r rec \<and>
       \<not> isPastIdleDeleteWindow rec (ac_idle cfg) (px_now x) \<and>
       (\<exists>scheme. px_scheme x (or_base out) = Some scheme \<and> equalFold scheme ''https'') \<and>
       or_apiKey out = (if ac_RunnerAPIKey cfg = [] then None else Some (ac_RunnerAPIKey cfg)) \<and>
       or_path out = rq_path r \<and> gw_calls g' = gw_calls g @ [Forward out] \<and>
       response_effect x i (px_meanwhile x (gw_db g)) (px_upstream x out) resp (gw_db g'))"
  using assms unfolding proxy_by_result
proof (cases rule: proxy_result_cases)
  case (forwarded rec base)
  let ?out = "rewriteRequest base (ac_RunnerAPIKey cfg) (if limitBody then Some (ac_MaxFileBytes cfg) else None) r"
  have "sandbox_rows (gw_db g) i = Some rec" "canAccessSandbox r rec"
    using forwarded(1) by (auto split: sum.splits option.splits if_splits dest!: sqlite.read_ok)
  moreover have "or_base ?out = base" "or_path ?out = rq_path r"
    "or_apiKey ?out = (if ac_RunnerAPIKey cfg = [] then None else Some (ac_RunnerAPIKey cfg))"
    by (simp_all add: rewriteRequest_def)
  moreover have "gw_calls g' = gw_calls g @ [Forward ?out]"
    using reverse_proxy_calls [of base _ _ x i _ r "g\<lparr>gw_db := px_meanwhile x (gw_db g)\<rparr>"] forwarded(3)
    by (metis gateway.select_convs(6) gateway.surjective gateway.update_convs(1) snd_conv)
  ultimately show ?thesis
    using proxy_route_Inr [OF forwarded(2)] reverse_proxy_effect [OF forwarded(3)] by auto
qed simp

section \<open>Witnesses\<close>

definition example_own :: SandboxRecord where
  "example_own = example_row example_uuid ''t1''"

definition example_foreign :: SandboxRecord where
  "example_foreign = example_row ''ffffffff-0000-4000-8000-0123456789ab'' AdminTenantID"

lemma example_tenant_request: "tenant_request ''t1'' example_caller"
  by (simp add: tenant_request_def example_caller_def IsAdminTenantID_def AdminTenantID_def)

lemma example_gateway_wf: "db_wf (gw_db (example_gateway [example_own]))" "db_wf (gw_db (example_gateway [example_own, example_foreign]))"
  by (simp_all add: db_wf_def example_gateway_def example_own_def example_foreign_def example_defs example_uuid_def
      tenant_ids_def IsAdminTenantID_def)

text \<open>The tenant asks for the sandbox of someone else: it answers as if there were none.\<close>

theorem tenant_noninterference_witness:
  "same_effect ''t1''
     (example_gateway [example_own])
     (run_sandbox_op example_config (OpGet NoFault 20 (sb_ID example_foreign)) example_caller (example_gateway [example_own]))
     (example_gateway [example_own, example_foreign])
     (run_sandbox_op example_config (OpGet NoFault 20 (sb_ID example_foreign)) example_caller
        (example_gateway [example_own, example_foreign])) \<and>
   rs_code (fst (run_sandbox_op example_config (OpGet NoFault 20 (sb_ID example_foreign)) example_caller
        (example_gateway [example_own, example_foreign]))) = 404"
proof
  have "own_rows ''t1'' (gw_db (example_gateway [example_own])) = own_rows ''t1'' (gw_db (example_gateway [example_own, example_foreign]))"
    by (simp add: own_rows_def example_gateway_def example_own_def example_foreign_def example_row_def AdminTenantID_def)
  then show "same_effect ''t1''
     (example_gateway [example_own])
     (run_sandbox_op example_config (OpGet NoFault 20 (sb_ID example_foreign)) example_caller (example_gateway [example_own]))
     (example_gateway [example_own, example_foreign])
     (run_sandbox_op example_config (OpGet NoFault 20 (sb_ID example_foreign)) example_caller
        (example_gateway [example_own, example_foreign]))"
    by (intro tenant_noninterference [OF example_tenant_request example_gateway_wf]) simp_all
  show "rs_code (fst (run_sandbox_op example_config (OpGet NoFault 20 (sb_ID example_foreign)) example_caller
        (example_gateway [example_own, example_foreign]))) = 404"
    by code_simp
qed

definition example_proxy :: "nat \<Rightarrow> string \<Rightarrow> proxy_env" where
  "example_proxy st gone = \<lparr>px_get = NoFault, px_meanwhile = (\<lambda>s. s), px_now = 20, px_scheme = (\<lambda>_. Some ''HTTPS''),
     px_upstream = (\<lambda>_. Inr \<lparr>up_status = st, up_gone = gone, up_body = []\<rparr>), px_reap = NoFault, px_active = NoFault,
     px_activeNow = 21, px_status = NoFault\<rparr>"

text \<open>While the tenant's request is at the runner the administrator's sandbox appears.\<close>

definition example_busy :: proxy_env where
  "example_busy = (example_proxy 200 [])\<lparr>px_meanwhile := (\<lambda>s. s\<lparr>db_sandboxes := db_sandboxes s @ [example_foreign]\<rparr>)\<rparr>"

lemma example_busy_others:
  "other_rows ''t1'' (gw_db (example_gateway [example_own])) = []"
  "other_rows ''t1'' (px_meanwhile example_busy (gw_db (example_gateway [example_own]))) = [example_foreign]"
  by (simp_all add: other_rows_def example_busy_def example_gateway_def example_own_def example_foreign_def
      example_row_def AdminTenantID_def)

theorem tenant_integrity_witness:
  "other_rows ''t1'' (gw_db (snd (run_sandbox_op example_config (OpProxy example_busy True example_uuid) example_caller
     (example_gateway [example_own])))) \<in> {[], [example_foreign]}"
proof -
  have "id_kept ''t1'' (OpProxy example_busy True example_uuid) (gw_db (example_gateway [example_own]))"
    by (simp add: owns_id_def example_busy_def example_gateway_def example_own_def example_foreign_def
        example_row_def example_uuid_def)
  from tenant_integrity [OF example_tenant_request example_gateway_wf(1) this, of example_config] show ?thesis
    by (simp add: example_busy_others)
qed

text \<open>
  What \<open>id_kept\<close> excludes does happen: the tenant's sandbox is deleted while a request is at its
  runner, the administrator creates one under the same id, and the runner's gone header, which is
  about the old sandbox, removes the row of the new one.
\<close>

definition example_taken :: SandboxRecord where
  "example_taken = example_row example_uuid AdminTenantID"

definition example_reuse :: proxy_env where
  "example_reuse = (example_proxy 404 ''1'')\<lparr>px_meanwhile := (\<lambda>s. s\<lparr>db_sandboxes := [example_taken]\<rparr>)\<rparr>"

lemma reused_id_reaped:
  "db_sandboxes (gw_db (snd (sandboxProxyHandler example_config example_reuse True example_uuid example_caller
     (example_gateway [example_own])))) = []"
  by code_simp

definition example_proxied :: "response \<times> gateway" where
  "example_proxied = sandboxProxyHandler example_config (example_proxy 200 []) True example_uuid example_caller (example_gateway [example_own])"

theorem proxy_guards_and_effects_witness:
  "\<exists>out. gw_calls (snd example_proxied) = [Forward out] \<and> or_apiKey out = Some ''rk'' \<and>
     gw_db (snd example_proxied) = snd (UpdateStatus NoFault example_uuid ''running''
       (snd (UpdateLastActive NoFault 21 example_uuid (gw_db (example_gateway [example_own])))))"
proof -
  have eq: "sandboxProxyHandler example_config (example_proxy 200 []) True example_uuid example_caller (example_gateway [example_own])
      = (fst example_proxied, snd example_proxied)" by (simp add: example_proxied_def)
  have "rs_code (fst example_proxied) = 200" by code_simp
  with proxy_guards_and_effects [OF eq] show ?thesis
    by (auto simp: response_effect_def example_proxy_def example_config_def example_gateway_def)
qed

end
