(* ===== verification/Idle_Sweep.thy ===== *)
theory Idle_Sweep
  imports Idle_Policy Placement
begin

text \<open>
  The idle sweeper, \<open>internal/api/ttl.go\<close>. What one candidate's run does under the sandbox lock is
  a function of its environment (\<open>sweep_env\<close>: lock, store and runner answers); the pool that runs
  the candidates of a phase, runner by runner, is the step relation \<open>pool_step\<close>.
\<close>

text \<open>What the sweeper asks of a runner registry.\<close>

record registry_view =
  rv_get :: "string \<Rightarrow> Runner option"
  rv_gone :: "string \<Rightarrow> duration \<Rightarrow> int \<Rightarrow> bool"

definition memory_view :: "MemoryRegistry \<Rightarrow> registry_view" where
  "memory_view r = \<lparr>rv_get = (\<lambda>i. GetRunner i r), rv_gone = (\<lambda>i b now. GoneLongEnough i b now r)\<rparr>"

definition postgres_view :: "fault \<Rightarrow> fault \<Rightarrow> PostgresRegistry \<Rightarrow> registry_view" where
  "postgres_view f g r = \<lparr>rv_get = (\<lambda>i. PgGet f i r), rv_gone = (\<lambda>i b now. PgGoneLongEnough g i b now r)\<rparr>"

definition resolveControlAddr :: "SandboxRecord \<Rightarrow> registry_view \<Rightarrow> string" where
  "resolveControlAddr rec reg =
     (if sb_RunnerID rec \<noteq> [] then
        (case rv_get reg (sb_RunnerID rec) of
           Some run \<Rightarrow> if trimSpace (rn_ControlGRPCAddr run) \<noteq> [] then trimSpace (rn_ControlGRPCAddr run)
                       else sb_RunnerControlGRPCAddr rec
         | None \<Rightarrow> sb_RunnerControlGRPCAddr rec)
      else sb_RunnerControlGRPCAddr rec)"

definition orphanReapDue :: "registry_view \<Rightarrow> string \<Rightarrow> idle_config \<Rightarrow> int \<Rightarrow> bool" where
  "orphanReapDue reg i cfg now = (if i = [] then False else rv_gone reg i (orphanReapBuffer cfg) now)"

datatype sweep_error = RunnerCallError go_error | SweepStoreError store_error

fun status_code :: "go_error \<Rightarrow> grpc_code" where
  "status_code (StatusErr c _ _) = c"
| "status_code (PlainErr _) = CodeUnknown"

fun runnerUnreachable :: "sweep_error \<Rightarrow> bool" where
  "runnerUnreachable (RunnerCallError e) = (status_code e = Unavailable)"
| "runnerUnreachable (SweepStoreError _) = False"

section \<open>What a sweep does to one sandbox\<close>

text \<open>The answers one run gets: from the lock, the re-read, the runner (\<^const>\<open>None\<close> is success) and the write.\<close>

record sweep_env =
  sv_lock :: "store_error option"
  sv_get :: fault
  sv_rpc :: "go_error option"
  sv_write :: fault

datatype lifecycle_call = CallStop string string | CallDelete string string

record sweep_result =
  sr_acted :: bool
  sr_err :: "sweep_error option"
  sr_calls :: "lifecycle_call list"
  sr_db :: db

definition reapOrphanSandbox :: "fault \<Rightarrow> SandboxRecord \<Rightarrow> db \<Rightarrow> db" where
  "reapOrphanSandbox f rec s = snd (Delete f (sb_ID rec) s)"

definition deleteIdleSandbox :: "sweep_env \<Rightarrow> registry_view \<Rightarrow> idle_config \<Rightarrow> SandboxRecord \<Rightarrow> int \<Rightarrow> db \<Rightarrow> sweep_result" where
  "deleteIdleSandbox x reg cfg rec now s =
     (if orphanReapDue reg (sb_RunnerID rec) cfg now
      then \<lparr>sr_acted = True, sr_err = None, sr_calls = [], sr_db = reapOrphanSandbox (sv_write x) rec s\<rparr>
      else (let call = CallDelete (resolveControlAddr rec reg) (sb_ID rec) in
            case sv_rpc x of
              Some e \<Rightarrow> \<lparr>sr_acted = False, sr_err = Some (RunnerCallError e), sr_calls = [call], sr_db = s\<rparr>
            | None \<Rightarrow>
                (case Delete (sv_write x) (sb_ID rec) s of
                   (Some e, s') \<Rightarrow> \<lparr>sr_acted = False, sr_err = Some (SweepStoreError e), sr_calls = [call], sr_db = s'\<rparr>
                 | (None, s') \<Rightarrow> \<lparr>sr_acted = True, sr_err = None, sr_calls = [call], sr_db = s'\<rparr>)))"

type_synonym sweep_action = "sweep_env \<Rightarrow> SandboxRecord \<Rightarrow> db \<Rightarrow> sweep_result"

definition no_action :: "db \<Rightarrow> sweep_result" where
  "no_action s = \<lparr>sr_acted = False, sr_err = None, sr_calls = [], sr_db = s\<rparr>"

definition unix_seconds :: "int \<Rightarrow> int" where
  "unix_seconds now = now div second_ns"

definition delete_action :: "registry_view \<Rightarrow> idle_config \<Rightarrow> int \<Rightarrow> sweep_action" where
  "delete_action reg cfg now x rec s =
     (if \<not> delete_due cfg (unix_seconds now) rec then no_action s else deleteIdleSandbox x reg cfg rec now s)"

definition ephemeral_action :: "registry_view \<Rightarrow> idle_config \<Rightarrow> int \<Rightarrow> sweep_action" where
  "ephemeral_action reg cfg now x rec s =
     (if \<not> ephemeral_due cfg (unix_seconds now) rec then no_action s else deleteIdleSandbox x reg cfg rec now s)"

definition stop_action :: "registry_view \<Rightarrow> idle_config \<Rightarrow> int \<Rightarrow> sweep_action" where
  "stop_action reg cfg now x rec s =
     (if \<not> stop_due cfg (unix_seconds now) rec then no_action s
      else if orphanReapDue reg (sb_RunnerID rec) cfg now
      then \<lparr>sr_acted = True, sr_err = None, sr_calls = [], sr_db = reapOrphanSandbox (sv_write x) rec s\<rparr>
      else (let call = CallStop (resolveControlAddr rec reg) (sb_ID rec) in
            case sv_rpc x of
              Some e \<Rightarrow> \<lparr>sr_acted = False, sr_err = Some (RunnerCallError e), sr_calls = [call], sr_db = s\<rparr>
            | None \<Rightarrow>
                (case UpdateStatus (sv_write x) (sb_ID rec) ''stopped'' s of
                   (Some e, s') \<Rightarrow> \<lparr>sr_acted = False, sr_err = Some (SweepStoreError e), sr_calls = [call], sr_db = s'\<rparr>
                 | (None, s') \<Rightarrow> \<lparr>sr_acted = True, sr_err = None, sr_calls = [call], sr_db = s'\<rparr>)))"

text \<open>\<open>withLockedSandbox\<close>: the lock, the re-read, and the action on the fresh record if there is one.\<close>

definition withLockedSandbox :: "sweep_env \<Rightarrow> string \<Rightarrow> sweep_action \<Rightarrow> db \<Rightarrow> store_error + sweep_result" where
  "withLockedSandbox x i act s =
     (case sv_lock x of
        Some e \<Rightarrow> Inl e
      | None \<Rightarrow>
          (case Get (sv_get x) i s of
             Inl e \<Rightarrow> Inl e
           | Inr None \<Rightarrow> Inr (no_action s)
           | Inr (Some rec) \<Rightarrow> Inr (act x rec s)))"

section \<open>The pool\<close>

definition runnerKey :: "SandboxRecord \<Rightarrow> string" where
  "runnerKey rec = (if sb_RunnerID rec \<noteq> [] then sb_RunnerID rec else sb_RunnerControlGRPCAddr rec)"

definition groupByRunner :: "SandboxRecord list \<Rightarrow> string \<rightharpoonup> SandboxRecord list" where
  "groupByRunner recs k = (case filter (\<lambda>r. runnerKey r = k) recs of [] \<Rightarrow> None | g \<Rightarrow> Some g)"

record sweepStats =
  ss_candidates :: nat
  ss_acted :: nat
  ss_skippedUnreachable :: nat
  ss_failed :: nat

text \<open>Where the submitter of one runner stands: before its probe, feeding the rest, or done.\<close>

datatype submitter = ToProbe "SandboxRecord list" | Feeding "SandboxRecord list" | Submitted

text \<open>
  \<open>sp_runs\<close> counts the runs per runner and \<open>sp_idle\<close> those that found nothing to do; neither is
  in the code.
\<close>

record sweepPool =
  sp_db :: db
  sp_groups :: "string \<Rightarrow> submitter"
  sp_pending :: "SandboxRecord multiset"
  sp_unreachable :: "string set"
  sp_stats :: sweepStats
  sp_cancelled :: bool
  sp_runs :: "string \<Rightarrow> nat"
  sp_idle :: nat

definition newSweepPool :: "SandboxRecord list \<Rightarrow> db \<Rightarrow> sweepPool" where
  "newSweepPool recs s =
     \<lparr>sp_db = s,
      sp_groups = (\<lambda>k. case groupByRunner recs k of None \<Rightarrow> Submitted | Some g \<Rightarrow> ToProbe g),
      sp_pending = {#}, sp_unreachable = {},
      sp_stats = \<lparr>ss_candidates = length recs, ss_acted = 0, ss_skippedUnreachable = 0, ss_failed = 0\<rparr>,
      sp_cancelled = False, sp_runs = (\<lambda>_. 0), sp_idle = 0\<rparr>"

text \<open>\<open>run\<close>: one candidate, and the bookkeeping of its outcome under the pool's mutex.\<close>

definition count_run :: "SandboxRecord \<Rightarrow> sweepPool \<Rightarrow> sweepPool" where
  "count_run rec p = p\<lparr>sp_runs := (sp_runs p)(runnerKey rec := Suc (sp_runs p (runnerKey rec)))\<rparr>"

definition sweep_run :: "sweep_action \<Rightarrow> sweep_env \<Rightarrow> SandboxRecord \<Rightarrow> sweepPool \<Rightarrow> sweepPool" where
  "sweep_run act x rec p =
     (let q = count_run rec p in
      case withLockedSandbox x (sb_ID rec) act (sp_db p) of
        Inl _ \<Rightarrow> q\<lparr>sp_stats := (sp_stats p)\<lparr>ss_failed := ss_failed (sp_stats p) + 1\<rparr>\<rparr>
      | Inr res \<Rightarrow>
          (case sr_err res of
             Some e \<Rightarrow> q\<lparr>sp_db := sr_db res,
                 sp_unreachable := (if runnerUnreachable e then insert (runnerKey rec) (sp_unreachable p)
                                    else sp_unreachable p),
                 sp_stats := (sp_stats p)\<lparr>ss_failed := ss_failed (sp_stats p) + 1\<rparr>\<rparr>
           | None \<Rightarrow>
               if sr_acted res
               then q\<lparr>sp_db := sr_db res, sp_stats := (sp_stats p)\<lparr>ss_acted := ss_acted (sp_stats p) + 1\<rparr>\<rparr>
               else q\<lparr>sp_db := sr_db res, sp_idle := Suc (sp_idle p)\<rparr>))"

text \<open>
  \<open>submitRunner\<close> in steps: the probe runs to its end before the rest is looked at, each further
  record is submitted while the runner is not known to be unreachable, and pending records run in
  any order. \<open>X\<close> are the environments a run can meet and \<open>others\<close> what requests do to the
  database meanwhile. \<open>limit\<close> bounds the runs in progress.
\<close>

inductive pool_step :: "sweep_action \<Rightarrow> sweep_env set \<Rightarrow> (db \<Rightarrow> db \<Rightarrow> bool) \<Rightarrow> nat \<Rightarrow> sweepPool \<Rightarrow> sweepPool \<Rightarrow> bool"
  for act X others limit where
  probe: "sp_groups p k = ToProbe (rec # rest) \<Longrightarrow> size (sp_pending p) < limit \<Longrightarrow> x \<in> X \<Longrightarrow>
    pool_step act X others limit p (sweep_run act x rec (p\<lparr>sp_groups := (sp_groups p)(k := Feeding rest)\<rparr>))"
| submit: "sp_groups p k = Feeding (rec # rest) \<Longrightarrow> \<not> sp_cancelled p \<Longrightarrow> k \<notin> sp_unreachable p \<Longrightarrow> size (sp_pending p) < limit \<Longrightarrow>
    pool_step act X others limit p
      (p\<lparr>sp_groups := (sp_groups p)(k := Feeding rest), sp_pending := add_mset rec (sp_pending p)\<rparr>)"
| skip: "sp_groups p k = Feeding rest \<Longrightarrow> rest \<noteq> [] \<Longrightarrow> \<not> sp_cancelled p \<Longrightarrow> k \<in> sp_unreachable p \<Longrightarrow>
    pool_step act X others limit p
      (p\<lparr>sp_groups := (sp_groups p)(k := Submitted),
         sp_stats := (sp_stats p)\<lparr>ss_skippedUnreachable := ss_skippedUnreachable (sp_stats p) + length rest\<rparr>\<rparr>)"
| finish: "sp_groups p k = Feeding [] \<Longrightarrow>
    pool_step act X others limit p (p\<lparr>sp_groups := (sp_groups p)(k := Submitted)\<rparr>)"
| run: "sp_pending p = add_mset rec P \<Longrightarrow> x \<in> X \<Longrightarrow>
    pool_step act X others limit p (sweep_run act x rec (p\<lparr>sp_pending := P\<rparr>))"
| cancel: "pool_step act X others limit p (p\<lparr>sp_cancelled := True\<rparr>)"
| abandon: "sp_groups p k = Feeding rest \<Longrightarrow> sp_cancelled p \<Longrightarrow>
    pool_step act X others limit p (p\<lparr>sp_groups := (sp_groups p)(k := Submitted)\<rparr>)"
| request: "others (sp_db p) s' \<Longrightarrow> pool_step act X others limit p (p\<lparr>sp_db := s'\<rparr>)"

definition pool_done :: "sweepPool \<Rightarrow> bool" where
  "pool_done p \<longleftrightarrow> (\<forall>k. sp_groups p k = Submitted) \<and> sp_pending p = {#}"

inductive pool_reach :: "sweep_action \<Rightarrow> sweep_env set \<Rightarrow> (db \<Rightarrow> db \<Rightarrow> bool) \<Rightarrow> nat \<Rightarrow> sweepPool \<Rightarrow> sweepPool \<Rightarrow> bool"
  for act X others limit p0 where
  pool_start: "pool_reach act X others limit p0 p0"
| pool_next: "pool_reach act X others limit p0 p \<Longrightarrow> pool_step act X others limit p p' \<Longrightarrow> pool_reach act X others limit p0 p'"

text \<open>
  One phase over the records it listed (a failing list ends the phase), and one pass: each enabled
  phase in turn. A pass that is cancelled stops after a phase.
\<close>

definition sweepConcurrently :: "idle_config \<Rightarrow> sweep_env set \<Rightarrow> (db \<Rightarrow> db \<Rightarrow> bool) \<Rightarrow> sweep_action \<Rightarrow>
    store_error + SandboxRecord list \<Rightarrow> db \<Rightarrow> db \<Rightarrow> bool" where
  "sweepConcurrently cfg X others act listed s s' \<longleftrightarrow>
     (case listed of
        Inl _ \<Rightarrow> s' = s
      | Inr recs \<Rightarrow> \<exists>p. pool_reach act X others (nat (sweepConcurrency cfg)) (newSweepPool recs s) p \<and>
           pool_done p \<and> s' = sp_db p)"

inductive sweepIdleSandboxes :: "idle_config \<Rightarrow> registry_view \<Rightarrow> sweep_env set \<Rightarrow> (db \<Rightarrow> db \<Rightarrow> bool) \<Rightarrow> int \<Rightarrow> db \<Rightarrow> db \<Rightarrow> bool"
  for cfg reg X others now where
  pass: "(if ic_IdleStopAfter cfg > 0
     then sweepConcurrently cfg X others (stop_action reg cfg now)
        (ListForIdleReapStop f1 (stopCutoff cfg (unix_seconds now)) False s0) s0 s1 else s1 = s0) \<Longrightarrow>
   (if ic_IdleDeleteAfter cfg > 0
     then sweepConcurrently cfg X others (delete_action reg cfg now)
        (ListForIdleReapDelete f2 (deleteCutoff cfg (unix_seconds now)) s1) s1 s2 else s2 = s1) \<Longrightarrow>
   (if ephemeralIdleWindow cfg > 0
     then sweepConcurrently cfg X others (ephemeral_action reg cfg now)
        (ListForIdleReapStop f3 (ephemeralCutoff cfg (unix_seconds now)) True s2) s2 s3 else s3 = s2) \<Longrightarrow>
   s' \<in> {s1, s2, s3} \<Longrightarrow> sweepIdleSandboxes cfg reg X others now s0 s'"

section \<open>Accounting\<close>

definition counted :: "sweepPool \<Rightarrow> nat" where
  "counted p = ss_acted (sp_stats p) + ss_failed (sp_stats p) + ss_skippedUnreachable (sp_stats p) + sp_idle p"

lemma sweep_run_same [simp]:
  "sp_groups (sweep_run act x rec p) = sp_groups p" "sp_pending (sweep_run act x rec p) = sp_pending p"
  "sp_cancelled (sweep_run act x rec p) = sp_cancelled p"
  "ss_candidates (sp_stats (sweep_run act x rec p)) = ss_candidates (sp_stats p)"
  "sp_runs (sweep_run act x rec p) = (sp_runs p)(runnerKey rec := Suc (sp_runs p (runnerKey rec)))"
  by (auto simp: sweep_run_def count_run_def Let_def split: sum.split option.split)

lemma sweep_run_counted [simp]: "counted (sweep_run act x rec p) = Suc (counted p)"
  by (auto simp: sweep_run_def count_run_def counted_def Let_def split: sum.split option.split)

lemma counted_upd [simp]:
  "counted (p\<lparr>sp_groups := g\<rparr>) = counted p" "counted (p\<lparr>sp_pending := P\<rparr>) = counted p"
  "counted (p\<lparr>sp_db := s\<rparr>) = counted p" "counted (p\<lparr>sp_cancelled := c\<rparr>) = counted p"
  "counted (p\<lparr>sp_groups := g, sp_pending := P\<rparr>) = counted p"
  by (simp_all add: counted_def)

fun todo :: "submitter \<Rightarrow> SandboxRecord list" where
  "todo (ToProbe g) = g" | "todo (Feeding g) = g" | "todo Submitted = []"

lemma sum_upd:
  fixes f :: "string \<Rightarrow> 'a" and w :: "'a \<Rightarrow> nat"
  assumes "finite K" and "k \<in> K"
  shows "(\<Sum>j\<in>K. w ((f(k := v)) j)) + w (f k) = (\<Sum>j\<in>K. w (f j)) + w v"
  using assms by (simp add: sum.remove)

lemma sum_groups:
  assumes "finite K" and "f ` set xs \<subseteq> K"
  shows "(\<Sum>k\<in>K. length (filter (\<lambda>r. f r = k) xs)) = length xs"
  using assms
proof (induction xs)
  case (Cons x xs)
  have "(\<Sum>k\<in>K. length (filter (\<lambda>r. f r = k) (x # xs))) =
      (\<Sum>k\<in>K. (if f x = k then 1 else 0) + length (filter (\<lambda>r. f r = k) xs))"
    by (intro sum.cong) auto
  with Cons show ?case by (simp add: sum.distrib)
qed simp

text \<open>A submitter has only its own runner's records, and at least one to probe with.\<close>

definition keyed :: "string \<Rightarrow> submitter \<Rightarrow> bool" where
  "keyed k g \<longleftrightarrow> (\<forall>r \<in> set (todo g). runnerKey r = k) \<and> g \<noteq> ToProbe []"

text \<open>Every candidate is with a submitter, pending, or counted, unless the sweep was cancelled.\<close>

definition pool_inv :: "SandboxRecord list \<Rightarrow> sweepPool \<Rightarrow> bool" where
  "pool_inv recs p \<longleftrightarrow>
     (\<forall>k. k \<notin> runnerKey ` set recs \<longrightarrow> sp_groups p k = Submitted) \<and>
     (\<forall>k. keyed k (sp_groups p k)) \<and>
     ss_candidates (sp_stats p) = length recs \<and>
     (\<not> sp_cancelled p \<longrightarrow>
       (\<Sum>k\<in>runnerKey ` set recs. length (todo (sp_groups p k))) + size (sp_pending p) + counted p = length recs)"

lemma todo_new: "todo (sp_groups (newSweepPool recs s) k) = filter (\<lambda>r. runnerKey r = k) recs"
  by (cases "filter (\<lambda>r. runnerKey r = k) recs") (simp_all add: newSweepPool_def groupByRunner_def)

lemma pool_inv_new: "pool_inv recs (newSweepPool recs s)"
proof -
  have "sp_groups (newSweepPool recs s) k = Submitted" if "k \<notin> runnerKey ` set recs" for k
  proof -
    have "filter (\<lambda>r. runnerKey r = k) recs = []" using that by (auto simp: filter_empty_conv)
    then show ?thesis by (simp add: newSweepPool_def groupByRunner_def)
  qed
  moreover have "sp_groups (newSweepPool recs s) k \<noteq> ToProbe []" for k
    by (cases "filter (\<lambda>r. runnerKey r = k) recs") (simp_all add: newSweepPool_def groupByRunner_def)
  moreover have "(\<Sum>k\<in>runnerKey ` set recs. length (filter (\<lambda>r. runnerKey r = k) recs)) = length recs"
    by (rule sum_groups) auto
  moreover have "counted (newSweepPool recs s) = 0" "sp_pending (newSweepPool recs s) = {#}"
    "ss_candidates (sp_stats (newSweepPool recs s)) = length recs"
    by (simp_all add: counted_def newSweepPool_def)
  ultimately show ?thesis by (simp add: pool_inv_def todo_new keyed_def)
qed

lemma pool_inv_regroup:
  assumes inv: "pool_inv recs p" and g: "sp_groups p k \<noteq> Submitted" and new: "keyed k v"
    and p': "sp_groups p' = (sp_groups p)(k := v)" "ss_candidates (sp_stats p') = ss_candidates (sp_stats p)"
      "sp_cancelled p' = sp_cancelled p"
    and bal: "\<not> sp_cancelled p \<Longrightarrow> length (todo v) + size (sp_pending p') + counted p' =
      length (todo (sp_groups p k)) + size (sp_pending p) + counted p"
  shows "pool_inv recs p'"
proof -
  let ?K = "runnerKey ` set recs"
  have k: "k \<in> ?K" using inv g by (auto simp: pool_inv_def)
  have "(\<Sum>j\<in>?K. length (todo (sp_groups p' j))) + length (todo (sp_groups p k)) =
      (\<Sum>j\<in>?K. length (todo (sp_groups p j))) + length (todo v)"
    unfolding p'(1) using sum_upd [OF _ k, where w = "\<lambda>g. length (todo g)"] by simp
  then show ?thesis using inv k new p' bal by (auto simp: pool_inv_def)
qed

lemma keyed_step:
  "pool_inv recs p \<Longrightarrow> sp_groups p k = ToProbe (r # rest) \<or> sp_groups p k = Feeding (r # rest) \<Longrightarrow>
   keyed k (Feeding rest) \<and> runnerKey r = k"
  unfolding pool_inv_def by (metis keyed_def list.set_intros submitter.distinct(1) todo.simps(1,2))

lemma keyed_Submitted [simp]: "keyed k Submitted"
  by (simp add: keyed_def)

lemma pool_inv_step: "pool_step act X others limit p p' \<Longrightarrow> pool_inv recs p \<Longrightarrow> pool_inv recs p'"
proof (induction rule: pool_step.induct)
  case (probe p k rec rest x)
  show ?case by (rule pool_inv_regroup [OF probe(4), where k = k and v = "Feeding rest"]) (use probe keyed_step [OF probe(4), of k rec rest] in auto)
next
  case (submit p k rec rest)
  show ?case by (rule pool_inv_regroup [OF submit(5), where k = k and v = "Feeding rest"]) (use submit keyed_step [OF submit(5), of k rec rest] in auto)
next
  case (skip p k rest)
  show ?case
    by (rule pool_inv_regroup [OF skip(5), where k = k and v = Submitted]) (use skip in \<open>auto simp: counted_def\<close>)
next
  case (finish p k)
  show ?case by (rule pool_inv_regroup [OF finish(2), where k = k and v = Submitted]) (use finish in auto)
next
  case (abandon p k rest)
  show ?case by (rule pool_inv_regroup [OF abandon(3), where k = k and v = Submitted]) (use abandon in auto)
next
  case (run p rec P x)
  then show ?case by (simp add: pool_inv_def)
next
  case (cancel p)
  then show ?case by (simp add: pool_inv_def)
next
  case (request p s')
  then show ?case by (simp add: pool_inv_def)
qed

section \<open>What a phase does to a row\<close>

text \<open>
  \<open>acts_by act E\<close>: an action on a record it just read leaves all other rows alone, and that row
  as it was or changed as \<open>E\<close> allows.
\<close>

definition acts_by :: "sweep_action \<Rightarrow> (SandboxRecord \<Rightarrow> SandboxRecord option \<Rightarrow> bool) \<Rightarrow> bool" where
  "acts_by act E \<longleftrightarrow> (\<forall>x r s. sandbox_rows s (sb_ID r) = Some r \<longrightarrow>
     (\<forall>j. j \<noteq> sb_ID r \<longrightarrow> sandbox_rows (sr_db (act x r s)) j = sandbox_rows s j) \<and>
     (sandbox_rows (sr_db (act x r s)) (sb_ID r) = Some r \<or> E r (sandbox_rows (sr_db (act x r s)) (sb_ID r))) \<and>
     (db_wf s \<longrightarrow> db_wf (sr_db (act x r s))))"

lemma rows_Delete:
  "sandbox_rows (snd (Delete f i s)) i \<in> {sandbox_rows s i, None}"
  by (cases "Delete f i s"; cases "fst (Delete f i s)") (auto dest: sqlite.remove_ok sqlite.remove_err)

lemma deleteIdleSandbox_rows:
  "j \<noteq> sb_ID r \<Longrightarrow> sandbox_rows (sr_db (deleteIdleSandbox x reg cfg r now s)) j = sandbox_rows s j"
  "sandbox_rows (sr_db (deleteIdleSandbox x reg cfg r now s)) (sb_ID r) \<in> {sandbox_rows s (sb_ID r), None}"
  "db_wf s \<Longrightarrow> db_wf (sr_db (deleteIdleSandbox x reg cfg r now s))"
  using sqlite.remove_other [of "sb_ID r" j "sv_write x" s] rows_Delete [of "sv_write x" "sb_ID r" s]
    db_wf_Delete [of s "sv_write x" "sb_ID r"]
  by (auto simp: deleteIdleSandbox_def reapOrphanSandbox_def Let_def split: option.split prod.split)

lemma acts_byI:
  assumes "\<And>x r s j. sandbox_rows s (sb_ID r) = Some r \<Longrightarrow> j \<noteq> sb_ID r \<Longrightarrow>
      sandbox_rows (sr_db (act x r s)) j = sandbox_rows s j"
    and "\<And>x r s. sandbox_rows s (sb_ID r) = Some r \<Longrightarrow> sandbox_rows (sr_db (act x r s)) (sb_ID r) = Some r \<or>
      E r (sandbox_rows (sr_db (act x r s)) (sb_ID r))"
    and "\<And>x r s. db_wf s \<Longrightarrow> db_wf (sr_db (act x r s))"
  shows "acts_by act E"
  using assms by (simp add: acts_by_def)

lemma acts_byD:
  assumes "acts_by act E" and "sandbox_rows s (sb_ID r) = Some r"
  shows "j \<noteq> sb_ID r \<Longrightarrow> sandbox_rows (sr_db (act x r s)) j = sandbox_rows s j"
    and "sandbox_rows (sr_db (act x r s)) (sb_ID r) = Some r \<or> E r (sandbox_rows (sr_db (act x r s)) (sb_ID r))"
    and "db_wf s \<Longrightarrow> db_wf (sr_db (act x r s))"
  using assms by (simp_all add: acts_by_def)

lemma deleteIdleSandbox_acts:
  assumes "\<And>x r s. act x r s = (if \<not> due r then no_action s else deleteIdleSandbox x reg cfg r now s)"
  shows "acts_by act (\<lambda>r v. v = None \<and> due r)"
proof (rule acts_byI)
  fix x r s
  show "sandbox_rows s (sb_ID r) = Some r \<Longrightarrow> sandbox_rows (sr_db (act x r s)) (sb_ID r) = Some r \<or>
      sandbox_rows (sr_db (act x r s)) (sb_ID r) = None \<and> due r"
    using deleteIdleSandbox_rows(2) [of x reg cfg r now s] by (simp add: assms no_action_def)
qed (simp_all add: assms no_action_def deleteIdleSandbox_rows)

lemma delete_action_acts: "acts_by (delete_action reg cfg now) (\<lambda>r v. v = None \<and> delete_due cfg (unix_seconds now) r)"
  by (rule deleteIdleSandbox_acts) (rule delete_action_def)

lemma ephemeral_action_acts:
  "acts_by (ephemeral_action reg cfg now) (\<lambda>r v. v = None \<and> ephemeral_due cfg (unix_seconds now) r)"
  by (rule deleteIdleSandbox_acts) (rule ephemeral_action_def)

text \<open>The stop sweep stops, or removes the row of a runner that is gone.\<close>

definition stop_effect :: "registry_view \<Rightarrow> idle_config \<Rightarrow> int \<Rightarrow> SandboxRecord \<Rightarrow> SandboxRecord option \<Rightarrow> bool" where
  "stop_effect reg cfg now r v \<longleftrightarrow> stop_due cfg (unix_seconds now) r \<and>
     (v = Some (r\<lparr>sb_Status := ''stopped''\<rparr>) \<or> v = None \<and> orphanReapDue reg (sb_RunnerID r) cfg now)"

lemma rows_UpdateStatus:
  "sandbox_rows s i = Some r \<Longrightarrow>
   sandbox_rows (snd (UpdateStatus f i st s)) i \<in> {Some r, Some (r\<lparr>sb_Status := st\<rparr>)}"
  using sqlite.set_status_rows [of f i st s "fst (UpdateStatus f i st s)" "snd (UpdateStatus f i st s)"] by auto

lemma stop_action_db:
  obtains "sr_db (stop_action reg cfg now x r s) = s"
  | "stop_due cfg (unix_seconds now) r" "orphanReapDue reg (sb_RunnerID r) cfg now"
    "sr_db (stop_action reg cfg now x r s) = snd (Delete (sv_write x) (sb_ID r) s)"
  | "stop_due cfg (unix_seconds now) r"
    "sr_db (stop_action reg cfg now x r s) = snd (UpdateStatus (sv_write x) (sb_ID r) ''stopped'' s)"
proof -
  let ?s' = "sr_db (stop_action reg cfg now x r s)"
  have "?s' = s \<or> stop_due cfg (unix_seconds now) r \<and>
      (orphanReapDue reg (sb_RunnerID r) cfg now \<and> ?s' = snd (Delete (sv_write x) (sb_ID r) s) \<or>
       ?s' = snd (UpdateStatus (sv_write x) (sb_ID r) ''stopped'' s))"
    by (simp add: stop_action_def no_action_def reapOrphanSandbox_def Let_def split: option.split prod.split)
  then show thesis using that by blast
qed

lemma stop_action_acts: "acts_by (stop_action reg cfg now) (stop_effect reg cfg now)"
proof (rule acts_byI)
  fix x r s j
  show "j \<noteq> sb_ID r \<Longrightarrow> sandbox_rows (sr_db (stop_action reg cfg now x r s)) j = sandbox_rows s j"
    by (rule stop_action_db [of reg cfg now x r s]) (simp_all add: sqlite.remove_other sqlite.set_status_other)
  show "db_wf s \<Longrightarrow> db_wf (sr_db (stop_action reg cfg now x r s))"
    by (rule stop_action_db [of reg cfg now x r s]) (simp_all add: keeps_inv)
  show "sandbox_rows s (sb_ID r) = Some r \<Longrightarrow> sandbox_rows (sr_db (stop_action reg cfg now x r s)) (sb_ID r) = Some r \<or>
      stop_effect reg cfg now r (sandbox_rows (sr_db (stop_action reg cfg now x r s)) (sb_ID r))"
    by (rule stop_action_db [of reg cfg now x r s])
      (use rows_Delete [of "sv_write x" "sb_ID r" s] rows_UpdateStatus [of s "sb_ID r" r "sv_write x" "''stopped''"]
        in \<open>auto simp: stop_effect_def\<close>)
qed

lemma sweep_run_db:
  "sp_db (sweep_run act x rec p) =
     (case withLockedSandbox x (sb_ID rec) act (sp_db p) of Inl _ \<Rightarrow> sp_db p | Inr res \<Rightarrow> sr_db res)"
  by (simp add: sweep_run_def count_run_def Let_def split: sum.split option.split)

lemma sweep_run_row:
  assumes acts: "acts_by act E" and s_def: "s = sp_db p" and s'_def: "s' = sp_db (sweep_run act x rec p)"
  shows "sandbox_rows s' j = sandbox_rows s j \<or>
     j = sb_ID rec \<and> (\<exists>r. sandbox_rows s j = Some r \<and> E r (sandbox_rows s' j))" (is ?row)
    and "db_wf s \<Longrightarrow> db_wf s'"
proof -
  have "?row \<and> (db_wf s \<longrightarrow> db_wf s')"
  proof (cases "withLockedSandbox x (sb_ID rec) act s")
    case (Inr res)
    then consider "sr_db res = s" | r where "Get (sv_get x) (sb_ID rec) s = Inr (Some r)" "res = act x r s"
      by (auto simp: withLockedSandbox_def no_action_def split: option.splits sum.splits)
    then show ?thesis
    proof cases
      case 2
      have row: "sandbox_rows s (sb_ID rec) = Some r" using sqlite.read_ok [OF 2(1)] by simp
      then have "sb_ID r = sb_ID rec" by (auto simp: sandbox_rows_def dest: find_row_SomeD)
      moreover have "s' = sr_db (act x r s)" using Inr 2(2) by (simp add: s'_def sweep_run_db s_def)
      ultimately show ?thesis
        using row acts_byD [OF acts, of s r] by (cases "j = sb_ID rec") auto
    qed (use Inr in \<open>simp add: s'_def sweep_run_db s_def\<close>)
  qed (simp add: s'_def sweep_run_db s_def)
  then show ?row and "db_wf s \<Longrightarrow> db_wf s'" by blast+
qed

text \<open>Only listed records are run.\<close>

definition pool_recs :: "SandboxRecord list \<Rightarrow> sweepPool \<Rightarrow> bool" where
  "pool_recs recs p \<longleftrightarrow> (\<forall>k. set (todo (sp_groups p k)) \<subseteq> set recs) \<and> set_mset (sp_pending p) \<subseteq> set recs"

lemma pool_recs_new: "pool_recs recs (newSweepPool recs s)"
  unfolding pool_recs_def todo_new by (auto simp: newSweepPool_def)

lemma pool_recs_regroup:
  assumes "pool_recs recs p" and "sp_groups p' = (sp_groups p)(k := v)" and "set (todo v) \<subseteq> set (todo (sp_groups p k))"
    and "set_mset (sp_pending p') \<subseteq> set_mset (sp_pending p) \<union> set (todo (sp_groups p k))"
  shows "pool_recs recs p'"
proof -
  have old: "set (todo (sp_groups p j)) \<subseteq> set recs" for j using assms(1) by (simp add: pool_recs_def)
  have "set (todo (sp_groups p' j)) \<subseteq> set recs" for j
    using old [of j] old [of k] assms(2,3) by (cases "j = k") auto
  moreover have "set_mset (sp_pending p') \<subseteq> set recs"
    using assms(1,4) old [of k] by (auto simp: pool_recs_def)
  ultimately show ?thesis by (simp add: pool_recs_def)
qed

lemma pool_recs_step: "pool_step act X others limit p p' \<Longrightarrow> pool_recs recs p \<Longrightarrow> pool_recs recs p'"
proof (induction rule: pool_step.induct)
  case (probe p k rec rest x)
  then show ?case by (intro pool_recs_regroup [OF probe(4), where k = k and v = "Feeding rest"]) auto
next
  case (submit p k rec rest)
  then show ?case by (intro pool_recs_regroup [OF submit(5), where k = k and v = "Feeding rest"]) auto
next
  case (skip p k rest)
  then show ?case by (intro pool_recs_regroup [OF skip(5), where k = k and v = Submitted]) auto
next
  case (finish p k)
  then show ?case by (intro pool_recs_regroup [OF finish(2), where k = k and v = Submitted]) auto
next
  case (abandon p k rest)
  then show ?case by (intro pool_recs_regroup [OF abandon(3), where k = k and v = Submitted]) auto
qed (auto simp: pool_recs_def)

lemma pool_step_row:
  assumes "pool_step act X others limit p p'" and acts: "acts_by act E" and "pool_recs recs p"
    and others: "\<And>s s'. others s s' \<Longrightarrow> sandbox_rows s' i = sandbox_rows s i \<and> (db_wf s \<longrightarrow> db_wf s')"
    and Q: "\<And>r v. Q (Some r) \<Longrightarrow> i \<in> sb_ID ` set recs \<Longrightarrow> E r v \<Longrightarrow> Q v"
    and inv: "db_wf (sp_db p)" "Q (sandbox_rows (sp_db p) i)"
  shows "db_wf (sp_db p') \<and> Q (sandbox_rows (sp_db p') i)"
proof -
  have ran: "db_wf (sp_db (sweep_run act x rec q)) \<and> Q (sandbox_rows (sp_db (sweep_run act x rec q)) i)"
    if "sp_db q = sp_db p" "rec \<in> set recs" for x rec q
    using sweep_run_row(1) [OF acts refl refl, where x = x and rec = rec and p = q and j = i]
      sweep_run_row(2) [OF acts refl refl, where x = x and rec = rec and p = q] inv that
    by (auto intro: Q)
  from assms(1) show ?thesis
  proof cases
    case (probe k rec rest x)
    have "set (todo (sp_groups p k)) \<subseteq> set recs" using assms(3) by (simp add: pool_recs_def)
    then show ?thesis unfolding probe(1) by (intro ran) (use probe in auto)
  next
    case (run rec P x)
    with assms(3) show ?thesis by (auto simp: pool_recs_def intro!: ran)
  qed (use inv others in auto)
qed

lemma pool_reach_row:
  assumes "pool_reach act X others limit (newSweepPool recs s) p" and "acts_by act E"
    and "\<And>s s'. others s s' \<Longrightarrow> sandbox_rows s' i = sandbox_rows s i \<and> (db_wf s \<longrightarrow> db_wf s')"
    and "\<And>r v. Q (Some r) \<Longrightarrow> i \<in> sb_ID ` set recs \<Longrightarrow> E r v \<Longrightarrow> Q v"
    and "db_wf s" "Q (sandbox_rows s i)"
  shows "db_wf (sp_db p) \<and> Q (sandbox_rows (sp_db p) i)"
proof -
  from assms(1) have "pool_recs recs p \<and> db_wf (sp_db p) \<and> Q (sandbox_rows (sp_db p) i)"
  proof induction
    case pool_start
    have "sp_db (newSweepPool recs s) = s" by (simp add: newSweepPool_def)
    with assms(5,6) pool_recs_new show ?case by metis
  next
    case (pool_next p p')
    then have p: "pool_recs recs p" "db_wf (sp_db p)" "Q (sandbox_rows (sp_db p) i)" by auto
    have "db_wf (sp_db p') \<and> Q (sandbox_rows (sp_db p') i)"
      by (rule pool_step_row [where Q = Q, OF pool_next(2) assms(2) p(1) assms(3,4) p(2,3)])
    with pool_recs_step [OF pool_next(2) p(1)] show ?case by simp
  qed
  then show ?thesis by simp
qed

text \<open>One phase, over the records it listed from the rows that satisfy \<open>sel\<close>.\<close>

lemma phase_row:
  assumes "sweepConcurrently cfg X others act listed s s'" and "acts_by act E"
    and others: "\<And>s s'. others s s' \<Longrightarrow> sandbox_rows s' i = sandbox_rows s i \<and> (db_wf s \<longrightarrow> db_wf s')"
    and listed: "\<And>recs. listed = Inr recs \<Longrightarrow> recs = filter sel (db_sandboxes s)"
    and Q: "\<And>r v. Q (Some r) \<Longrightarrow> E r v \<Longrightarrow> Q v"
    and wf: "db_wf s" and init: "Q (sandbox_rows s i)"
  shows "db_wf s' \<and> Q (sandbox_rows s' i) \<and>
    (\<forall>r. sandbox_rows s i = Some r \<and> \<not> sel r \<longrightarrow> sandbox_rows s' i = Some r)"
proof (cases listed)
  case (Inl e)
  with assms show ?thesis by (auto simp: sweepConcurrently_def)
next
  case (Inr recs)
  then obtain p where p: "pool_reach act X others (nat (sweepConcurrency cfg)) (newSweepPool recs s) p" "s' = sp_db p"
    using assms(1) by (auto simp: sweepConcurrently_def)
  have "sandbox_rows s' i = Some r" if r: "sandbox_rows s i = Some r" "\<not> sel r" for r
  proof -
    have "i \<notin> sb_ID ` set recs"
    proof
      assume "i \<in> sb_ID ` set recs"
      then obtain r' where "r' \<in> set (db_sandboxes s)" "sel r'" "sb_ID r' = i"
        using listed [OF Inr] by auto
      then have "sandbox_rows s i = Some r'"
        using wf by (auto simp: sandbox_rows_def db_wf_def find_row_distinct)
      with r \<open>sel r'\<close> show False by simp
    qed
    then show ?thesis
      using pool_reach_row [OF p(1) assms(2) others, where Q = "\<lambda>v. v = Some r"] wf r(1) p(2) by blast
  qed
  moreover have "db_wf s' \<and> Q (sandbox_rows s' i)"
    using pool_reach_row [OF p(1) assms(2) others, where Q = Q] Q wf init p(2) by blast
  ultimately show ?thesis by blast
qed

section \<open>A runner that cannot be reached\<close>

text \<open>Before its probe, a runner has no run and nothing pending.\<close>

definition unprobed :: "sweepPool \<Rightarrow> bool" where
  "unprobed p \<longleftrightarrow> (\<forall>k g. sp_groups p k = ToProbe g \<longrightarrow> sp_runs p k = 0 \<and> (\<forall>r \<in># sp_pending p. runnerKey r \<noteq> k))"

text \<open>After a probe that did not reach the runner: one run, and nothing pending.\<close>

definition given_up :: "string \<Rightarrow> sweepPool \<Rightarrow> bool" where
  "given_up k p \<longleftrightarrow> k \<in> sp_unreachable p \<and> (\<forall>g. sp_groups p k \<noteq> ToProbe g) \<and>
     (\<forall>r \<in># sp_pending p. runnerKey r \<noteq> k) \<and> sp_runs p k = 1"

lemma sweep_run_unreachable: "sp_unreachable p \<subseteq> sp_unreachable (sweep_run act x rec p)"
  by (auto simp: sweep_run_def count_run_def Let_def split: sum.split option.split)

lemma unprobed_step:
  "pool_step act X others limit p p' \<Longrightarrow> pool_inv recs p \<Longrightarrow> unprobed p \<Longrightarrow> unprobed p'"
proof (induction rule: pool_step.induct)
  case (probe p k rec rest x)
  have "runnerKey rec = k" using keyed_step [OF probe(4), of k rec rest] probe(1) by simp
  then show ?case using probe(5) by (simp add: unprobed_def)
next
  case (submit p k rec rest)
  have "runnerKey rec = k" using keyed_step [OF submit(5), of k rec rest] submit(1) by simp
  then show ?case using submit(6) by (auto simp: unprobed_def)
next
  case (run p rec P x)
  then show ?case by (auto simp: unprobed_def)
qed (auto simp: unprobed_def)

lemma given_up_step:
  "pool_step act X others limit p p' \<Longrightarrow> pool_inv recs p \<Longrightarrow> given_up k p \<Longrightarrow> given_up k p'"
proof (induction rule: pool_step.induct)
  case (probe p j rec rest x)
  have "runnerKey rec = j" using keyed_step [OF probe(4), of j rec rest] probe(1) by simp
  moreover have "j \<noteq> k" using probe(1,5) by (auto simp: given_up_def)
  ultimately show ?case
    using probe(5) sweep_run_unreachable [of "p\<lparr>sp_groups := (sp_groups p)(j := Feeding rest)\<rparr>" act x rec]
    by (auto simp: given_up_def)
next
  case (submit p j rec rest)
  have "runnerKey rec = j" using keyed_step [OF submit(5), of j rec rest] submit(1) by simp
  then show ?case using submit(3,6) by (auto simp: given_up_def)
next
  case (run p rec P x)
  then have "runnerKey rec \<noteq> k" by (simp add: given_up_def)
  with run show ?case
    using sweep_run_unreachable [of "p\<lparr>sp_pending := P\<rparr>" act x rec] by (auto simp: given_up_def)
qed (auto simp: given_up_def)

lemma pool_reach_inv: "pool_reach act X others limit p0 p \<Longrightarrow> pool_inv recs p0 \<Longrightarrow> pool_inv recs p"
  by (induction rule: pool_reach.induct) (auto intro: pool_inv_step)

lemma pool_reach_unprobed:
  "pool_reach act X others limit p0 p \<Longrightarrow> pool_inv recs p0 \<Longrightarrow> unprobed p0 \<Longrightarrow> unprobed p"
  by (induction rule: pool_reach.induct) (auto intro: unprobed_step pool_reach_inv)

lemma pool_reach_given_up:
  "pool_reach act X others limit p0 p \<Longrightarrow> pool_inv recs p0 \<Longrightarrow> given_up k p0 \<Longrightarrow> given_up k p"
  by (induction rule: pool_reach.induct) (auto intro: given_up_step pool_reach_inv)

text \<open>Two stopped sandboxes of one runner, which does not answer: one run, one skipped.\<close>

definition example_stopped :: "string \<Rightarrow> SandboxRecord" where
  "example_stopped i = (example_row i ''t1'')\<lparr>sb_Status := ''stopped''\<rparr>"

definition example_sweep_db :: db where
  "example_sweep_db = \<lparr>db_sandboxes = [example_stopped ''a'', example_stopped ''b''], db_tenants = [example_tenant], db_keys = []\<rparr>"

definition example_down :: sweep_env where
  "example_down = \<lparr>sv_lock = None, sv_get = NoFault, sv_rpc = Some (StatusErr Unavailable ''refused'' []), sv_write = NoFault\<rparr>"

definition example_delete :: sweep_action where
  "example_delete = delete_action (memory_view (NewMemory 0)) (default_safety_buffer example_idle_config) (100000 * second_ns)"

definition example_probed :: sweepPool where
  "example_probed = sweep_run example_delete example_down (example_stopped ''a'')
     ((newSweepPool [example_stopped ''a'', example_stopped ''b''] example_sweep_db)
       \<lparr>sp_groups := (\<lambda>_. Submitted)(''r1'' := Feeding [example_stopped ''b''])\<rparr>)"

definition example_swept :: sweepPool where
  "example_swept = example_probed\<lparr>sp_groups := \<lambda>_. Submitted,
     sp_stats := (sp_stats example_probed)\<lparr>ss_skippedUnreachable := 1\<rparr>\<rparr>"

lemma example_new_groups:
  "sp_groups (newSweepPool [example_stopped ''a'', example_stopped ''b''] example_sweep_db) =
     (\<lambda>_. Submitted)(''r1'' := ToProbe [example_stopped ''a'', example_stopped ''b''])"
  by (rule ext) (simp add: newSweepPool_def groupByRunner_def runnerKey_def example_stopped_def example_row_def)

lemma example_probed_state:
  "''r1'' \<in> sp_unreachable example_probed" "sp_stats example_probed =
     \<lparr>ss_candidates = 2, ss_acted = 0, ss_skippedUnreachable = 0, ss_failed = 1\<rparr>"
  "sp_pending example_probed = {#}" "\<not> sp_cancelled example_probed"
  "sp_groups example_probed = (\<lambda>_. Submitted)(''r1'' := Feeding [example_stopped ''b''])"
  by (simp_all add: example_probed_def sweep_run_def count_run_def withLockedSandbox_def newSweepPool_def
      example_down_def example_delete_def delete_action_def delete_due_def deleteCutoff_def unix_seconds_def
      default_safety_buffer_def example_idle_config_def Get_def example_sweep_db_def example_stopped_def
      example_row_def deleteIdleSandbox_def orphanReapDue_def memory_view_def GoneLongEnough_def NewMemory_def
      orphanReapBuffer_def runnerKey_def)

lemma example_probed_reach:
  "pool_reach example_delete {example_down} (=) 8
     (newSweepPool [example_stopped ''a'', example_stopped ''b''] example_sweep_db) example_probed"
proof -
  let ?p = "newSweepPool [example_stopped ''a'', example_stopped ''b''] example_sweep_db"
  have pending: "sp_pending ?p = {#}" by (simp add: newSweepPool_def)
  have "pool_step example_delete {example_down} (=) 8 ?p
      (sweep_run example_delete example_down (example_stopped ''a'')
        (?p\<lparr>sp_groups := (sp_groups ?p)(''r1'' := Feeding [example_stopped ''b''])\<rparr>))"
    by (rule pool_step.probe) (simp_all add: example_new_groups pending)
  then show ?thesis
    using pool_reach.pool_start pool_reach.pool_next by (fastforce simp: example_probed_def example_new_groups)
qed

lemma example_swept_reach: "pool_reach example_delete {example_down} (=) 8 example_probed example_swept"
proof -
  have "pool_step example_delete {example_down} (=) 8 example_probed
     (example_probed\<lparr>sp_groups := (sp_groups example_probed)(''r1'' := Submitted),
       sp_stats := (sp_stats example_probed)\<lparr>ss_skippedUnreachable := ss_skippedUnreachable (sp_stats example_probed) + length [example_stopped ''b'']\<rparr>\<rparr>)"
    by (rule pool_step.skip) (simp_all add: example_probed_state)
  moreover have "(\<lambda>_. Submitted)(''r1'' := Submitted) = (\<lambda>_. Submitted)" by auto
  ultimately show ?thesis
    using pool_reach.pool_start pool_reach.pool_next by (fastforce simp: example_swept_def example_probed_state)
qed

lemma pool_reach_trans:
  "pool_reach act X others limit q r \<Longrightarrow> pool_reach act X others limit p q \<Longrightarrow> pool_reach act X others limit p r"
  by (induction rule: pool_reach.induct) (auto intro: pool_reach.pool_next)

section \<open>Claims\<close>

text \<open>
  A finished phase that was not cancelled accounts for every candidate exactly once: as
  acted on, failed, skipped because its runner was unreachable, or found with nothing to do; in
  every interleaving of the runners and of requests.
\<close>

theorem sweep_accounts_for_all:
  assumes "pool_reach act X others limit (newSweepPool recs s) p" and "pool_done p" and "\<not> sp_cancelled p"
  shows "ss_acted (sp_stats p) + ss_failed (sp_stats p) + ss_skippedUnreachable (sp_stats p) + sp_idle p = length recs"
  using pool_reach_inv [OF assms(1) pool_inv_new] assms(2,3)
  by (simp add: pool_inv_def pool_done_def counted_def)

theorem sweep_accounts_for_all_witness:
  "ss_failed (sp_stats example_swept) = 1 \<and> ss_skippedUnreachable (sp_stats example_swept) = 1 \<and>
   ss_acted (sp_stats example_swept) + ss_failed (sp_stats example_swept) +
     ss_skippedUnreachable (sp_stats example_swept) + sp_idle example_swept = 2"
proof -
  have "pool_done example_swept" "\<not> sp_cancelled example_swept"
    by (simp_all add: pool_done_def example_swept_def example_probed_state)
  with sweep_accounts_for_all [OF pool_reach_trans [OF example_swept_reach example_probed_reach]]
  show ?thesis by (simp add: example_swept_def example_probed_state)
qed

text \<open>
  A dead runner costs one call per phase: once the probe of a runner did not reach it,
  no other candidate of that runner is ever run, whatever the other runners' candidates and
  requests do in between.
\<close>

theorem dead_runner_costs_one_call:
  assumes "pool_reach act X others limit (newSweepPool recs s) p" and "sp_groups p k = ToProbe (rec # rest)"
    and "p' = sweep_run act x rec (p\<lparr>sp_groups := (sp_groups p)(k := Feeding rest)\<rparr>)"
    and "k \<in> sp_unreachable p'" and "pool_reach act X others limit p' q"
  shows "sp_runs q k = 1"
proof -
  have inv: "pool_inv recs p" and un: "unprobed p"
    using pool_reach_inv [OF assms(1) pool_inv_new] pool_reach_unprobed [OF assms(1) pool_inv_new]
    by (auto simp: unprobed_def newSweepPool_def)
  have key: "keyed k (Feeding rest)" "runnerKey rec = k" using keyed_step [OF inv, of k rec rest] assms(2) by auto
  have "pool_inv recs p'"
    unfolding assms(3) by (rule pool_inv_regroup [OF inv, where k = k and v = "Feeding rest"]) (use assms(2) key in auto)
  moreover have "given_up k p'"
    using un assms(2,4) key by (auto simp: given_up_def unprobed_def assms(3))
  ultimately have "given_up k q" using pool_reach_given_up [OF assms(5)] by blast
  then show ?thesis by (simp add: given_up_def)
qed

theorem dead_runner_costs_one_call_witness:
  "''r1'' \<in> sp_unreachable example_probed \<and> sp_runs example_swept ''r1'' = 1"
proof -
  let ?p = "newSweepPool [example_stopped ''a'', example_stopped ''b''] example_sweep_db"
  have "sp_runs example_swept ''r1'' = 1"
  proof (rule dead_runner_costs_one_call)
    show "pool_reach example_delete {example_down} (=) 8 ?p ?p" by (rule pool_reach.pool_start)
    show "sp_groups ?p ''r1'' = ToProbe (example_stopped ''a'' # [example_stopped ''b''])"
      by (simp add: example_new_groups)
    show "example_probed = sweep_run example_delete example_down (example_stopped ''a'')
        (?p\<lparr>sp_groups := (sp_groups ?p)(''r1'' := Feeding [example_stopped ''b''])\<rparr>)"
      by (simp add: example_probed_def example_new_groups)
  qed (rule example_probed_state(1), rule example_swept_reach)
  then show ?thesis by (simp add: example_probed_state)
qed

text \<open>The three phases of a pass, seen from one row.\<close>

lemma isPast_status [simp]: "isPastIdleDeleteWindow (r\<lparr>sb_Status := st\<rparr>) cfg n = isPastIdleDeleteWindow r cfg n"
  by (simp add: isPastIdleDeleteWindow_def)

definition others_spare :: "string \<Rightarrow> (db \<Rightarrow> db \<Rightarrow> bool) \<Rightarrow> bool" where
  "others_spare i others \<longleftrightarrow>
     (\<forall>s s'. others s s' \<longrightarrow> sandbox_rows s' i = sandbox_rows s i \<and> (db_wf s \<longrightarrow> db_wf s'))"

definition stop_listed :: "idle_config \<Rightarrow> int \<Rightarrow> SandboxRecord \<Rightarrow> bool" where
  "stop_listed cfg now r \<longleftrightarrow> sb_Status r = ''running'' \<and> sb_LastActiveAt r \<le> stopCutoff cfg now \<and> sb_Ephemeral r = False"

definition delete_listed :: "idle_config \<Rightarrow> int \<Rightarrow> SandboxRecord \<Rightarrow> bool" where
  "delete_listed cfg now r \<longleftrightarrow> sb_Status r = ''stopped'' \<and> sb_LastActiveAt r \<le> deleteCutoff cfg now"

definition ephemeral_listed :: "idle_config \<Rightarrow> int \<Rightarrow> SandboxRecord \<Rightarrow> bool" where
  "ephemeral_listed cfg now r \<longleftrightarrow>
     sb_Status r = ''running'' \<and> sb_LastActiveAt r \<le> ephemeralCutoff cfg now \<and> sb_Ephemeral r = True"

lemma listed_by:
  "ListForIdleReapStop f (stopCutoff cfg n) False s = Inr recs \<Longrightarrow> recs = filter (stop_listed cfg n) (db_sandboxes s)"
  "ListForIdleReapDelete f (deleteCutoff cfg n) s = Inr recs \<Longrightarrow> recs = filter (delete_listed cfg n) (db_sandboxes s)"
  "ListForIdleReapStop f (ephemeralCutoff cfg n) True s = Inr recs \<Longrightarrow> recs = filter (ephemeral_listed cfg n) (db_sandboxes s)"
  unfolding ListForIdleReapStop_def ListForIdleReapDelete_def stop_listed_def delete_listed_def ephemeral_listed_def
  by (auto dest!: run_read_InrD)

lemma stop_phase_row:
  assumes "if ic_IdleStopAfter cfg > 0
     then sweepConcurrently cfg X others (stop_action reg cfg now)
        (ListForIdleReapStop f (stopCutoff cfg (unix_seconds now)) False s0) s0 s1 else s1 = s0"
    and "others_spare i others" and "db_wf s0" and "sandbox_rows s0 i = Some r"
  shows "db_wf s1" and "sandbox_rows s1 i = Some r \<or>
    ic_IdleStopAfter cfg > 0 \<and> stop_listed cfg (unix_seconds now) r \<and>
      (sandbox_rows s1 i = Some (r\<lparr>sb_Status := ''stopped''\<rparr>) \<or>
       sandbox_rows s1 i = None \<and> orphanReapDue reg (sb_RunnerID r) cfg now)"
proof -
  let ?Q = "\<lambda>v. v = Some r \<or> v = Some (r\<lparr>sb_Status := ''stopped''\<rparr>) \<or> v = None \<and> orphanReapDue reg (sb_RunnerID r) cfg now"
  have step: "?Q v" if "?Q (Some r')" "stop_effect reg cfg now r' v" for r' v
    using that by (auto simp: stop_effect_def stop_due_def)
  have "db_wf s1 \<and> ?Q (sandbox_rows s1 i) \<and> (\<not> stop_listed cfg (unix_seconds now) r \<longrightarrow> sandbox_rows s1 i = Some r)"
    if "ic_IdleStopAfter cfg > 0"
    using phase_row [where Q = ?Q and sel = "stop_listed cfg (unix_seconds now)" and i = i, OF _ stop_action_acts _ listed_by(1)]
      assms that step by (simp add: others_spare_def)
  then show "db_wf s1" and "sandbox_rows s1 i = Some r \<or>
    ic_IdleStopAfter cfg > 0 \<and> stop_listed cfg (unix_seconds now) r \<and>
      (sandbox_rows s1 i = Some (r\<lparr>sb_Status := ''stopped''\<rparr>) \<or>
       sandbox_rows s1 i = None \<and> orphanReapDue reg (sb_RunnerID r) cfg now)"
    using assms by (auto split: if_splits)
qed

lemma remove_phase_row:
  assumes "if en then sweepConcurrently cfg X others act listed s1 s2 else s2 = s1"
    and "acts_by act (\<lambda>r v. v = None \<and> due r)"
    and "\<And>recs. listed = Inr recs \<Longrightarrow> recs = filter sel (db_sandboxes s1)"
    and "others_spare i others" and "db_wf s1" and "sandbox_rows s1 i = Some r"
  shows "db_wf s2" and "sandbox_rows s2 i = Some r \<or> sandbox_rows s2 i = None \<and> en \<and> sel r \<and> due r"
proof -
  let ?Q = "\<lambda>v. v = Some r \<or> v = None \<and> due r"
  have "db_wf s2 \<and> ?Q (sandbox_rows s2 i) \<and> (\<not> sel r \<longrightarrow> sandbox_rows s2 i = Some r)" if en
    using phase_row [where Q = ?Q and sel = sel and i = i, OF _ assms(2) _ assms(3)] assms(1,4-) that
    by (simp add: others_spare_def)
  then show "db_wf s2" and "sandbox_rows s2 i = Some r \<or> sandbox_rows s2 i = None \<and> en \<and> sel r \<and> due r"
    using assms(1,5,6) by (auto split: if_splits)
qed

text \<open>
  Claim C6. What a sweep removes is out of use: a row that is gone after a pass, though no request
  touched it, belonged to a runner that has been gone for the orphan buffer, or is past its idle
  window, so that every request from then on is refused anyway. (An ephemeral sandbox is never
  stopped, so it is the ephemeral sweep that removes it.)
\<close>

theorem sweep_removes_only_fenced:
  assumes pass: "sweepIdleSandboxes cfg reg X others now s s'" and cfg: "idle_config_ok cfg0" "cfg = default_safety_buffer cfg0"
    and wf: "db_wf s" and spare: "others_spare i others"
    and row: "sandbox_rows s i = Some r" "sb_Ephemeral r \<longrightarrow> sb_Status r \<noteq> ''stopped''"
    and times: "plausible_time (unix_seconds now)" "plausible_time (sb_LastActiveAt r)"
    and gone: "sandbox_rows s' i = None" and later: "unix_seconds now \<le> later"
  shows "orphanReapDue reg (sb_RunnerID r) cfg now \<or> isPastIdleDeleteWindow r cfg later"
  using pass
proof cases
  case (pass f1 s1 f2 s2 f3 s3)
  note one = stop_phase_row [OF pass(1) spare wf row(1)]
  show ?thesis
  proof (cases "sandbox_rows s1 i")
    case None
    with one(2) show ?thesis by auto
  next
    case (Some r1)
    with one(2) have r1: "r1 = r \<or> r1 = r\<lparr>sb_Status := ''stopped''\<rparr> \<and> \<not> sb_Ephemeral r" by (auto simp: stop_listed_def)
    note two = remove_phase_row [OF pass(2) delete_action_acts listed_by(2) spare one(1) Some]
    show ?thesis
    proof (cases "sandbox_rows s2 i")
      case None
      with two(2) have due: "ic_IdleDeleteAfter cfg > 0" "delete_listed cfg (unix_seconds now) r1" "delete_due cfg (unix_seconds now) r1"
        by auto
      with r1 row(2) have "\<not> sb_Ephemeral r1" "sb_LastActiveAt r1 = sb_LastActiveAt r" by (auto simp: delete_listed_def)
      with due reap_due_fenced_later [OF cfg times(1), of r1 later] times(2) later have "isPastIdleDeleteWindow r1 cfg later"
        by (simp add: reap_due_def)
      with r1 show ?thesis by auto
    next
      case (Some r2)
      with two(2) have "r2 = r1" by auto
      note three = remove_phase_row [OF pass(3) ephemeral_action_acts listed_by(3) spare two(1) Some]
      have "sandbox_rows s3 i = None" using gone pass(4) Some \<open>sandbox_rows s1 i = Some r1\<close> by auto
      with three(2) have due: "ephemeralIdleWindow cfg > 0" "ephemeral_listed cfg (unix_seconds now) r2" "ephemeral_due cfg (unix_seconds now) r2"
        by auto
      with r1 \<open>r2 = r1\<close> have "r2 = r" "sb_Ephemeral r" by (auto simp: ephemeral_listed_def)
      with due reap_due_fenced_later [OF cfg times(1), of r later] times(2) later show ?thesis by (simp add: reap_due_def)
    qed
  qed
qed

lemma phase_nothing: "sweepConcurrently cfg X others act (Inr []) s s"
proof -
  have "pool_done (newSweepPool [] s)" "sp_db (newSweepPool [] s) = s"
    by (simp_all add: pool_done_def newSweepPool_def groupByRunner_def)
  then show ?thesis by (auto simp: sweepConcurrently_def intro: pool_reach.pool_start)
qed

text \<open>A pass that deletes one stopped sandbox.\<close>

lemma phase_one:
  assumes "x \<in> X"
  shows "sweepConcurrently cfg X others act (Inr [r]) s
    (case withLockedSandbox x (sb_ID r) act s of Inl _ \<Rightarrow> s | Inr res \<Rightarrow> sr_db res)"
proof -
  let ?k = "runnerKey r" and ?p = "newSweepPool [r] s" and ?n = "nat (sweepConcurrency cfg)"
  have p: "sp_groups ?p = (\<lambda>_. Submitted)(?k := ToProbe [r])" "sp_pending ?p = {#}" "sp_db ?p = s"
    by (auto simp: newSweepPool_def groupByRunner_def fun_eq_iff)
  define q where "q = sweep_run act x r (?p\<lparr>sp_groups := (sp_groups ?p)(?k := Feeding [])\<rparr>)"
  have "pool_step act X others ?n ?p q"
    unfolding q_def by (rule pool_step.probe) (use assms in \<open>simp_all add: p sweepConcurrency_def\<close>)
  moreover have "pool_step act X others ?n q (q\<lparr>sp_groups := (sp_groups q)(?k := Submitted)\<rparr>)"
    by (rule pool_step.finish) (simp add: q_def p)
  ultimately have "pool_reach act X others ?n ?p (q\<lparr>sp_groups := (sp_groups q)(?k := Submitted)\<rparr>)"
    by (meson pool_reach.pool_start pool_reach.pool_next)
  moreover have "pool_done (q\<lparr>sp_groups := (sp_groups q)(?k := Submitted)\<rparr>)"
    by (simp add: pool_done_def q_def p)
  moreover have "sp_db (q\<lparr>sp_groups := (sp_groups q)(?k := Submitted)\<rparr>) =
      (case withLockedSandbox x (sb_ID r) act s of Inl _ \<Rightarrow> s | Inr res \<Rightarrow> sr_db res)"
    using p(3) by (simp add: q_def sweep_run_db split: sum.split)
  ultimately show ?thesis unfolding sweepConcurrently_def by auto
qed

definition example_up :: sweep_env where
  "example_up = \<lparr>sv_lock = None, sv_get = NoFault, sv_rpc = None, sv_write = NoFault\<rparr>"

definition example_stopped_db :: db where
  "example_stopped_db = \<lparr>db_sandboxes = [example_stopped ''a''], db_tenants = [example_tenant], db_keys = []\<rparr>"

definition example_no_stop0 :: idle_config where
  "example_no_stop0 = example_idle_config\<lparr>ic_IdleStopAfter := 0\<rparr>"

lemma example_delete_pass:
  "sweepIdleSandboxes (default_safety_buffer example_no_stop0) (memory_view (NewMemory 0)) {example_up} (=) (100000 * second_ns)
     example_stopped_db (example_stopped_db\<lparr>db_sandboxes := []\<rparr>)"
proof (rule sweepIdleSandboxes.pass [where ?f2.0 = NoFault and ?f3.0 = NoFault and ?s1.0 = example_stopped_db
      and ?s2.0 = "example_stopped_db\<lparr>db_sandboxes := []\<rparr>" and ?s3.0 = "example_stopped_db\<lparr>db_sandboxes := []\<rparr>"])
  let ?cfg = "default_safety_buffer example_no_stop0" and ?s = example_stopped_db and ?s' = "example_stopped_db\<lparr>db_sandboxes := []\<rparr>"
  let ?act = "delete_action (memory_view (NewMemory 0)) ?cfg (100000 * second_ns)"
  have listed: "ListForIdleReapDelete NoFault (deleteCutoff ?cfg (unix_seconds (100000 * second_ns))) ?s = Inr [example_stopped ''a'']"
    by (simp add: ListForIdleReapDelete_def example_stopped_db_def example_stopped_def example_row_def deleteCutoff_def
        default_safety_buffer_def example_no_stop0_def example_idle_config_def unix_seconds_def)
  have "(case withLockedSandbox example_up (sb_ID (example_stopped ''a'')) ?act ?s of Inl _ \<Rightarrow> ?s | Inr res \<Rightarrow> sr_db res) = ?s'"
    by (simp add: withLockedSandbox_def example_up_def Get_def example_stopped_db_def example_stopped_def example_row_def
        delete_action_def delete_due_def deleteCutoff_def default_safety_buffer_def example_no_stop0_def example_idle_config_def
        unix_seconds_def deleteIdleSandbox_def orphanReapDue_def memory_view_def GoneLongEnough_def NewMemory_def
        orphanReapBuffer_def Delete_def Let_def)
  then show "if 0 < ic_IdleDeleteAfter ?cfg then sweepConcurrently ?cfg {example_up} (=) ?act
      (ListForIdleReapDelete NoFault (deleteCutoff ?cfg (unix_seconds (100000 * second_ns))) ?s) ?s ?s' else ?s' = ?s"
    unfolding listed using phase_one [of example_up "{example_up}" ?cfg "(=)" ?act "example_stopped ''a''" ?s]
    by (simp add: default_safety_buffer_def example_no_stop0_def example_idle_config_def)
  have "ListForIdleReapStop NoFault c True ?s' = Inr []" for c
    by (simp add: ListForIdleReapStop_def example_stopped_db_def)
  then show "if 0 < ephemeralIdleWindow ?cfg then sweepConcurrently ?cfg {example_up} (=) (ephemeral_action (memory_view (NewMemory 0)) ?cfg (100000 * second_ns))
      (ListForIdleReapStop NoFault (ephemeralCutoff ?cfg (unix_seconds (100000 * second_ns))) True ?s') ?s' ?s' else ?s' = ?s'"
    by (simp add: phase_nothing)
qed (auto simp: example_no_stop0_def default_safety_buffer_def)

theorem sweep_removes_only_fenced_witness:
  "isPastIdleDeleteWindow (example_stopped ''a'') (default_safety_buffer example_no_stop0) 100000"
proof -
  have "orphanReapDue (memory_view (NewMemory 0)) (sb_RunnerID (example_stopped ''a'')) (default_safety_buffer example_no_stop0) (100000 * second_ns)
      \<or> isPastIdleDeleteWindow (example_stopped ''a'') (default_safety_buffer example_no_stop0) 100000"
  proof (rule sweep_removes_only_fenced [OF example_delete_pass _ refl])
    show "idle_config_ok example_no_stop0" by (simp add: idle_config_ok_def example_no_stop0_def example_idle_config_def)
    show "db_wf example_stopped_db"
      by (simp add: db_wf_def example_stopped_db_def example_stopped_def example_row_def tenant_ids_def example_tenant_def)
    show "sandbox_rows example_stopped_db ''a'' = Some (example_stopped ''a'')"
      by (simp add: sandbox_rows_def example_stopped_db_def example_stopped_def example_row_def)
  qed (auto simp: others_spare_def example_stopped_def example_row_def plausible_time_def unix_seconds_def sandbox_rows_def)
  moreover have "\<not> orphanReapDue (memory_view (NewMemory 0)) i cfg n" for i cfg n
    by (simp add: orphanReapDue_def memory_view_def GoneLongEnough_def NewMemory_def)
  ultimately show ?thesis by simp
qed





end
