(* ===== verification/Runner_Picks.thy ===== *)
theory Runner_Picks
  imports Runner_Registry
begin

text \<open>
  Picks and heartbeats on the Postgres registry, interleaved (\<open>internal/api/registry/postgres.go\<close>). A
  pick is a transaction of two statements: the query, which locks the row it returns and passes over
  the rows others hold locked, and the commit, which releases it. A heartbeat holds the lock of its
  row while its statement runs. Of Postgres the documented meaning of \<open>FOR UPDATE SKIP LOCKED\<close> is
  used: a row has at most one holder, and a statement that writes waits for it.
\<close>

section \<open>Transactions in progress\<close>

datatype registry_tx = Picking Runner | Upserting runner_report

fun tx_row :: "registry_tx \<Rightarrow> string" where
  "tx_row (Picking run) = rn_ID run"
| "tx_row (Upserting p) = rr_id p"

record pg_state =
  ps_reg :: PostgresRegistry
  ps_txs :: "(nat \<times> registry_tx) list"

definition locked_rows :: "pg_state \<Rightarrow> string list" where
  "locked_rows s = map (\<lambda>t. tx_row (snd t)) (ps_txs s)"

definition end_tx :: "nat \<Rightarrow> pg_state \<Rightarrow> pg_state" where
  "end_tx n s = s\<lparr>ps_txs := filter (\<lambda>t. fst t \<noteq> n) (ps_txs s)\<rparr>"

text \<open>
  The first part of \<open>PickLowestUsed\<close>, up to and with its query, in a state: the commit is a step of
  its own.
\<close>

definition pick_query :: "pick_tx \<Rightarrow> string list \<Rightarrow> pg_state \<Rightarrow> registry_error + Runner" where
  "pick_query x exclude s =
     PgPickLowestUsed (x\<lparr>pt_locked := locked_rows s, pt_commit := NoFault\<rparr>) exclude (ps_reg s)"

text \<open>The answer of a pick by its commit.\<close>

definition pick_commit :: "fault \<Rightarrow> Runner \<Rightarrow> registry_error + Runner" where
  "pick_commit f run = (if f \<noteq> NoFault then Inl (RegistryErr ''registry: commit pick'') else Inr run)"

datatype pick_event = Silent | Answer nat "registry_error + Runner"

inductive pick_step :: "pg_state \<Rightarrow> pick_event \<Rightarrow> pg_state \<Rightarrow> bool" where
  query_row: "n \<notin> fst ` set (ps_txs s) \<Longrightarrow> pick_query x exclude s = Inr run \<Longrightarrow>
    pick_step s Silent (s\<lparr>ps_txs := (n, Picking run) # ps_txs s\<rparr>)"
| query_err: "n \<notin> fst ` set (ps_txs s) \<Longrightarrow> pick_query x exclude s = Inl err \<Longrightarrow> pick_step s (Answer n (Inl err)) s"
| commit: "(n, Picking run) \<in> set (ps_txs s) \<Longrightarrow> pick_step s (Answer n (pick_commit f run)) (end_tx n s)"
| upsert_begin: "n \<notin> fst ` set (ps_txs s) \<Longrightarrow> rr_id p \<noteq> [] \<and> rr_httpBaseURL p \<noteq> [] \<Longrightarrow>
    rr_id p \<notin> set (locked_rows s) \<Longrightarrow>
    pick_step s Silent (s\<lparr>ps_txs := (n, Upserting p) # ps_txs s\<rparr>)"
| upsert_end: "(n, Upserting p) \<in> set (ps_txs s) \<Longrightarrow>
    pick_step s Silent (end_tx n (s\<lparr>ps_reg := PgUpsert f now p (ps_reg s)\<rparr>))"

text \<open>The registry starts with whatever rows the table has.\<close>

inductive pick_reach :: "Runner list \<Rightarrow> duration \<Rightarrow> pg_state \<Rightarrow> bool" for rows g where
  start: "pick_reach rows g \<lparr>ps_reg = NewPostgres rows g, ps_txs = []\<rparr>"
| step: "pick_reach rows g s \<Longrightarrow> pick_step s ev s' \<Longrightarrow> pick_reach rows g s'"

section \<open>The invariant\<close>

text \<open>Every row has one holder at most, and what a pick holds is a row as it is in the table.\<close>

definition picks_ok :: "pg_state \<Rightarrow> bool" where
  "picks_ok s \<longleftrightarrow> distinct (map fst (ps_txs s)) \<and> distinct (locked_rows s) \<and>
     (\<forall>n run. (n, Picking run) \<in> set (ps_txs s) \<longrightarrow> run \<in> set (pr_rows (ps_reg s)))"

lemma distinct_map_filter_fst: "distinct (map f xs) \<Longrightarrow> distinct (map f (filter P xs))"
  by (induction xs) auto

lemma picks_ok_end:
  assumes "picks_ok s" "\<And>m run. (m, Picking run) \<in> set (ps_txs s) \<Longrightarrow> m \<noteq> n \<Longrightarrow> run \<in> set (pr_rows r)"
  shows "picks_ok (end_tx n (s\<lparr>ps_reg := r\<rparr>))"
  using assms by (auto simp: picks_ok_def end_tx_def locked_rows_def distinct_map_filter_fst)

lemma one_holder:
  assumes "picks_ok s" "(m, t) \<in> set (ps_txs s)" "(n, u) \<in> set (ps_txs s)" "m \<noteq> n"
  shows "tx_row t \<noteq> tx_row u"
proof
  assume "tx_row t = tx_row u"
  moreover have "inj_on (\<lambda>t. tx_row (snd t)) (set (ps_txs s))"
    using assms(1) by (simp add: picks_ok_def locked_rows_def distinct_map)
  ultimately have "(m, t) = (n, u)" using inj_onD[OF _ _ assms(2,3)] by fastforce
  with assms(4) show False by simp
qed

lemma upsert_keeps: "run \<in> set (pr_rows r) \<Longrightarrow> rn_ID run \<noteq> rr_id p \<Longrightarrow> run \<in> set (pr_rows (PgUpsert f now p r))"
proof -
  have "run \<in> set rs \<Longrightarrow> rn_ID run \<noteq> i \<Longrightarrow> run \<in> set (update_rows (\<lambda>x. rn_ID x = i) u rs)" for i u rs
    by (induction rs) auto
  then show "run \<in> set (pr_rows r) \<Longrightarrow> rn_ID run \<noteq> rr_id p \<Longrightarrow> run \<in> set (pr_rows (PgUpsert f now p r))"
    by (auto simp: PgUpsert_def upsert_row_def reported_runner_def split: fault.splits)
qed

lemma picks_ok_step:
  assumes "pick_step s ev s'" "picks_ok s"
  shows "picks_ok s'"
  using assms(1)
proof (cases rule: pick_step.cases)
  case (query_row n x exclude run)
  then show ?thesis
    using PgPick_Inr[OF query_row(4)[unfolded pick_query_def]] assms(2) by (auto simp: picks_ok_def locked_rows_def)
next
  case (commit n run f)
  then show ?thesis using picks_ok_end[OF assms(2), of n "ps_reg s"] assms(2) by (auto simp: picks_ok_def)
next
  case (upsert_begin n p)
  then show ?thesis using assms(2) by (auto simp: picks_ok_def locked_rows_def)
next
  case (upsert_end n p f now)
  have "rn_ID run \<noteq> rr_id p" if "(m, Picking run) \<in> set (ps_txs s)" "m \<noteq> n" for m run
    using one_holder[OF assms(2) that(1) upsert_end(3) that(2)] by simp
  then show ?thesis unfolding upsert_end(2)
    using assms(2) by (intro picks_ok_end) (auto simp: picks_ok_def intro!: upsert_keeps)
qed (use assms(2) in simp)

lemma picks_ok_reach: "pick_reach rows g s \<Longrightarrow> picks_ok s"
proof (induction rule: pick_reach.induct)
  case start
  show ?case by (simp add: picks_ok_def locked_rows_def)
qed (rule picks_ok_step)

section \<open>What concurrent picks are told\<close>

lemma pick_query_none:
  assumes "pt_begin x = NoFault" "pt_query x = NoFault"
  shows "pick_query x exclude s = Inl ErrNoRunners \<longleftrightarrow>
    (\<forall>run \<in> set (pr_rows (ps_reg s)). pg_eligible (pt_now x) (ps_reg s) run \<longrightarrow>
       rn_ID run \<in> set exclude \<or> rn_ID run \<in> set (locked_rows s))"
    (is "?none \<longleftrightarrow> ?all")
proof
  assume ?none
  then show ?all using PgPick_none[of "x\<lparr>pt_locked := locked_rows s, pt_commit := NoFault\<rparr>" exclude "ps_reg s"]
    by (auto simp: pick_query_def)
next
  assume ?all
  then have e: "filter (\<lambda>run. pg_eligible (pt_now x) (ps_reg s) run \<and> rn_ID run \<notin> set exclude
      \<and> rn_ID run \<notin> set (locked_rows s)) (pr_rows (ps_reg s)) = []" by (auto simp: filter_empty_conv)
  show ?none unfolding pick_query_def PgPickLowestUsed_def using assms by (simp add: e)
qed

text \<open>
  Claim C40. However picks and heartbeats interleave on the Postgres registry: two picks in progress
  never hold the same runner, and the runner a pick holds is a row of the table as it stands, unchanged
  since the pick chose it. A pick whose statements do not fail is told \<open>ErrNoRunners\<close> exactly when
  every eligible runner it does not exclude is held at that moment by a pick or a heartbeat in
  progress. So that answer does not mean that no runner has room: the only one that has may be held.
\<close>

theorem pg_concurrent_picks:
  assumes "pick_reach rows g s"
  shows "(\<forall>m n a b. (m, Picking a) \<in> set (ps_txs s) \<and> (n, Picking b) \<in> set (ps_txs s) \<and> m \<noteq> n \<longrightarrow> rn_ID a \<noteq> rn_ID b) \<and>
    (\<forall>n a. (n, Picking a) \<in> set (ps_txs s) \<longrightarrow> a \<in> set (pr_rows (ps_reg s))) \<and>
    (pt_begin x = NoFault \<and> pt_query x = NoFault \<longrightarrow>
       pick_query x exclude s = Inl ErrNoRunners \<longleftrightarrow>
         (\<forall>run \<in> set (pr_rows (ps_reg s)). pg_eligible (pt_now x) (ps_reg s) run \<and> rn_ID run \<notin> set exclude \<longrightarrow>
            (\<exists>n t. (n, t) \<in> set (ps_txs s) \<and> tx_row t = rn_ID run)))"
proof -
  note ok = picks_ok_reach[OF assms]
  have locked: "i \<in> set (locked_rows s) \<longleftrightarrow> (\<exists>n t. (n, t) \<in> set (ps_txs s) \<and> tx_row t = i)" for i
    by (force simp: locked_rows_def)
  have "rn_ID a \<noteq> rn_ID b" if "(m, Picking a) \<in> set (ps_txs s)" "(n, Picking b) \<in> set (ps_txs s)" "m \<noteq> n" for m n a b
    using one_holder[OF ok that] by simp
  moreover have "a \<in> set (pr_rows (ps_reg s))" if "(n, Picking a) \<in> set (ps_txs s)" for n a
    using ok that by (auto simp: picks_ok_def)
  ultimately show ?thesis using pick_query_none[of x exclude s] unfolding locked by auto
qed

section \<open>A runner with room that a second pick is not given\<close>

definition example_pick :: pick_tx where
  "example_pick = \<lparr>pt_now = 0, pt_collate = (\<lambda>i. i), pt_locked = [], pt_begin = NoFault, pt_query = NoFault, pt_commit = NoFault\<rparr>"

definition example_row_a :: Runner where
  "example_row_a = reported_runner 0 (example_report ''a'' 1)"

definition example_held :: pg_state where
  "example_held = \<lparr>ps_reg = NewPostgres [example_row_a] 0, ps_txs = [(0, Picking example_row_a)]\<rparr>"

lemma example_eligible: "pg_eligible 0 (NewPostgres [example_row_a] 0) example_row_a"
  by (simp add: example_row_a_def NewPostgres_def default_grace_def reported_runner_def
      example_report_def pg_eligible_def pg_fresh_def grace_seconds_def signed_divide_int_def)

lemma example_held_reach: "pick_reach [example_row_a] 0 example_held"
proof -
  let ?s = "\<lparr>ps_reg = NewPostgres [example_row_a] 0, ps_txs = []\<rparr>"
  have "pick_query example_pick [] ?s = Inr example_row_a"
    using example_eligible
    by (simp add: pick_query_def PgPickLowestUsed_def example_pick_def locked_rows_def NewPostgres_def)
  then have "pick_step ?s Silent (?s\<lparr>ps_txs := (0, Picking example_row_a) # ps_txs ?s\<rparr>)" by (intro query_row) auto
  then show ?thesis using pick_reach.step[OF pick_reach.start] by (fastforce simp: example_held_def)
qed

theorem pg_concurrent_picks_witness:
  "pick_query example_pick [] example_held = Inl ErrNoRunners \<and>
   example_row_a \<in> set (pr_rows (ps_reg example_held)) \<and> pg_eligible (pt_now example_pick) (ps_reg example_held) example_row_a"
  using pg_concurrent_picks[OF example_held_reach, of example_pick "[]"] example_eligible
  by (simp add: example_held_def example_pick_def NewPostgres_def)

end
