(* ===== verification/Utf8.thy ===== *)
theory Utf8
  imports Prelude
begin

text \<open>
  The parts of Go's \<open>unicode/utf8\<close> that the execution stream uses: \<open>RuneStart\<close>, \<open>FullRune\<close>,
  \<open>DecodeRune\<close> and \<open>Valid\<close>, after the package's table of first bytes, and
  \<open>incompleteRuneStart\<close> of \<open>internal/daemon/exec.go\<close>. Bytes are the characters of a string.
\<close>

abbreviation byte :: "char \<Rightarrow> nat" where
  "byte c \<equiv> of_char c"

section \<open>Definitions\<close>

definition UTFMax :: nat where "UTFMax = 4"

definition RuneStart :: "char \<Rightarrow> bool" where
  "RuneStart c \<longleftrightarrow> \<not> (0x80 \<le> byte c \<and> byte c < 0xC0)"

text \<open>The first byte gives the length of the sequence and the range of its second byte.\<close>

definition runeSize :: "char \<Rightarrow> nat" where
  "runeSize c =
     (if byte c < 0xC2 then 1 else if byte c < 0xE0 then 2 else if byte c < 0xF0 then 3
      else if byte c < 0xF5 then 4 else 1)"

definition accepts :: "char \<Rightarrow> char \<Rightarrow> bool" where
  "accepts c d \<longleftrightarrow>
     (if byte c = 0xE0 then 0xA0 else if byte c = 0xF0 then 0x90 else 0x80) \<le> byte d \<and>
     byte d \<le> (if byte c = 0xED then 0x9F else if byte c = 0xF4 then 0x8F else 0xBF)"

definition continues :: "char \<Rightarrow> bool" where
  "continues d \<longleftrightarrow> 0x80 \<le> byte d \<and> byte d \<le> 0xBF"

fun FullRune :: "string \<Rightarrow> bool" where
  "FullRune [] = False"
| "FullRune (c # cs) =
     (if runeSize c \<le> Suc (length cs) then True
      else if 1 \<le> length cs \<and> \<not> accepts c (cs ! 0) then True
      else 2 \<le> length cs \<and> \<not> continues (cs ! 1))"

text \<open>The rune and its length; \<open>None\<close> is \<open>RuneError\<close>, of length 1 unless there is no byte.\<close>

fun DecodeRune :: "string \<Rightarrow> nat option \<times> nat" where
  "DecodeRune [] = (None, 0)"
| "DecodeRune (c # cs) =
     (let n = runeSize c in
      if n = 1 then (if byte c < 0x80 then (Some (byte c), 1) else (None, 1))
      else if Suc (length cs) < n then (None, 1)
      else if \<not> accepts c (cs ! 0) then (None, 1)
      else if n = 2 then (Some ((byte c mod 0x20) * 0x40 + byte (cs ! 0) mod 0x40), 2)
      else if \<not> continues (cs ! 1) then (None, 1)
      else if n = 3 then
        (Some ((byte c mod 0x10) * 0x1000 + (byte (cs ! 0) mod 0x40) * 0x40 + byte (cs ! 1) mod 0x40), 3)
      else if \<not> continues (cs ! 2) then (None, 1)
      else (Some ((byte c mod 0x08) * 0x40000 + (byte (cs ! 0) mod 0x40) * 0x1000
              + (byte (cs ! 1) mod 0x40) * 0x40 + byte (cs ! 2) mod 0x40), 4))"

function validUtf8 :: "string \<Rightarrow> bool" where
  "validUtf8 s =
     (if s = [] then True
      else case DecodeRune s of (None, _) \<Rightarrow> False | (Some _, n) \<Rightarrow> if n = 0 then False else validUtf8 (drop n s))"
  by pat_completeness auto
termination
  by (relation "measure length") auto

declare validUtf8.simps [simp del]

text \<open>The loop of \<open>incompleteRuneStart\<close>: \<open>i\<close> is one above the index it looks at, \<open>n\<close> what is left of \<open>UTFMax\<close>.\<close>

fun incomplete_from :: "string \<Rightarrow> nat \<Rightarrow> nat \<Rightarrow> nat" where
  "incomplete_from b 0 n = length b"
| "incomplete_from b (Suc i) 0 = length b"
| "incomplete_from b (Suc i) (Suc n) =
     (if \<not> RuneStart (b ! i) then incomplete_from b i n
      else if FullRune (drop i b) then length b
      else i)"

definition incompleteRuneStart :: "string \<Rightarrow> nat" where
  "incompleteRuneStart b = incomplete_from b (length b) UTFMax"

section \<open>Well-formed sequences\<close>

text \<open>One complete rune, and a text as a sequence of runes.\<close>

definition wf_rune :: "string \<Rightarrow> bool" where
  "wf_rune q \<longleftrightarrow> q \<noteq> [] \<and> (\<exists>r. DecodeRune q = (Some r, length q))"

definition decodes_at :: "string \<Rightarrow> nat \<Rightarrow> bool" where
  "decodes_at s n \<longleftrightarrow> (\<exists>r. DecodeRune s = (Some r, n))"

lemma decodes_at_iff:
  "decodes_at (c # cs) n \<longleftrightarrow>
     n = runeSize c \<and> n \<le> Suc (length cs) \<and> (n = 1 \<longrightarrow> byte c < 0x80) \<and> (n \<ge> 2 \<longrightarrow> accepts c (cs ! 0)) \<and>
     (n \<ge> 3 \<longrightarrow> continues (cs ! 1)) \<and> (n \<ge> 4 \<longrightarrow> continues (cs ! 2))"
proof -
  have "runeSize c = 1 \<or> runeSize c = 2 \<or> runeSize c = 3 \<or> runeSize c = 4"
    by (simp add: runeSize_def)
  then consider "runeSize c = 1" | "runeSize c = 2" | "runeSize c = 3" | "runeSize c = 4" by blast
  then show ?thesis
    by cases (cases cs, auto simp: decodes_at_def Let_def)+
qed

lemma wf_rune_Cons:
  "wf_rune (c # cs) \<longleftrightarrow>
     runeSize c = Suc (length cs) \<and> (cs = [] \<longrightarrow> byte c < 0x80) \<and> (cs \<noteq> [] \<longrightarrow> accepts c (cs ! 0)) \<and>
     (length cs \<ge> 2 \<longrightarrow> continues (cs ! 1)) \<and> (length cs \<ge> 3 \<longrightarrow> continues (cs ! 2))"
  using decodes_at_iff [of c cs "Suc (length cs)"]
  by (cases cs) (auto simp: wf_rune_def decodes_at_def)

lemma runeSize_bounds: "1 \<le> runeSize c" "runeSize c \<le> 4"
  by (simp_all add: runeSize_def)

lemma accepts_continues: "accepts c d \<Longrightarrow> continues d"
  by (auto simp: accepts_def continues_def split: if_splits)

lemma continues_not_start: "continues d \<Longrightarrow> \<not> RuneStart d"
  by (simp add: continues_def RuneStart_def)

lemma wf_rune_start:
  assumes "wf_rune (c # cs)"
  shows "RuneStart c"
proof (cases "cs = []")
  case True
  with assms show ?thesis by (simp add: wf_rune_Cons RuneStart_def)
next
  case False
  with assms have "runeSize c \<ge> 2" by (cases cs) (auto simp: wf_rune_Cons)
  then show ?thesis by (auto simp: runeSize_def RuneStart_def split: if_splits)
qed

lemma wf_rune_rest:
  assumes "wf_rune (c # cs)" "i < length cs"
  shows "continues (cs ! i)"
proof -
  have "length cs \<le> 3" using assms(1) runeSize_bounds [of c] by (simp add: wf_rune_Cons)
  with assms(2) consider "i = 0" | "i = 1" | "i = 2" by linarith
  then show ?thesis using assms by cases (auto simp: wf_rune_Cons dest: accepts_continues)
qed

lemma wf_rune_full: "wf_rune (c # cs) \<Longrightarrow> FullRune (c # cs)"
  by (simp add: wf_rune_Cons)

lemma wf_rune_partial:
  assumes "wf_rune (c # cs @ d # ds)"
  shows "\<not> FullRune (c # cs)"
proof -
  have "runeSize c = Suc (length cs + Suc (length ds))" using assms by (simp add: wf_rune_Cons)
  moreover have "continues (cs ! 1)" if "2 \<le> length cs"
  proof -
    have "1 < length (cs @ d # ds)" using that by (cases cs) auto
    from wf_rune_rest [OF assms this] that show ?thesis by (simp add: nth_append)
  qed
  moreover have "accepts c (cs ! 0)" if "1 \<le> length cs"
    using assms that by (cases cs) (auto simp: wf_rune_Cons)
  ultimately show ?thesis by auto
qed

section \<open>Where a cut text may be split\<close>

lemma incomplete_from_skip:
  assumes "b = x @ c # cs" "RuneStart c" "\<forall>d \<in> set cs. \<not> RuneStart d" "k \<le> length cs" "k < n"
  shows "incomplete_from b (length x + Suc k) n = (if FullRune (c # cs) then length b else length x)"
  using assms(4,5)
proof (induction k arbitrary: n)
  case 0
  then obtain m where n: "n = Suc m" by (cases n) auto
  show ?case unfolding n using assms(1,2) by simp
next
  case (Suc k)
  then obtain m where n: "n = Suc m" by (cases n) auto
  have "b ! (length x + Suc k) = cs ! k" using assms(1) by (simp add: nth_append)
  moreover have "\<not> RuneStart (cs ! k)" using Suc.prems(1) assms(3) by simp
  ultimately have "incomplete_from b (length x + Suc (Suc k)) n = incomplete_from b (length x + Suc k) m"
    using n by simp
  with Suc n show ?case by simp
qed

lemma incompleteRuneStart_at:
  assumes "RuneStart c" "\<forall>d \<in> set cs. \<not> RuneStart d" "length cs < UTFMax"
  shows "incompleteRuneStart (x @ c # cs) = (if FullRune (c # cs) then length (x @ c # cs) else length x)"
  using incomplete_from_skip [OF refl assms(1,2), of "length cs" UTFMax x] assms(3)
  by (simp add: incompleteRuneStart_def)

lemma incompleteRuneStart_le: "incompleteRuneStart b \<le> length b"
proof -
  have "incomplete_from b i n \<le> length b" if "i \<le> length b" for i n
    using that by (induction b i n rule: incomplete_from.induct) auto
  then show ?thesis by (simp add: incompleteRuneStart_def)
qed

text \<open>At most three bytes are held back.\<close>

lemma incompleteRuneStart_ge: "length b < incompleteRuneStart b + UTFMax"
proof -
  have full: "FullRune (drop i b)" if "i + 4 \<le> length b" for i b
  proof (cases "drop i b")
    case (Cons c cs)
    then have "length cs + 1 = length b - i" by (metis length_drop length_Cons Suc_eq_plus1)
    then have "runeSize c \<le> Suc (length cs)" using runeSize_bounds(2) [of c] that by linarith
    with Cons show ?thesis by simp
  qed (use that in simp)
  have "length b < incomplete_from b i n + 4" if "i \<le> length b" for i n
    using that
  proof (induction b i n rule: incomplete_from.induct)
    case (3 b i n)
    have "length b < i + 4" if "\<not> FullRune (drop i b)"
    proof (rule ccontr)
      assume "\<not> length b < i + 4"
      then have "FullRune (drop i b)" by (intro full) simp
      with that show False by simp
    qed
    with 3 show ?case by simp
  qed auto
  then show ?thesis by (simp add: incompleteRuneStart_def UTFMax_def)
qed

section \<open>Texts\<close>

lemma DecodeRune_append:
  assumes "wf_rune q"
  shows "\<exists>r. DecodeRune (q @ s) = (Some r, length q)"
proof (cases q)
  case (Cons c cs)
  have "decodes_at (c # cs @ s) (Suc (length cs))"
    using assms unfolding Cons decodes_at_iff wf_rune_Cons
    by (cases cs) (auto simp: nth_append)
  then show ?thesis by (simp add: decodes_at_def Cons)
qed (use assms in \<open>simp add: wf_rune_def\<close>)

lemma validUtf8_append_rune: "wf_rune q \<Longrightarrow> validUtf8 (q @ s) \<longleftrightarrow> validUtf8 s"
  using DecodeRune_append [of q s] by (subst validUtf8.simps) (auto simp: wf_rune_def)

lemma validUtf8_Nil [simp]: "validUtf8 []"
  by (simp add: validUtf8.simps)

lemma validUtf8_concat: "\<forall>q \<in> set qs. wf_rune q \<Longrightarrow> validUtf8 (concat qs @ s) \<longleftrightarrow> validUtf8 s"
  by (induction qs) (auto simp: validUtf8_append_rune)

lemma decode_prefix_wf:
  assumes "DecodeRune s = (Some r, n)"
  shows "wf_rune (take n s) \<and> n \<le> length s \<and> n \<noteq> 0"
proof (cases s)
  case (Cons c cs)
  with assms have d: "decodes_at (c # cs) n" by (auto simp: decodes_at_def simp del: DecodeRune.simps)
  then have n: "n = runeSize c" "n \<le> Suc (length cs)" by (simp_all add: decodes_at_iff)
  then obtain m where m: "n = Suc m" using runeSize_bounds(1) [of c] by (metis One_nat_def Suc_le_D)
  have "wf_rune (c # take m cs)"
    using d n m unfolding decodes_at_iff wf_rune_Cons by (cases "m = 0") auto
  with Cons m n show ?thesis by simp
qed (use assms in simp)

lemma validUtf8_runes:
  "validUtf8 s \<Longrightarrow> \<exists>qs. s = concat qs \<and> (\<forall>q \<in> set qs. wf_rune q)"
proof (induction s rule: validUtf8.induct)
  case (1 s)
  show ?case
  proof (cases "s = []")
    case True
    then show ?thesis by (intro exI [of _ "[]"]) simp
  next
    case False
    then obtain r n where d: "DecodeRune s = (Some r, n)" and v: "validUtf8 (drop n s)"
      using "1.prems" by (auto simp: validUtf8.simps [of s] split: prod.splits option.splits if_splits)
    from decode_prefix_wf [OF d] have w: "wf_rune (take n s)" "n \<noteq> 0" by auto
    from "1.IH" [OF False d [symmetric] refl] v w obtain qs where "drop n s = concat qs" "\<forall>q \<in> set qs. wf_rune q"
      by auto
    then show ?thesis
      using w by (intro exI [of _ "take n s # qs"]) (auto, metis append_take_drop_id)
  qed
qed

lemma validUtf8_iff: "validUtf8 s \<longleftrightarrow> (\<exists>qs. s = concat qs \<and> (\<forall>q \<in> set qs. wf_rune q))"
  using validUtf8_runes validUtf8_concat [where s = "[]"] by auto

lemma validUtf8_append: "validUtf8 s \<Longrightarrow> validUtf8 (s @ t) \<longleftrightarrow> validUtf8 t"
  using validUtf8_runes validUtf8_concat by blast

lemma wf_rune_ascii: "byte c < 0x80 \<Longrightarrow> wf_rune [c]"
  by (simp add: wf_rune_Cons runeSize_def)

lemma validUtf8_ascii: "byte c < 0x80 \<Longrightarrow> validUtf8 (c # s) \<longleftrightarrow> validUtf8 s"
  using validUtf8_append_rune [OF wf_rune_ascii, of c s] by simp

text \<open>Any prefix of a sequence of runes is whole runes and a proper prefix of the next one.\<close>

lemma concat_prefix_split:
  assumes "a @ b = concat qs"
  obtains (whole) ps qs' where "qs = ps @ qs'" "a = concat ps" "b = concat qs'"
  | (inside) ps q p p' qs' where "qs = ps @ q # qs'" "a = concat ps @ p" "q = p @ p'" "p \<noteq> []" "p' \<noteq> []" "b = p' @ concat qs'"
proof -
  have "(\<exists>ps qs'. qs = ps @ qs' \<and> a = concat ps \<and> b = concat qs') \<or>
    (\<exists>ps q p p' qs'. qs = ps @ q # qs' \<and> a = concat ps @ p \<and> q = p @ p' \<and> p \<noteq> [] \<and> p' \<noteq> [] \<and> b = p' @ concat qs')"
    using assms
  proof (induction qs arbitrary: a)
    case Nil
    then show ?case by simp
  next
    case (Cons q qs)
    from Cons.prems have "(\<exists>us. a = q @ us \<and> us @ b = concat qs) \<or> (\<exists>us. q = a @ us \<and> us \<noteq> [] \<and> b = us @ concat qs)"
      by (fastforce simp: append_eq_append_conv2)
    then consider us where "a = q @ us" "us @ b = concat qs" | us where "q = a @ us" "us \<noteq> []" "b = us @ concat qs"
      by blast
    then show ?case
    proof cases
      case 1
      from Cons.IH [OF 1(2)] show ?thesis
      proof (elim disjE exE conjE)
        fix ps qs' assume "qs = ps @ qs'" "us = concat ps" "b = concat qs'"
        with 1 show ?thesis by (intro disjI1 exI [of _ "q # ps"] exI [of _ qs']) simp
      next
        fix ps q' p p' qs' assume "qs = ps @ q' # qs'" "us = concat ps @ p" "q' = p @ p'" "p \<noteq> []" "p' \<noteq> []" "b = p' @ concat qs'"
        with 1 show ?thesis
          by (intro disjI2 exI [of _ "q # ps"] exI [of _ q'] exI [of _ p] exI [of _ p'] exI [of _ qs']) simp
      qed
    next
      case 2
      show ?thesis
      proof (cases "a = []")
        case True
        with 2 show ?thesis by (intro disjI1 exI [of _ "[]"] exI [of _ "q # qs"]) simp
      next
        case False
        with 2 show ?thesis
          by (intro disjI2 exI [of _ "[]"] exI [of _ q] exI [of _ a] exI [of _ us] exI [of _ qs]) simp
      qed
    qed
  qed
  then show thesis using whole inside by blast
qed

text \<open>
  A prefix of a valid text is cut where \<open>incompleteRuneStart\<close> says: what goes before the cut is
  valid, and what is held back is valid with the rest of the text.
\<close>

lemma incompleteRuneStart_splits:
  assumes "validUtf8 (a @ b)"
  shows "validUtf8 (take (incompleteRuneStart a) a) \<and> validUtf8 (drop (incompleteRuneStart a) a @ b)"
proof -
  obtain qs where qs: "a @ b = concat qs" "\<forall>q \<in> set qs. wf_rune q" using validUtf8_runes [OF assms] by blast
  have rest: "\<forall>d \<in> set cs. \<not> RuneStart d" "length cs < UTFMax" if w: "wf_rune (c # cs)" for c cs
    using wf_rune_rest [OF w] continues_not_start w runeSize_bounds(2) [of c]
    by (auto simp: in_set_conv_nth wf_rune_Cons UTFMax_def)
  from qs(1) show ?thesis
  proof (cases rule: concat_prefix_split)
    case (whole ps qs')
    have "incompleteRuneStart a = length a"
    proof (cases ps rule: rev_cases)
      case (snoc ps' q)
      with qs whole have w: "wf_rune q" by simp
      then obtain c cs where q: "q = c # cs" by (cases q) (auto simp: wf_rune_def)
      have "incompleteRuneStart (concat ps' @ c # cs) = length (concat ps' @ c # cs)"
        using incompleteRuneStart_at [of c cs "concat ps'"] wf_rune_start [of c cs] rest [of c cs] wf_rune_full [of c cs] w q
        by simp
      then show ?thesis using snoc whole q by simp
    qed (use whole in \<open>simp add: incompleteRuneStart_def\<close>)
    with whole qs validUtf8_concat [of ps "[]"] validUtf8_concat [of qs' "[]"] show ?thesis by simp
  next
    case (inside ps q p p' qs')
    with qs have w: "wf_rune q" "\<forall>q \<in> set ps. wf_rune q" "\<forall>q \<in> set qs'. wf_rune q" by auto
    from inside(4,5) obtain c cs d ds where p: "p = c # cs" "p' = d # ds" by (meson neq_Nil_conv)
    have wq: "wf_rune (c # cs @ d # ds)" using w(1) inside(3) p by simp
    have "\<forall>d \<in> set cs. \<not> RuneStart d" "length cs < UTFMax" using rest [OF wq] by auto
    from incompleteRuneStart_at [OF wf_rune_start [OF wq] this, of "concat ps"]
    have "incompleteRuneStart a = length (concat ps)" using wf_rune_partial [OF wq] inside p by simp
    moreover have "drop (length (concat ps)) a @ b = q @ concat qs'" using inside by simp
    ultimately show ?thesis
      using inside w validUtf8_concat [of ps "[]"] validUtf8_concat [of qs' "[]"] validUtf8_append_rune [of q "concat qs'"]
      by simp
  qed
qed

end
