(* ===== verification/Wire_Format.thy ===== *)
theory Wire_Format
  imports Utf8
begin

text \<open>
  Events of an execution as they travel: \<open>Response\<close> of \<open>internal/daemon/protocol.go\<close>, its JSON encoding
  (\<open>json.Marshal\<close>), and the reading side: \<open>strconv.ParseUint\<close>, \<open>parseAfterParam\<close> of
  \<open>internal/daemon/daemon.go\<close> and \<open>execEventPrefix\<close> of \<open>internal/runner/exec_proxy.go\<close>, which takes the
  sequence number and the type from a line without decoding it.
\<close>

section \<open>Numbers\<close>

definition digitChar :: "nat \<Rightarrow> char" where
  "digitChar d = char_of (48 + d)"

fun itoa :: "nat \<Rightarrow> string" where
  "itoa n = (if n < 10 then [digitChar n] else itoa (n div 10) @ [digitChar (n mod 10)])"

declare itoa.simps [simp del]

definition itoaInt :: "int \<Rightarrow> string" where
  "itoaInt i = (if i < 0 then CHR ''-'' # itoa (nat (- i)) else itoa (nat i))"

definition isDigit :: "char \<Rightarrow> bool" where
  "isDigit c \<longleftrightarrow> 48 \<le> byte c \<and> byte c \<le> 57"

definition digitsValue :: "string \<Rightarrow> nat" where
  "digitsValue s = foldl (\<lambda>n c. n * 10 + (byte c - 48)) 0 s"

text \<open>\<open>strconv.ParseUint(s, 10, 64)\<close>; \<open>None\<close> is its syntax or range error.\<close>

definition ParseUint :: "string \<Rightarrow> u64 option" where
  "ParseUint s =
     (if s = [] \<or> \<not> list_all isDigit s then None
      else let n = digitsValue s in if n < 2 ^ 64 then Some (of_nat n) else None)"

definition parseAfterParam :: "string \<Rightarrow> u64 option option" where
  "parseAfterParam v =
     (if v = [] then Some None
      else case ParseUint v of None \<Rightarrow> None | Some after \<Rightarrow> Some (Some after))"

section \<open>JSON\<close>

definition hexLower :: "nat \<Rightarrow> char" where
  "hexLower d = (if d < 10 then char_of (48 + d) else char_of (87 + d))"

definition quoteChar :: char where "quoteChar = CHR 0x22"
definition backslash :: char where "backslash = CHR 0x5C"
definition newline :: char where "newline = CHR 0x0A"

text \<open>One ASCII byte, with HTML escaping as \<open>json.Marshal\<close> has it.\<close>

definition jsonByte :: "char \<Rightarrow> string" where
  "jsonByte c =
     (if c = quoteChar \<or> c = backslash then [backslash, c]
      else if c = CHR 0x08 then [backslash, CHR ''b'']
      else if c = CHR 0x0C then [backslash, CHR ''f'']
      else if c = newline then [backslash, CHR ''n'']
      else if c = CHR 0x0D then [backslash, CHR ''r'']
      else if c = CHR 0x09 then [backslash, CHR ''t'']
      else if byte c < 0x20 \<or> c \<in> {CHR ''<'', CHR ''>'', CHR ''&''}
      then [backslash, CHR ''u'', CHR ''0'', CHR ''0'', hexLower (byte c div 16), hexLower (byte c mod 16)]
      else [c])"

function jsonChars :: "string \<Rightarrow> string" where
  "jsonChars [] = []"
| "jsonChars (c # s) =
     (if byte c < 0x80 then jsonByte c @ jsonChars s
      else case DecodeRune (c # s) of
             (None, _) \<Rightarrow> backslash # ''ufffd'' @ jsonChars s
           | (Some r, n) \<Rightarrow>
               (if r = 0x2028 then backslash # ''u2028''
                else if r = 0x2029 then backslash # ''u2029''
                else take n (c # s)) @ jsonChars (drop (n - 1) s))"
  by pat_completeness auto
termination
  by (relation "measure length") auto

declare jsonChars.simps(2) [simp del]

definition jsonString :: "string \<Rightarrow> string" where
  "jsonString s = quoteChar # jsonChars s @ [quoteChar]"

definition jsonBool :: "bool \<Rightarrow> string" where
  "jsonBool b = (if b then ''true'' else ''false'')"

section \<open>Events\<close>

definition ResponseTypeStarted :: string where "ResponseTypeStarted = ''started''"
definition ResponseTypeStdout :: string where "ResponseTypeStdout = ''stdout''"
definition ResponseTypeStderr :: string where "ResponseTypeStderr = ''stderr''"
definition ResponseTypeExit :: string where "ResponseTypeExit = ''exit''"
definition ResponseTypeError :: string where "ResponseTypeError = ''error''"

lemmas response_types = ResponseTypeStarted_def ResponseTypeStdout_def ResponseTypeStderr_def
  ResponseTypeExit_def ResponseTypeError_def

record Response =
  re_Seq :: "u64 option"
  re_Type :: string
  re_ExecID :: string
  re_Data :: string
  re_ExitCode :: int
  re_Success :: "bool option"
  re_ExecutionTimeMs :: int
  re_TimedOut :: "bool option"
  re_Killed :: "bool option"
  re_Error :: string

definition zeroResponse :: Response where
  "zeroResponse = \<lparr>re_Seq = None, re_Type = [], re_ExecID = [], re_Data = [], re_ExitCode = 0, re_Success = None,
     re_ExecutionTimeMs = 0, re_TimedOut = None, re_Killed = None, re_Error = []\<rparr>"

definition newStartedResponse :: "string \<Rightarrow> Response" where
  "newStartedResponse execID = zeroResponse\<lparr>re_Seq := Some 0, re_Type := ResponseTypeStarted, re_ExecID := execID\<rparr>"

definition newErrorResponse :: "string \<Rightarrow> Response" where
  "newErrorResponse msg = zeroResponse\<lparr>re_Type := ResponseTypeError, re_Error := msg\<rparr>"

definition isTerminal :: "Response \<Rightarrow> bool" where
  "isTerminal r \<longleftrightarrow> re_Type r = ResponseTypeExit \<or> re_Type r = ResponseTypeError"

text \<open>A member of the object, with its name quoted; the members are written in declaration order.\<close>

definition jsonMember :: "string \<Rightarrow> string \<Rightarrow> string" where
  "jsonMember name v = quoteChar # name @ [quoteChar, CHR '':''] @ v"

fun joinComma :: "string list \<Rightarrow> string" where
  "joinComma [] = []"
| "joinComma [m] = m"
| "joinComma (m # ms) = m @ CHR '','' # joinComma ms"

definition responseMembers :: "Response \<Rightarrow> string list" where
  "responseMembers r =
     (case re_Seq r of None \<Rightarrow> [] | Some q \<Rightarrow> [jsonMember ''seq'' (itoa (unat q))]) @
     [jsonMember ''type'' (jsonString (re_Type r))] @
     (if re_ExecID r = [] then [] else [jsonMember ''exec_id'' (jsonString (re_ExecID r))]) @
     (if re_Data r = [] then [] else [jsonMember ''data'' (jsonString (re_Data r))]) @
     [jsonMember ''exit_code'' (itoaInt (re_ExitCode r))] @
     (case re_Success r of None \<Rightarrow> [] | Some b \<Rightarrow> [jsonMember ''success'' (jsonBool b)]) @
     [jsonMember ''execution_time_ms'' (itoaInt (re_ExecutionTimeMs r))] @
     (case re_TimedOut r of None \<Rightarrow> [] | Some b \<Rightarrow> [jsonMember ''timed_out'' (jsonBool b)]) @
     (case re_Killed r of None \<Rightarrow> [] | Some b \<Rightarrow> [jsonMember ''killed'' (jsonBool b)]) @
     (if re_Error r = [] then [] else [jsonMember ''error'' (jsonString (re_Error r))])"

definition marshalResponse :: "Response \<Rightarrow> string" where
  "marshalResponse r = CHR ''{'' # joinComma (responseMembers r) @ ''}''"

section \<open>Reading the prefix of an event\<close>

text \<open>\<open>bytes.IndexByte\<close>, \<open>None\<close> for -1.\<close>

fun indexByte :: "string \<Rightarrow> char \<Rightarrow> nat option" where
  "indexByte [] c = None"
| "indexByte (d # s) c = (if d = c then Some 0 else map_option Suc (indexByte s c))"

definition seqPrefix :: string where "seqPrefix = CHR ''{'' # quoteChar # ''seq'' @ [quoteChar, CHR '':'']"
definition typePrefix :: string where "typePrefix = CHR '','' # quoteChar # ''type'' @ [quoteChar, CHR '':'', quoteChar]"

datatype prefix_error = MissingSeqPrefix | MissingSeqTerminator | BadSeq | MissingTypePrefix | UnterminatedType

definition execEventPrefix :: "string \<Rightarrow> prefix_error + (u64 \<times> string)" where
  "execEventPrefix line =
     (if \<not> hasPrefix line seqPrefix then Inl MissingSeqPrefix
      else let rest = drop (length seqPrefix) line in
        case indexByte rest (CHR '','') of
          None \<Rightarrow> Inl MissingSeqTerminator
        | Some comma \<Rightarrow>
            if comma = 0 then Inl MissingSeqTerminator
            else (case ParseUint (take comma rest) of
                    None \<Rightarrow> Inl BadSeq
                  | Some sq \<Rightarrow>
                      (let rest2 = drop comma rest in
                       if \<not> hasPrefix rest2 typePrefix then Inl MissingTypePrefix
                       else let rest3 = drop (length typePrefix) rest2 in
                         case indexByte rest3 quoteChar of
                           None \<Rightarrow> Inl UnterminatedType
                         | Some e \<Rightarrow> Inr (sq, take e rest3))))"

definition isTerminalEvent :: "string \<Rightarrow> bool" where
  "isTerminalEvent typ \<longleftrightarrow> typ = ''exit'' \<or> typ = ''error''"

section \<open>Numbers read back\<close>

lemma byte_digitChar: "d < 10 \<Longrightarrow> byte (digitChar d) = 48 + d"
  by (simp add: digitChar_def)

lemma isDigit_digitChar: "d < 10 \<Longrightarrow> isDigit (digitChar d)"
  by (simp add: isDigit_def byte_digitChar)

lemma itoa_digits: "list_all isDigit (itoa n)"
proof (induction n rule: itoa.induct)
  case (1 n)
  then show ?case by (subst itoa.simps) (auto simp: isDigit_digitChar)
qed

lemma itoa_value: "digitsValue (itoa n) = n"
proof (induction n rule: itoa.induct)
  case (1 n)
  then show ?case by (subst itoa.simps) (auto simp: digitsValue_def byte_digitChar)
qed

lemma itoa_not_Nil: "itoa n \<noteq> []"
  by (subst itoa.simps) simp

lemma ParseUint_itoa: "ParseUint (itoa (unat (q :: u64))) = Some q"
proof -
  have "unat q < 2 ^ 64" using unsigned_less [of q] by simp
  then show ?thesis using itoa_digits [of "unat q"] by (simp add: ParseUint_def itoa_value itoa_not_Nil)
qed

lemma digit_not: "isDigit c \<Longrightarrow> c \<noteq> CHR '','' \<and> c \<noteq> newline \<and> c \<noteq> quoteChar"
  by (auto simp: isDigit_def newline_def quoteChar_def)

section \<open>The prefix read back\<close>

lemma indexByte_append: "c \<notin> set s \<Longrightarrow> indexByte (s @ c # t) c = Some (length s)"
  by (induction s) auto

lemma joinComma_Cons: "ms \<noteq> [] \<Longrightarrow> joinComma (m # ms) = m @ CHR '','' # joinComma ms"
  by (cases ms) auto

lemma joinComma_append: "ms \<noteq> [] \<Longrightarrow> ns \<noteq> [] \<Longrightarrow> joinComma (ms @ ns) = joinComma ms @ CHR '','' # joinComma ns"
  by (induction ms rule: joinComma.induct) (auto simp: joinComma_Cons)

text \<open>The first two members of an event that has a sequence number.\<close>

lemma marshalResponse_prefix:
  assumes "re_Seq r = Some q"
  shows "\<exists>t. marshalResponse r = seqPrefix @ itoa (unat q) @ typePrefix @ jsonChars (re_Type r) @ quoteChar # t"
proof -
  obtain ms where ms: "responseMembers r = jsonMember ''seq'' (itoa (unat q)) # jsonMember ''type'' (jsonString (re_Type r)) # ms"
    "ms \<noteq> []"
    using assms by (simp add: responseMembers_def)
  then have "marshalResponse r = seqPrefix @ itoa (unat q) @ typePrefix @ jsonChars (re_Type r) @ quoteChar # (CHR '','' # joinComma ms @ ''}'')"
    by (simp add: marshalResponse_def joinComma_Cons jsonMember_def jsonString_def seqPrefix_def typePrefix_def)
  then show ?thesis by blast
qed

lemma jsonChars_plain:
  "list_all (\<lambda>c. jsonByte c = [c] \<and> byte c < 0x80) s \<Longrightarrow> jsonChars s = s"
  by (induction s) (auto simp: jsonChars.simps)

lemma execEventPrefix_parts:
  assumes "quoteChar \<notin> set typ"
  shows "execEventPrefix (seqPrefix @ itoa (unat q) @ typePrefix @ typ @ quoteChar # t) = Inr (q, typ)"
proof -
  have comma: "CHR '','' \<notin> set (itoa (unat q))"
    using itoa_digits [of "unat q"] digit_not by (auto simp: list_all_iff)
  have tp: "typePrefix = CHR '','' # tl typePrefix" by (simp add: typePrefix_def)
  let ?rest = "itoa (unat q) @ typePrefix @ typ @ quoteChar # t"
  have i: "indexByte ?rest (CHR '','') = Some (length (itoa (unat q)))"
    using indexByte_append [OF comma, of "tl typePrefix @ typ @ quoteChar # t"] tp by (metis append_Cons)
  have j: "indexByte (typ @ quoteChar # t) quoteChar = Some (length typ)"
    by (rule indexByte_append [OF assms])
  show ?thesis
    by (simp add: execEventPrefix_def Let_def i j ParseUint_itoa itoa_not_Nil)
qed

section \<open>An event is one line\<close>

lemma hexLower_not_newline: "d < 16 \<Longrightarrow> hexLower d \<noteq> newline"
proof -
  assume "d < 16"
  then have "byte (hexLower d) \<noteq> byte newline" by (simp add: hexLower_def newline_def)
  then show ?thesis by metis
qed

lemma jsonByte_no_newline:
  assumes "byte c < 0x80"
  shows "newline \<notin> set (jsonByte c)"
proof -
  have h: "newline \<noteq> hexLower (byte c div 16)" "newline \<noteq> hexLower (byte c mod 16)"
    using hexLower_not_newline [of "byte c div 16"] hexLower_not_newline [of "byte c mod 16"] assms
    by (auto simp: less_mult_imp_div_less)
  have n: "newline \<noteq> backslash" "newline \<noteq> quoteChar" "newline \<notin> set ''bfnrtu0''"
    by (simp_all add: newline_def backslash_def quoteChar_def)
  show ?thesis unfolding jsonByte_def using h n by simp
qed

lemma wf_rune_high:
  assumes "wf_rune (c # cs)" "0x80 \<le> byte c" "d \<in> set (c # cs)"
  shows "0x80 \<le> byte d"
  using assms wf_rune_rest [OF assms(1)] by (auto simp: in_set_conv_nth continues_def)

lemma jsonChars_no_newline: "newline \<notin> set (jsonChars s)"
proof (induction s rule: jsonChars.induct)
  case (2 c s)
  show ?case
  proof (cases "byte c < 0x80")
    case True
    with 2 show ?thesis by (auto simp: jsonChars.simps jsonByte_no_newline)
  next
    case False
    obtain res n where d: "DecodeRune (c # s) = (res, n)" by fastforce
    show ?thesis
    proof (cases res)
      case None
      with 2(2) [OF False d [symmetric]] False d show ?thesis
        by (simp add: jsonChars.simps backslash_def newline_def)
    next
      case (Some r)
      with d have w: "wf_rune (take n (c # s))" "n \<noteq> 0" using decode_prefix_wf by blast+
      then obtain m where m: "n = Suc m" by (cases n) auto
      have "newline \<notin> set (take n (c # s))"
        using wf_rune_high [of c "take m s" newline] w m False by (auto simp: newline_def)
      moreover have "newline \<notin> set (jsonChars (drop (n - 1) s))"
        using 2(3) [OF False d [symmetric] Some] .
      ultimately show ?thesis using False d Some
        by (simp add: jsonChars.simps(2) [of c s] backslash_def newline_def)
    qed
  qed
qed simp

lemma digits_no_newline: "newline \<notin> set (itoa n)" "newline \<notin> set (itoaInt i)"
proof -
  show d: "newline \<notin> set (itoa n)" for n
    using itoa_digits [of n] digit_not by (auto simp: list_all_iff)
  show "newline \<notin> set (itoaInt i)" using d by (simp add: itoaInt_def newline_def)
qed

lemma joinComma_no_newline: "\<forall>m \<in> set ms. newline \<notin> set m \<Longrightarrow> newline \<notin> set (joinComma ms)"
  by (induction ms rule: joinComma.induct) (auto simp: newline_def)

lemma jsonMember_no_newline: "newline \<notin> set name \<Longrightarrow> newline \<notin> set v \<Longrightarrow> newline \<notin> set (jsonMember name v)"
  by (simp add: jsonMember_def quoteChar_def newline_def)

lemma jsonString_no_newline: "newline \<notin> set (jsonString s)"
  using jsonChars_no_newline [of s] by (simp add: jsonString_def quoteChar_def newline_def)

lemma jsonBool_no_newline: "newline \<notin> set (jsonBool b)"
  by (simp add: jsonBool_def newline_def)

lemma member_names:
  "newline \<notin> set ''seq''" "newline \<notin> set ''type''" "newline \<notin> set ''exec_id''" "newline \<notin> set ''data''"
  "newline \<notin> set ''exit_code''" "newline \<notin> set ''success''" "newline \<notin> set ''execution_time_ms''"
  "newline \<notin> set ''timed_out''" "newline \<notin> set ''killed''" "newline \<notin> set ''error''"
  by (simp_all add: newline_def)

lemma marshalResponse_one_line: "newline \<notin> set (marshalResponse r)"
proof -
  note plain = member_names [THEN jsonMember_no_newline] jsonString_no_newline digits_no_newline jsonBool_no_newline
  have "\<forall>m \<in> set (responseMembers r). newline \<notin> set m"
    unfolding responseMembers_def set_append ball_Un by (intro conjI) (auto simp: plain split: option.split)
  then show ?thesis using joinComma_no_newline by (simp add: marshalResponse_def newline_def)
qed

lemma event_line_parts:
  assumes "re_Seq r = Some q"
    and "re_Type r \<in> {ResponseTypeStarted, ResponseTypeStdout, ResponseTypeStderr, ResponseTypeExit, ResponseTypeError}"
  shows "newline \<notin> set (marshalResponse r)" "execEventPrefix (marshalResponse r @ [newline]) = Inr (q, re_Type r)"
    "isTerminalEvent (re_Type r) = isTerminal r"
proof -
  have plain: "jsonChars (re_Type r) = re_Type r"
    using assms(2) by (intro jsonChars_plain)
      (auto simp: response_types jsonByte_def quoteChar_def backslash_def newline_def)
  obtain t where "marshalResponse r = seqPrefix @ itoa (unat q) @ typePrefix @ re_Type r @ quoteChar # t"
    using marshalResponse_prefix [OF assms(1)] plain by auto
  moreover have "quoteChar \<notin> set (re_Type r)" using assms(2) by (auto simp: response_types quoteChar_def)
  ultimately show "execEventPrefix (marshalResponse r @ [newline]) = Inr (q, re_Type r)"
    using execEventPrefix_parts [of "re_Type r" q "t @ [newline]"] by simp
  show "newline \<notin> set (marshalResponse r)" by (rule marshalResponse_one_line)
  show "isTerminalEvent (re_Type r) = isTerminal r" by (simp add: isTerminalEvent_def isTerminal_def response_types)
qed

text \<open>
  Claim C27. The daemon's wire format and the runner's shortcut agree: every event the daemon
  numbers is one line, and the shortcut reads exactly its sequence number and its type, whatever
  bytes the output of the command put into the event.
\<close>

theorem event_prefix_round_trip:
  assumes "re_Seq r = Some q"
    and "re_Type r \<in> {ResponseTypeStarted, ResponseTypeStdout, ResponseTypeStderr, ResponseTypeExit, ResponseTypeError}"
  shows "newline \<notin> set (marshalResponse r) \<and>
     execEventPrefix (marshalResponse r @ [newline]) = Inr (q, re_Type r) \<and>
     isTerminalEvent (re_Type r) = isTerminal r"
  using event_line_parts [OF assms] by simp

theorem event_prefix_round_trip_witness:
  "execEventPrefix (marshalResponse (zeroResponse\<lparr>re_Seq := Some 7, re_Type := ResponseTypeStdout, re_Data := [newline, quoteChar]\<rparr>)
     @ [newline]) = Inr (7, ''stdout'')"
  using event_prefix_round_trip [of "zeroResponse\<lparr>re_Seq := Some 7, re_Type := ResponseTypeStdout, re_Data := [newline, quoteChar]\<rparr>" 7]
  by (simp add: ResponseTypeStdout_def)

end
