(* ===== verification/Stream_Lines.thy ===== *)
theory Stream_Lines
  imports Wire_Format
begin

text \<open>
  Running a command in the sandbox, \<open>internal/daemon/exec.go\<close>: \<open>streamLines\<close>, which turns the bytes of
  a pipe into output events, and \<open>HandleExec\<close>, which starts the command and sends the events. The
  process itself is a parameter: what it writes, how it ends, and in which order the two readers
  hand over their events.
\<close>

section \<open>Reading lines\<close>

definition streamChunkBytes :: nat where "streamChunkBytes = 64 * 1024"

definition carriageReturn :: char where "carriageReturn = CHR 0x0D"

definition dropCR :: "string \<Rightarrow> string" where
  "dropCR s = (if s \<noteq> [] \<and> last s = carriageReturn then butlast s else s)"

text \<open>
  \<open>bufio.Reader.ReadLine\<close> with a buffer of \<open>n\<close> bytes on the bytes still to come: the chunk,
  \<open>isPrefix\<close>, and what is left; \<open>None\<close> when nothing is. A carriage return at the end of a full buffer is
  put back, in case a newline follows.
\<close>

definition ReadLine :: "nat \<Rightarrow> string \<Rightarrow> (string \<times> bool \<times> string) option" where
  "ReadLine n s =
     (if s = [] then None
      else let line = takeWhile (\<lambda>c. c \<noteq> newline) s; i = length line in
        if i < n \<and> i < length s then Some (dropCR line, False, drop (Suc i) s)
        else if n \<le> length s then
          (if last (take n s) = carriageReturn then Some (butlast (take n s), True, drop (n - 1) s)
           else Some (take n s, True, drop n s))
        else Some (s, False, []))"

text \<open>\<open>bufio.NewReaderSize\<close> takes at least 16 bytes.\<close>

definition bufferSize :: "nat \<Rightarrow> nat" where
  "bufferSize n = max 16 n"

lemma ReadLine_shorter:
  assumes "ReadLine (bufferSize n) s = Some (chunk, isPrefix, rest)"
  shows "length rest < length s"
  using assms by (auto simp: ReadLine_def bufferSize_def Let_def split: if_splits)

text \<open>The loop of \<open>streamLines\<close>: the events emitted from here on.\<close>

function stream_loop :: "nat \<Rightarrow> string \<Rightarrow> string \<Rightarrow> bool \<Rightarrow> string list" where
  "stream_loop n s carry midLine =
     (case ReadLine (bufferSize n) s of
        None \<Rightarrow> if length carry > 0 \<or> midLine then [carry @ [newline]] else []
      | Some (chunk, isPrefix, rest) \<Rightarrow>
          (let da = carry @ chunk in
           if \<not> isPrefix then (da @ [newline]) # stream_loop n rest [] False
           else let cut = incompleteRuneStart da in
             if cut > 0 then take cut da # stream_loop n rest (drop cut da) True
             else stream_loop n rest (drop cut da) midLine))"
  by pat_completeness auto
termination
  by (relation "measure (\<lambda>(n, s, carry, midLine). length s)") (auto dest: ReadLine_shorter)

declare stream_loop.simps [simp del]

lemma stream_loop_step:
  "ReadLine (bufferSize n) s = Some (chunk, isPrefix, rest) \<Longrightarrow> stream_loop n s carry midLine =
     (if \<not> isPrefix then (carry @ chunk @ [newline]) # stream_loop n rest [] False
      else if incompleteRuneStart (carry @ chunk) > 0
      then take (incompleteRuneStart (carry @ chunk)) (carry @ chunk)
        # stream_loop n rest (drop (incompleteRuneStart (carry @ chunk)) (carry @ chunk)) True
      else stream_loop n rest (drop (incompleteRuneStart (carry @ chunk)) (carry @ chunk)) midLine)"
  by (subst stream_loop.simps) (simp add: Let_def)

text \<open>The reader's bytes and how they end: end of file, or another error.\<close>

definition streamLines :: "nat \<Rightarrow> string \<times> string option \<Rightarrow> string list \<times> string option" where
  "streamLines n r = (stream_loop n (fst r) [] False, snd r)"

section \<open>The command\<close>

record Cmd =
  cmd_args :: "string list"
  cmd_env :: "string list"
  cmd_dir :: string

text \<open>
  What the process and its pipes do: errors before it runs, the bytes of its two streams, the
  order of the readers' events, its end, and the time it took. \<open>xo_state\<close> is the exit code and
  whether a signal ended it; \<open>None\<close> stands for a nil process state.
\<close>

record exec_outcome =
  xo_stdoutPipe :: "string option"
  xo_stderrPipe :: "string option"
  xo_start :: "string option"
  xo_stdout :: "string \<times> string option"
  xo_stderr :: "string \<times> string option"
  xo_order :: "bool list"
  xo_state :: "(int \<times> bool) option"
  xo_waitErr :: bool
  xo_deadline :: bool
  xo_elapsedMs :: int

fun interleave :: "bool list \<Rightarrow> 'a list \<Rightarrow> 'a list \<Rightarrow> 'a list" where
  "interleave [] xs ys = xs @ ys"
| "interleave (True # bs) (x # xs) ys = x # interleave bs xs ys"
| "interleave (False # bs) xs (y # ys) = y # interleave bs xs ys"
| "interleave (b # bs) xs ys = interleave bs xs ys"

definition execCommand :: "string \<Rightarrow> string list \<Rightarrow> string \<Rightarrow> Cmd" where
  "execCommand command env workdir =
     \<lparr>cmd_args = [''/bin/sh'', ''-c'', command],
      cmd_env = [''HOME=/home/user'',
        ''PATH=/home/user/venv/bin:/home/user/.npm-global/bin:/usr/local/sbin:/usr/local/bin:/usr/sbin:/usr/bin:/sbin:/bin''] @ env,
      cmd_dir = workdir\<rparr>"

definition exitResponse :: "exec_outcome \<Rightarrow> Response" where
  "exitResponse o1 =
     (let (exitCode, killed) = (case xo_state o1 of None \<Rightarrow> (0, False) | Some (code, signaled) \<Rightarrow> (code, signaled));
          (exitCode, killed) = (if xo_waitErr o1 then (- 1, True) else (exitCode, killed));
          (timedOut, killed) = (if xo_deadline o1 then (True, True) else (False, killed))
      in zeroResponse\<lparr>re_Type := ResponseTypeExit, re_ExitCode := exitCode, re_Success := Some (exitCode = 0),
           re_ExecutionTimeMs := xo_elapsedMs o1, re_TimedOut := Some timedOut, re_Killed := Some killed\<rparr>)"

text \<open>The error, if the command did not start, and the events handed to the callback.\<close>

definition HandleExec :: "(Cmd \<Rightarrow> exec_outcome) \<Rightarrow> string \<Rightarrow> string list \<Rightarrow> string \<Rightarrow> string option \<times> Response list" where
  "HandleExec run command env workdir =
     (let o1 = run (execCommand command env workdir) in
      case xo_stdoutPipe o1 of
        Some e \<Rightarrow> (Some (''stdout pipe: '' @ e), [])
      | None \<Rightarrow>
          (case xo_stderrPipe o1 of
             Some e \<Rightarrow> (Some (''stderr pipe: '' @ e), [])
           | None \<Rightarrow>
               (case xo_start o1 of
                  Some e \<Rightarrow> (Some (''start command: '' @ e), [])
                | None \<Rightarrow>
                    (let out = map (\<lambda>d. zeroResponse\<lparr>re_Type := ResponseTypeStdout, re_Data := d\<rparr>)
                                 (fst (streamLines streamChunkBytes (xo_stdout o1)));
                         err = map (\<lambda>d. zeroResponse\<lparr>re_Type := ResponseTypeStderr, re_Data := d\<rparr>)
                                 (fst (streamLines streamChunkBytes (xo_stderr o1)))
                     in (None, interleave (xo_order o1) out err @ [exitResponse o1])))))"

section \<open>Nothing is lost\<close>

text \<open>
  The reference: lines end in a newline, a carriage return before it is dropped, and a last line
  without one gets one. \<open>opened\<close> says that part of the current line has been read already.
\<close>

function normalLines :: "bool \<Rightarrow> string \<Rightarrow> string" where
  "normalLines opened s =
     (let line = takeWhile (\<lambda>c. c \<noteq> newline) s in
      if length line < length s then dropCR line @ newline # normalLines False (drop (Suc (length line)) s)
      else if s = [] \<and> \<not> opened then []
      else s @ [newline])"
  by pat_completeness auto
termination
  by (relation "measure (\<lambda>(opened, s). length s)") auto

declare normalLines.simps [simp del]

lemma takeWhile_newline:
  assumes "length (takeWhile (\<lambda>c. c \<noteq> newline) s) < length s"
  shows "s = takeWhile (\<lambda>c. c \<noteq> newline) s @ newline # drop (Suc (length (takeWhile (\<lambda>c. c \<noteq> newline) s))) s"
proof -
  have "s ! length (takeWhile (\<lambda>c. c \<noteq> newline) s) = newline" using nth_length_takeWhile [OF assms] by simp
  then show ?thesis by (metis assms id_take_nth_drop takeWhile_eq_take)
qed

lemma takeWhile_all: "\<not> length (takeWhile P s) < length s \<Longrightarrow> takeWhile P s = s"
  by (metis linorder_neqE_nat length_takeWhile_le not_less takeWhile_eq_take take_all_iff)

lemma takeWhile_line: "newline \<notin> set l \<Longrightarrow> takeWhile (\<lambda>c. c \<noteq> newline) (l @ newline # r) = l"
  by (induction l) auto

lemma takeWhile_free: "newline \<notin> set s \<Longrightarrow> takeWhile (\<lambda>c. c \<noteq> newline) s = s"
  by (induction s) auto

lemma normalLines_none: "newline \<notin> set s \<Longrightarrow> s \<noteq> [] \<or> opened \<Longrightarrow> normalLines opened s = s @ [newline]"
  by (subst normalLines.simps) (auto simp: takeWhile_free)

lemma normalLines_line:
  "newline \<notin> set l \<Longrightarrow> normalLines opened (l @ newline # r) = dropCR l @ newline # normalLines False r"
  by (subst normalLines.simps) (simp add: takeWhile_line)

text \<open>The three shapes of a chunk.\<close>

lemma ReadLine_cases:
  assumes "ReadLine (bufferSize n) s = Some (chunk, isPrefix, rest)"
  obtains (line) l where "\<not> isPrefix" "s = l @ newline # rest" "newline \<notin> set l" "chunk = dropCR l" "length l < bufferSize n"
  | (tail) "\<not> isPrefix" "rest = []" "chunk = s" "newline \<notin> set s" "s \<noteq> []" "length s < bufferSize n"
  | (part) isPrefix "s = chunk @ rest" "newline \<notin> set chunk" "chunk \<noteq> []" "length chunk \<le> bufferSize n"
      "last chunk = carriageReturn \<Longrightarrow> rest \<noteq> [] \<and> hd rest = carriageReturn"
proof -
  let ?l = "takeWhile (\<lambda>c. c \<noteq> newline) s" and ?n = "bufferSize n"
  have n: "16 \<le> ?n" by (simp add: bufferSize_def)
  have free: "newline \<notin> set ?l" using set_takeWhileD by fastforce
  have s: "s \<noteq> []" using assms by (auto simp: ReadLine_def)
  consider "length ?l < ?n" "length ?l < length s" | "\<not> (length ?l < ?n \<and> length ?l < length s)" "?n \<le> length s"
    | "\<not> (length ?l < ?n \<and> length ?l < length s)" "length s < ?n" by linarith
  then show thesis
  proof cases
    case 1
    with assms s have "\<not> isPrefix" "chunk = dropCR ?l" "rest = drop (Suc (length ?l)) s"
      by (auto simp: ReadLine_def Let_def)
    with 1 takeWhile_newline [OF 1(2)] free line show thesis by metis
  next
    case 2
    have "take ?n s = take ?n ?l"
      using 2 by (metis takeWhile_all takeWhile_eq_take take_take min.absorb1 not_less)
    then have nf: "newline \<notin> set (take ?n s)" using free by (metis in_set_takeD)
    show thesis
    proof (cases "last (take ?n s) = carriageReturn")
      case True
      with assms s 2 have r: isPrefix "chunk = butlast (take ?n s)" "rest = drop (?n - 1) s"
        by (auto simp: ReadLine_def Let_def)
      have c: "chunk = take (?n - 1) s" using r(2) 2(2) by (simp add: butlast_take)
      have ne: "take ?n s \<noteq> []" using 2 n by auto
      have "rest \<noteq> []" "hd rest = s ! (?n - 1)" using r(3) 2(2) n by (auto simp: hd_drop_conv_nth)
      moreover have "last (take ?n s) = s ! (?n - 1)" using 2(2) n ne by (simp add: last_conv_nth)
      ultimately have "rest \<noteq> [] \<and> hd rest = carriageReturn" using True by simp
      moreover have "s = chunk @ rest" using c r(3) by simp
      moreover have "newline \<notin> set chunk" using nf r(2) by (metis in_set_butlastD)
      moreover have "chunk \<noteq> []" "length chunk \<le> ?n" using c 2(2) n by auto
      ultimately show thesis using part r(1) by blast
    next
      case False
      with assms s 2 have "isPrefix" "chunk = take ?n s" "rest = drop ?n s"
        by (auto simp: ReadLine_def Let_def)
      moreover have "take ?n s \<noteq> []" using 2 n by auto
      ultimately show thesis using part nf False 2 by simp
    qed
  next
    case 3
    then have "?l = s" using takeWhile_all [of "\<lambda>c. c \<noteq> newline" s] by linarith
    with assms s 3 free tail show thesis by (auto simp: ReadLine_def Let_def)
  qed
qed

lemma length_dropCR: "length (dropCR l) \<le> length l"
  by (simp add: dropCR_def)

lemma ReadLine_length:
  assumes "ReadLine (bufferSize n) s = Some (chunk, isPrefix, rest)"
  shows "length chunk \<le> bufferSize n" "\<not> isPrefix \<Longrightarrow> length chunk < bufferSize n"
proof -
  have "length chunk \<le> bufferSize n \<and> (isPrefix \<or> length chunk < bufferSize n)"
    using assms
  proof (cases rule: ReadLine_cases)
    case (line l)
    with length_dropCR [of l] show ?thesis by simp
  qed auto
  then show "length chunk \<le> bufferSize n" "\<not> isPrefix \<Longrightarrow> length chunk < bufferSize n" by auto
qed

lemma dropCR_append: "l \<noteq> [] \<Longrightarrow> dropCR (c @ l) = c @ dropCR l"
  by (simp add: dropCR_def butlast_append)

text \<open>Reading the start of a line does not change what its lines are.\<close>

lemma normalLines_part:
  assumes "newline \<notin> set chunk" "chunk \<noteq> []"
    and "last chunk = carriageReturn \<Longrightarrow> rest \<noteq> [] \<and> hd rest = carriageReturn"
  shows "normalLines opened (chunk @ rest) = chunk @ normalLines True rest"
proof (cases "newline \<in> set rest")
  case True
  then obtain l r where rest: "rest = l @ newline # r" "newline \<notin> set l" by (metis split_list_first)
  have "dropCR (chunk @ l) = chunk @ dropCR l"
  proof (cases "l = []")
    case True
    with rest assms(3) have "last chunk \<noteq> carriageReturn" by (auto simp: newline_def carriageReturn_def)
    with True show ?thesis by (simp add: dropCR_def)
  qed (rule dropCR_append)
  with rest assms(1) show ?thesis
    using normalLines_line [of "chunk @ l" opened r] normalLines_line [of l True r] by simp
next
  case False
  with assms(1,2) show ?thesis by (simp add: normalLines_none)
qed

lemma stream_loop_lossless:
  "concat (stream_loop n s carry midLine) = carry @ normalLines (carry \<noteq> [] \<or> midLine) s"
proof (induction n s carry midLine rule: stream_loop.induct)
  case (1 n s carry midLine)
  note step = stream_loop.simps [of n s carry midLine]
  show ?case
  proof (cases "ReadLine (bufferSize n) s")
    case None
    then have "s = []" by (auto simp: ReadLine_def Let_def split: if_splits)
    then show ?thesis unfolding step None by (simp add: normalLines.simps [of _ "[]"])
  next
    case (Some res)
    obtain chunk isPrefix rest where "res = (chunk, isPrefix, rest)" by (metis prod.exhaust)
    note rl = Some [unfolded this]
    note IH = "1.IH" [OF rl refl refl refl]
    from rl show ?thesis
    proof (cases rule: ReadLine_cases)
      case (line l)
      then show ?thesis unfolding stream_loop_step [OF rl] using IH(1) by (simp add: normalLines_line)
    next
      case tail
      then show ?thesis unfolding stream_loop_step [OF rl] using IH(1)
        by (simp add: normalLines_none normalLines.simps [of False "[]"])
    next
      case part
      let ?d = "carry @ chunk" and ?cut = "incompleteRuneStart (carry @ chunk)"
      have d: "take ?cut ?d @ drop ?cut ?d = ?d" by (rule append_take_drop_id)
      have op: "drop ?cut ?d \<noteq> [] \<or> midLine \<or> ?cut > 0" using part(4) by auto
      have "concat (stream_loop n s carry midLine) = ?d @ normalLines True rest"
      proof (cases "?cut > 0")
        case True
        with IH(2) part(1) have "concat (stream_loop n rest (drop ?cut ?d) True) = drop ?cut ?d @ normalLines True rest"
          by simp
        with True part(1) d show ?thesis unfolding stream_loop_step [OF rl] by (simp del: append_assoc add: append_assoc [symmetric])
      next
        case False
        with IH(3) part(1) op have "concat (stream_loop n rest (drop ?cut ?d) midLine) = drop ?cut ?d @ normalLines True rest"
          by auto
        with False part(1) show ?thesis unfolding stream_loop_step [OF rl] by simp
      qed
      with part(2) normalLines_part [OF part(3,4,6), of "carry \<noteq> [] \<or> midLine"] show ?thesis by simp
    qed
  qed
qed

section \<open>No character is split\<close>

lemma validUtf8_newline_split:
  assumes "byte c < 0x80" "validUtf8 (x @ c # y)"
  shows "validUtf8 x \<and> validUtf8 y"
proof -
  obtain qs where qs: "x @ c # y = concat qs" "\<forall>q \<in> set qs. wf_rune q" using validUtf8_runes [OF assms(2)] by blast
  from qs(1) show ?thesis
  proof (cases rule: concat_prefix_split)
    case (whole ps qs')
    then have "validUtf8 x" "validUtf8 (c # y)" using qs(2) validUtf8_iff by auto
    with assms(1) show ?thesis by (simp add: validUtf8_ascii)
  next
    case (inside ps q p p' qs')
    then have w: "wf_rune (p @ p')" using qs(2) by simp
    obtain a as where p: "p = a # as" using inside(4) by (cases p) auto
    obtain bs where "p' = c # bs" using inside(5,6) by (cases p') auto
    with w p have "continues c" using wf_rune_rest [of a "as @ c # bs" "length as"] by (simp add: nth_append)
    with assms(1) show ?thesis by (simp add: continues_def)
  qed
qed

lemma validUtf8_dropCR:
  assumes "validUtf8 (x @ l)"
  shows "validUtf8 (x @ dropCR l)"
proof (cases "l \<noteq> [] \<and> last l = carriageReturn")
  case True
  then obtain l' where l: "l = l' @ [carriageReturn]" by (metis append_butlast_last_id)
  with assms have "validUtf8 (x @ l')"
    using validUtf8_newline_split [of carriageReturn "x @ l'" "[]"] by (simp add: carriageReturn_def)
  with l show ?thesis by (simp add: dropCR_def)
qed (use assms in \<open>auto simp: dropCR_def\<close>)

lemma validUtf8_snoc: "byte c < 0x80 \<Longrightarrow> validUtf8 x \<Longrightarrow> validUtf8 (x @ [c])"
  by (simp add: validUtf8_append validUtf8_ascii)

lemma stream_loop_valid:
  "validUtf8 (carry @ s) \<Longrightarrow> list_all validUtf8 (stream_loop n s carry midLine)"
proof (induction n s carry midLine rule: stream_loop.induct)
  case (1 n s carry midLine)
  note step = stream_loop.simps [of n s carry midLine]
  have nl: "byte newline < 0x80" by (simp add: newline_def)
  show ?case
  proof (cases "ReadLine (bufferSize n) s")
    case None
    then have "s = []" by (auto simp: ReadLine_def Let_def split: if_splits)
    with "1.prems" show ?thesis unfolding step None by (simp add: validUtf8_snoc [OF nl])
  next
    case (Some res)
    obtain chunk isPrefix rest where "res = (chunk, isPrefix, rest)" by (metis prod.exhaust)
    note rl = Some [unfolded this]
    note IH = "1.IH" [OF rl refl refl refl]
    from rl show ?thesis
    proof (cases rule: ReadLine_cases)
      case (line l)
      with "1.prems" have "validUtf8 (carry @ l)" "validUtf8 rest"
        using validUtf8_newline_split [OF nl, of "carry @ l" rest] by auto
      then have "validUtf8 (carry @ chunk @ [newline])" "validUtf8 rest"
        using validUtf8_snoc [OF nl, of "carry @ chunk"] validUtf8_dropCR line(4) by auto
      with line(1) IH(1) show ?thesis unfolding stream_loop_step [OF rl] by simp
    next
      case tail
      with "1.prems" IH(1) validUtf8_snoc [OF nl, of "carry @ chunk"] show ?thesis
        unfolding stream_loop_step [OF rl] by simp
    next
      case part
      let ?cut = "incompleteRuneStart (carry @ chunk)"
      have "validUtf8 ((carry @ chunk) @ rest)" using "1.prems" part(2) by simp
      from incompleteRuneStart_splits [OF this]
      have v: "validUtf8 (take ?cut (carry @ chunk))" "validUtf8 (drop ?cut (carry @ chunk) @ rest)" by auto
      then show ?thesis
        unfolding stream_loop_step [OF rl] using IH(2,3) part(1) by (cases "?cut > 0") auto
    qed
  qed
qed

text \<open>Every event is about a buffer long: at most three bytes are carried, and one newline added.\<close>

lemma stream_loop_bounded:
  "length carry < UTFMax \<Longrightarrow> list_all (\<lambda>e. length e \<le> bufferSize n + UTFMax) (stream_loop n s carry midLine)"
proof (induction n s carry midLine rule: stream_loop.induct)
  case (1 n s carry midLine)
  note step = stream_loop.simps [of n s carry midLine]
  show ?case
  proof (cases "ReadLine (bufferSize n) s")
    case None
    with "1.prems" show ?thesis by (simp add: step)
  next
    case (Some res)
    obtain chunk isPrefix rest where "res = (chunk, isPrefix, rest)" by (metis prod.exhaust)
    note rl = Some [unfolded this]
    note IH = "1.IH" [OF rl refl refl refl]
    note len = ReadLine_length [OF rl]
    show ?thesis
    proof (cases isPrefix)
      case False
      with IH(1) len(2) "1.prems" show ?thesis unfolding stream_loop_step [OF rl] by (simp add: UTFMax_def)
    next
      case True
      let ?cut = "incompleteRuneStart (carry @ chunk)"
      have "length (drop ?cut (carry @ chunk)) < UTFMax"
        using incompleteRuneStart_ge [of "carry @ chunk"] by (simp only: length_drop UTFMax_def)
      moreover have "length (take ?cut (carry @ chunk)) \<le> bufferSize n + UTFMax" using len(1) "1.prems" by simp
      ultimately show ?thesis
        unfolding stream_loop_step [OF rl] using IH(2,3) True by (cases "?cut > 0") auto
    qed
  qed
qed

text \<open>
  Claim C26. Streaming loses nothing and mangles nothing: joined together, the events of a stream
  are its lines, however long, with the line ends normalised; no event is longer than the buffer by
  more than four bytes; and if the stream is valid UTF-8, so is every event, which JSON encoding
  therefore leaves as it is.
\<close>

theorem stream_lossless:
  "concat (fst (streamLines n (s, e))) = normalLines False s \<and>
   list_all (\<lambda>ev. length ev \<le> bufferSize n + UTFMax) (fst (streamLines n (s, e))) \<and>
   (validUtf8 s \<longrightarrow> list_all validUtf8 (fst (streamLines n (s, e))))"
  using stream_loop_lossless [of n s "[]" False] stream_loop_bounded [of "[]" n s False] stream_loop_valid [of "[]" s n False]
  by (simp add: streamLines_def UTFMax_def)

text \<open>A line longer than the buffer, with a two-byte character across its end.\<close>

definition example_long :: string where
  "example_long = replicate 15 (CHR ''a'') @ [CHR 0xC3, CHR 0xA9, CHR ''b'', newline]"

theorem stream_lossless_witness:
  "fst (streamLines 16 (example_long, None)) = [replicate 15 (CHR ''a''), [CHR 0xC3, CHR 0xA9, CHR ''b'', newline]] \<and>
   list_all validUtf8 (fst (streamLines 16 (example_long, None)))"
proof
  have "validUtf8 example_long" by code_simp
  then show "list_all validUtf8 (fst (streamLines 16 (example_long, None)))" using stream_lossless by blast
qed code_simp

section \<open>The events of a command\<close>

lemma exitResponse_terminal: "isTerminal (exitResponse o1)"
  by (simp add: exitResponse_def isTerminal_def Let_def split: option.split prod.split)

lemma interleave_set: "set (interleave bs xs ys) = set xs \<union> set ys"
  by (induction bs xs ys rule: interleave.induct) auto

lemma interleave_filter:
  assumes "\<forall>x \<in> set xs. P x" "\<forall>y \<in> set ys. \<not> P y"
  shows "filter P (interleave bs xs ys) = xs"
  using assms by (induction bs xs ys rule: interleave.induct) (auto simp: filter_id_conv)

text \<open>A command that starts ends with exactly one terminal event; one that does not sends none.\<close>

lemma HandleExec_events:
  assumes "HandleExec run command env workdir = (err, rs)"
  shows "(err = None \<longrightarrow> (\<exists>qs. rs = qs @ [last rs] \<and> isTerminal (last rs) \<and> (\<forall>q \<in> set qs. \<not> isTerminal q)
             \<and> concat (map re_Data (filter (\<lambda>q. re_Type q = ResponseTypeStdout) rs))
               = normalLines False (fst (xo_stdout (run (execCommand command env workdir))))))
       \<and> (err \<noteq> None \<longrightarrow> rs = [])"
proof (cases err)
  case None
  let ?o = "run (execCommand command env workdir)"
  let ?out = "map (\<lambda>d. zeroResponse\<lparr>re_Type := ResponseTypeStdout, re_Data := d\<rparr>) (fst (streamLines streamChunkBytes (xo_stdout ?o)))"
  let ?err = "map (\<lambda>d. zeroResponse\<lparr>re_Type := ResponseTypeStderr, re_Data := d\<rparr>) (fst (streamLines streamChunkBytes (xo_stderr ?o)))"
  have rs: "rs = interleave (xo_order ?o) ?out ?err @ [exitResponse ?o]"
    using assms None by (auto simp: HandleExec_def Let_def split: option.splits)
  have "\<forall>q \<in> set (interleave (xo_order ?o) ?out ?err). \<not> isTerminal q"
    by (auto simp: interleave_set isTerminal_def response_types)
  moreover have "filter (\<lambda>q. re_Type q = ResponseTypeStdout) (interleave (xo_order ?o) ?out ?err) = ?out"
    by (rule interleave_filter) (auto simp: response_types)
  moreover have "re_Type (exitResponse ?o) \<noteq> ResponseTypeStdout"
    using exitResponse_terminal [of ?o] by (auto simp: isTerminal_def response_types)
  moreover have "concat (map re_Data ?out) = normalLines False (fst (xo_stdout ?o))"
    using stream_loop_lossless [of streamChunkBytes "fst (xo_stdout ?o)" "[]" False]
    by (simp add: streamLines_def comp_def)
  ultimately show ?thesis using None exitResponse_terminal by (simp add: rs)
next
  case (Some e)
  with assms show ?thesis by (auto simp: HandleExec_def Let_def split: option.splits)
qed

end
