(* ===== verification/Execution_Log.thy ===== *)
theory Execution_Log
  imports Stream_Lines
begin

text \<open>
  Executions that outlive their connections: the event log of \<open>internal/daemon/execution.go\<close> with its
  trimming, \<open>Snapshot\<close> and \<open>Follow\<close>, and \<open>ExecManager\<close> of \<open>internal/daemon/exec_manager.go\<close>.
  Sequence numbers are 64-bit words. The log refines the full history of the execution.
\<close>

section \<open>The event log\<close>

record storedEvent =
  se_seq :: u64
  se_data :: string

text \<open>
  \<open>ex_completedAt\<close> is \<open>None\<close> for the zero time; \<open>ex_notify\<close> numbers the notification channels, so that a
  waiter holding channel \<open>n\<close> is woken once \<open>ex_notify\<close> differs from \<open>n\<close>; \<open>ex_cancelled\<close> records
  that \<open>cancel\<close> was called.
\<close>

record Execution =
  ex_ID :: string
  ex_events :: "storedEvent list"
  ex_size :: int
  ex_maxEventBytes :: int
  ex_minSeq :: u64
  ex_nextSeq :: u64
  ex_completed :: bool
  ex_completedAt :: "int option"
  ex_cancelled :: bool
  ex_notify :: nat

definition newExecution :: "string \<Rightarrow> int \<Rightarrow> Execution" where
  "newExecution execID maxEventBytes =
     \<lparr>ex_ID = execID, ex_events = [], ex_size = 0, ex_maxEventBytes = maxEventBytes, ex_minSeq = 0, ex_nextSeq = 0,
      ex_completed = False, ex_completedAt = None, ex_cancelled = False, ex_notify = 0\<rparr>"

definition getNextSeq :: "Execution \<Rightarrow> u64 \<times> Execution" where
  "getNextSeq ex = (ex_nextSeq ex, ex\<lparr>ex_nextSeq := ex_nextSeq ex + 1\<rparr>)"

text \<open>The trimming loop of \<open>append\<close>: size, lowest sequence number and events.\<close>

fun trim :: "int \<Rightarrow> int \<times> u64 \<times> storedEvent list \<Rightarrow> int \<times> u64 \<times> storedEvent list" where
  "trim maxBytes (sz, minSeq, e # e' # es) =
     (if sz > maxBytes then trim maxBytes (sz - int (length (se_data e)), se_seq e', e' # es)
      else (sz, minSeq, e # e' # es))"
| "trim maxBytes (sz, minSeq, es) = (sz, minSeq, es)"

definition appendEvent :: "int \<Rightarrow> Response \<Rightarrow> Execution \<Rightarrow> Execution" where
  "appendEvent now resp ex =
     (let (sq, ex1) = getNextSeq ex;
          da = marshalResponse (resp\<lparr>re_Seq := Some sq\<rparr>);
          (sz, minSeq, events) = trim (ex_maxEventBytes ex1)
             (ex_size ex1 + int (length da), ex_minSeq ex1, ex_events ex1 @ [\<lparr>se_seq = sq, se_data = da\<rparr>]);
          ex2 = ex1\<lparr>ex_size := sz, ex_minSeq := minSeq, ex_events := events\<rparr>;
          ex3 = (if isTerminal resp then ex2\<lparr>ex_completed := True, ex_completedAt := Some now\<rparr> else ex2)
      in ex3\<lparr>ex_notify := Suc (ex_notify ex3)\<rparr>)"

text \<open>
  \<open>eventsAfter\<close>, where \<open>None\<close> is the run-time panic of slicing from a negative index: the
  difference is a uint64 and is converted to a signed int.
\<close>

definition toInt :: "u64 \<Rightarrow> int" where
  "toInt w = wrap64 (uint w)"

definition eventsAfter :: "u64 option \<Rightarrow> Execution \<Rightarrow> string list option" where
  "eventsAfter after ex =
     (if after = Some (- 1) then Some []
      else let start = (case after of
                          None \<Rightarrow> 0
                        | Some a \<Rightarrow> if ex_minSeq ex \<le> a then toInt (a - ex_minSeq ex + 1) else 0)
        in if int (length (ex_events ex)) \<le> start then Some []
           else if start < 0 then None
           else Some (map se_data (drop (nat start) (ex_events ex))))"

definition hasHistoryAfter :: "u64 option \<Rightarrow> Execution \<Rightarrow> bool" where
  "hasHistoryAfter after ex =
     (case after of
        None \<Rightarrow> ex_minSeq ex = 0
      | Some a \<Rightarrow> if a = - 1 then True else ex_minSeq ex \<le> a + 1)"

definition HasHistory :: "u64 option \<Rightarrow> Execution \<Rightarrow> bool" where
  "HasHistory after ex = hasHistoryAfter after ex"

datatype 'a outcome = Panic | Refused | Done 'a

definition Snapshot :: "u64 option \<Rightarrow> Execution \<Rightarrow> string list outcome" where
  "Snapshot after ex =
     (if \<not> hasHistoryAfter after ex then Refused
      else case eventsAfter after ex of None \<Rightarrow> Panic | Some evs \<Rightarrow> Done evs)"

text \<open>One turn of the loop of \<open>Follow\<close>: the batch, where to go on, and whether the log was complete.\<close>

definition follow_turn :: "u64 option \<Rightarrow> Execution \<Rightarrow> (string list \<times> u64 option \<times> bool) outcome" where
  "follow_turn after ex =
     (if \<not> hasHistoryAfter after ex then Refused
      else case eventsAfter after ex of
        None \<Rightarrow> Panic
      | Some batch \<Rightarrow>
          Done (batch, if batch \<noteq> [] then Some (se_seq (last (ex_events ex))) else after, ex_completed ex))"

text \<open>
  \<open>Follow\<close> on the states of the log it sees, one per turn: it looks again after every
  notification, and the list ends where the client goes away. The result is \<open>Done\<close> with \<open>Follow\<close>'s
  return value true, \<open>Refused\<close> for false, or \<open>Panic\<close>, together with what the callback got.
\<close>

fun Follow :: "u64 option \<Rightarrow> Execution list \<Rightarrow> unit outcome \<times> string list" where
  "Follow after [] = (Done (), [])"
| "Follow after (ex # exs) =
     (case follow_turn after ex of
        Refused \<Rightarrow> (Refused, [])
      | Panic \<Rightarrow> (Panic, [])
      | Done (batch, after', completed) \<Rightarrow>
          if completed then (Done (), batch)
          else (case Follow after' exs of (res, out) \<Rightarrow> (res, batch @ out)))"

section \<open>The manager\<close>

record ExecManager =
  em_executions :: "string \<rightharpoonup> Execution"
  em_maxEventBytes :: int
  em_execRetainPeriod :: duration

definition expired :: "int \<Rightarrow> duration \<Rightarrow> Execution \<Rightarrow> bool" where
  "expired now retain ex = (case ex_completedAt ex of None \<Rightarrow> False | Some t \<Rightarrow> timeSub now t > retain)"

definition gc :: "int \<Rightarrow> ExecManager \<Rightarrow> ExecManager" where
  "gc now em = em\<lparr>em_executions := (\<lambda>i. case em_executions em i of
     None \<Rightarrow> None
   | Some ex \<Rightarrow> if expired now (em_execRetainPeriod em) ex then None else Some ex)\<rparr>"

text \<open>The id of the execution, whether a command was started for it, and the manager afterwards.\<close>

definition GetOrCreate :: "int \<Rightarrow> string \<Rightarrow> string \<Rightarrow> ExecManager \<Rightarrow> string \<times> bool \<times> ExecManager" where
  "GetOrCreate now fresh execID em =
     (if execID \<noteq> [] \<and> em_executions em execID \<noteq> None then (execID, False, em)
      else let i = (if execID \<noteq> [] then execID else fresh);
               ex = appendEvent now (newStartedResponse i) (newExecution i (em_maxEventBytes em))
        in (i, True, em\<lparr>em_executions := (em_executions em)(i \<mapsto> ex)\<rparr>))"

definition GetExec :: "string \<Rightarrow> ExecManager \<Rightarrow> Execution option" where
  "GetExec execID em = em_executions em execID"

text \<open>The removed execution, whose command \<open>cancel\<close> stops; \<open>None\<close> when there was none.\<close>

definition DeleteExec :: "string \<Rightarrow> ExecManager \<Rightarrow> Execution option \<times> ExecManager" where
  "DeleteExec execID em =
     (case em_executions em execID of
        None \<Rightarrow> (None, em)
      | Some ex \<Rightarrow> (Some (ex\<lparr>ex_cancelled := True\<rparr>), em\<lparr>em_executions := (em_executions em)(execID := None)\<rparr>))"

text \<open>
  What the goroutine of \<open>GetOrCreate\<close> appends: the events of the command, and an error event if it
  did not start or panicked. The log belongs to the pointer, so it grows whether or not the
  manager still holds it.
\<close>

definition run_events :: "string option \<times> Response list \<Rightarrow> Response list" where
  "run_events r = snd r @ (case fst r of None \<Rightarrow> [] | Some e \<Rightarrow> [newErrorResponse e])"

fun append_all :: "int \<Rightarrow> Response list \<Rightarrow> Execution \<Rightarrow> Execution" where
  "append_all now [] ex = ex"
| "append_all now (r # rs) ex = append_all now rs (appendEvent now r ex)"

section \<open>The history the log stands for\<close>

text \<open>
  The abstract execution is the list of all its events. \<open>numbered\<close> gives the responses their
  numbers; \<open>refines\<close> says that the log is a suffix of it, that the numbers below \<open>ex_minSeq\<close> are the
  ones trimmed, and that trimming stops as soon as the log fits.
\<close>

definition numbered :: "Response list \<Rightarrow> storedEvent list" where
  "numbered rs = map (\<lambda>(i, r). \<lparr>se_seq = of_nat i, se_data = marshalResponse (r\<lparr>re_Seq := Some (of_nat i)\<rparr>)\<rparr>) (enumerate 0 rs)"

definition data_size :: "storedEvent list \<Rightarrow> int" where
  "data_size es = int (sum_list (map (length \<circ> se_data) es))"

definition refines :: "Response list \<Rightarrow> Execution \<Rightarrow> bool" where
  "refines rs ex \<longleftrightarrow>
     length rs < 2 ^ 63 \<and>
     (\<exists>k. k \<le> length rs \<and> (rs \<noteq> [] \<longrightarrow> k < length rs) \<and> ex_events ex = drop k (numbered rs) \<and> ex_minSeq ex = of_nat k) \<and>
     ex_nextSeq ex = of_nat (length rs) \<and> ex_size ex = data_size (ex_events ex) \<and>
     (ex_size ex \<le> ex_maxEventBytes ex \<or> length (ex_events ex) \<le> 1) \<and>
     (ex_completed ex \<longleftrightarrow> list_ex isTerminal rs)"

lemma length_numbered [simp]: "length (numbered rs) = length rs"
  by (simp add: numbered_def)

lemma numbered_snoc:
  "numbered (rs @ [r]) = numbered rs @ [\<lparr>se_seq = of_nat (length rs),
     se_data = marshalResponse (r\<lparr>re_Seq := Some (of_nat (length rs))\<rparr>)\<rparr>]"
  by (simp add: numbered_def enumerate_append_eq)

lemma numbered_nth: "i < length rs \<Longrightarrow> se_seq (numbered rs ! i) = of_nat i"
  by (simp add: numbered_def nth_enumerate_eq)

lemma data_size_simps [simp]:
  "data_size [] = 0" "data_size (e # es) = int (length (se_data e)) + data_size es"
  "data_size (es @ es') = data_size es + data_size es'"
  by (simp_all add: data_size_def)

lemma drop_numbered_Cons:
  assumes "k < length rs"
  shows "drop k (numbered rs) = numbered rs ! k # drop (Suc k) (numbered rs)"
  using assms by (simp add: Cons_nth_drop_Suc)

lemma trim_spec:
  assumes "k < length rs" "sz = data_size (drop k (numbered rs))"
  shows "\<exists>j. k \<le> j \<and> j < length rs \<and>
    trim m (sz, of_nat k, drop k (numbered rs)) = (data_size (drop j (numbered rs)), of_nat j, drop j (numbered rs)) \<and>
    (data_size (drop j (numbered rs)) \<le> m \<or> Suc j = length rs)"
  using assms
proof (induction "length rs - k" arbitrary: k sz)
  case (Suc n)
  note d = drop_numbered_Cons [OF Suc.prems(1)]
  show ?case
  proof (cases "Suc k < length rs")
    case False
    then have "drop (Suc k) (numbered rs) = []" by simp
    with False Suc.prems show ?thesis by (intro exI [of _ k]) (simp add: d)
  next
    case True
    note d' = drop_numbered_Cons [OF True]
    show ?thesis
    proof (cases "sz > m")
      case False
      with Suc.prems show ?thesis by (intro exI [of _ k]) (simp add: d d')
    next
      case big: True
      have "\<exists>j. Suc k \<le> j \<and> j < length rs \<and>
          trim m (data_size (drop (Suc k) (numbered rs)), of_nat (Suc k), drop (Suc k) (numbered rs))
            = (data_size (drop j (numbered rs)), of_nat j, drop j (numbered rs)) \<and>
          (data_size (drop j (numbered rs)) \<le> m \<or> Suc j = length rs)"
        using Suc.hyps(2) by (intro Suc.hyps(1) True refl) simp
      moreover have "trim m (sz, of_nat k, drop k (numbered rs)) =
          trim m (data_size (drop (Suc k) (numbered rs)), of_nat (Suc k), drop (Suc k) (numbered rs))"
        using big Suc.prems(2) numbered_nth [OF True] by (simp add: d d')
      ultimately show ?thesis by (auto intro: Suc_leD)
    qed
  qed
qed simp

lemma refines_new: "refines [] (newExecution i m)"
  by (simp add: refines_def newExecution_def numbered_def)

text \<open>Appending to the log is appending to the history.\<close>

lemma refines_append:
  assumes "refines rs ex" "Suc (length rs) < 2 ^ 63"
  shows "refines (rs @ [r]) (appendEvent now r ex)"
proof -
  from assms(1) obtain k where k: "k \<le> length rs" "ex_events ex = drop k (numbered rs)" "ex_minSeq ex = of_nat k"
    by (auto simp: refines_def)
  let ?rs = "rs @ [r]" and ?sq = "of_nat (length rs) :: u64"
  let ?e = "\<lparr>se_seq = ?sq, se_data = marshalResponse (r\<lparr>re_Seq := Some ?sq\<rparr>)\<rparr>"
  have ev: "ex_events ex @ [?e] = drop k (numbered ?rs)"
    using k by (simp add: numbered_snoc)
  have szeq: "ex_size ex + int (length (se_data ?e)) = data_size (drop k (numbered ?rs))"
    using assms(1) ev [symmetric] by (simp add: refines_def)
  have "k < length ?rs" using k(1) by simp
  from trim_spec [OF this szeq] obtain j where j: "j < length ?rs"
    "trim (ex_maxEventBytes ex) (ex_size ex + int (length (se_data ?e)), of_nat k, drop k (numbered ?rs))
       = (data_size (drop j (numbered ?rs)), of_nat j, drop j (numbered ?rs))"
    "data_size (drop j (numbered ?rs)) \<le> ex_maxEventBytes ex \<or> Suc j = length ?rs" by blast
  have next': "ex_nextSeq ex = ?sq" using assms(1) by (simp add: refines_def)
  have app: "appendEvent now r ex =
     (let ex2 = ex\<lparr>ex_nextSeq := ?sq + 1, ex_size := data_size (drop j (numbered ?rs)), ex_minSeq := of_nat j,
            ex_events := drop j (numbered ?rs)\<rparr>;
          ex3 = (if isTerminal r then ex2\<lparr>ex_completed := True, ex_completedAt := Some now\<rparr> else ex2)
      in ex3\<lparr>ex_notify := Suc (ex_notify ex3)\<rparr>)"
    using j(2) ev k(3) by (simp add: appendEvent_def getNextSeq_def next' Let_def)
  show ?thesis
    unfolding refines_def
  proof (intro conjI)
    show "length ?rs < 2 ^ 63" using assms(2) by simp
    show "\<exists>k. k \<le> length ?rs \<and> (?rs \<noteq> [] \<longrightarrow> k < length ?rs) \<and> ex_events (appendEvent now r ex) = drop k (numbered ?rs)
        \<and> ex_minSeq (appendEvent now r ex) = of_nat k"
      using j(1) by (intro exI [of _ j]) (auto simp: app Let_def)
    show "ex_completed (appendEvent now r ex) = list_ex isTerminal ?rs"
      using assms(1) by (auto simp: app Let_def refines_def)
    show "ex_size (appendEvent now r ex) \<le> ex_maxEventBytes (appendEvent now r ex) \<or> length (ex_events (appendEvent now r ex)) \<le> 1"
      using j(3) by (auto simp: app Let_def)
  qed (simp_all add: app Let_def add.commute)
qed

lemma refines_append_all:
  "refines rs ex \<Longrightarrow> length rs + length qs < 2 ^ 63 \<Longrightarrow> refines (rs @ qs) (append_all now qs ex)"
proof (induction qs arbitrary: rs ex)
  case (Cons q qs)
  from Cons.prems have "refines (rs @ [q]) (appendEvent now q ex)" by (intro refines_append) auto
  with Cons.IH [of "rs @ [q]"] Cons.prems show ?case by simp
qed simp

section \<open>Reading the log is reading the history\<close>

text \<open>The number of the first event asked for.\<close>

definition wanted :: "u64 option \<Rightarrow> nat" where
  "wanted after = (case after of None \<Rightarrow> 0 | Some a \<Rightarrow> Suc (unat a))"

definition in_range :: "u64 option \<Rightarrow> bool" where
  "in_range after = (case after of None \<Rightarrow> True | Some a \<Rightarrow> Suc (unat a) < 2 ^ 63)"

lemma unat_cases:
  obtains n where "unat (w :: u64) = n" "uint w = int n" "n < 2 ^ 64"
  using unsigned_less [of w, where ?'a = nat] by auto

lemma toInt_small: "unat w < 2 ^ 63 \<Longrightarrow> toInt w = int (unat w)"
  by (rule unat_cases [of w]) (simp add: toInt_def)

lemma toInt_big:
  assumes "2 ^ 63 \<le> unat w"
  shows "toInt w < 0"
proof -
  obtain n where n: "unat w = n" "uint w = int n" "n < 2 ^ 64" by (rule unat_cases)
  have "(int n + 2 ^ 63) mod 2 ^ 64 = (int n + 2 ^ 63 - 2 ^ 64) mod 2 ^ 64"
    by (rule minus_mod_self2 [symmetric])
  also have "... = int n + 2 ^ 63 - 2 ^ 64" using n(1,3) assms by (intro mod_pos_pos_trivial) auto
  finally show ?thesis using n by (simp add: toInt_def wrap64_def)
qed

lemma unat_of_nat64: "k < 2 ^ 64 \<Longrightarrow> unat (of_nat k :: u64) = k"
  by (simp add: unsigned_of_nat take_bit_nat_eq_self)

lemma word_le_unat: "(a :: u64) \<le> b \<longleftrightarrow> unat a \<le> unat b"
  by (simp add: word_le_nat_alt)

lemma not_minus_one_Suc: "a \<noteq> (- 1 :: u64) \<Longrightarrow> Suc (unat a) < 2 ^ 64"
proof -
  assume "a \<noteq> - 1"
  moreover have "unat (- 1 :: u64) = 2 ^ 64 - 1" by (simp add: unsigned_minus_1_eq_mask mask_eq_exp_minus_1)
  ultimately have "unat a \<noteq> 2 ^ 64 - 1" by (metis word_unat_eq_iff)
  moreover obtain n where "unat a = n" "n < 2 ^ 64" by (rule unat_cases)
  ultimately show ?thesis by simp
qed

lemma unat_sub_le: "(b :: u64) \<le> a \<Longrightarrow> unat (a - b) = unat a - unat b"
  by (rule unat_sub)

lemma unat_Suc:
  assumes "Suc (unat (w :: u64)) < 2 ^ 64"
  shows "unat (w + 1) = Suc (unat w)"
proof -
  have "w = of_nat (unat w)" by simp
  then have "w + 1 = of_nat (Suc (unat w))" by (metis of_nat_Suc add.commute)
  then show ?thesis using unat_of_nat64 [OF assms] by metis
qed

lemma refines_minSeq:
  assumes "refines rs ex"
  obtains k where "unat (ex_minSeq ex) = k" "k \<le> length rs" "ex_events ex = drop k (numbered rs)" "length rs < 2 ^ 63"
proof -
  from assms obtain k where k: "k \<le> length rs" "ex_events ex = drop k (numbered rs)" "ex_minSeq ex = of_nat k" "length rs < 2 ^ 63"
    by (auto simp: refines_def)
  then have "unat (ex_minSeq ex) = k" using unat_of_nat64 [of k] by simp
  with k that show thesis by blast
qed

text \<open>Whether everything asked for is still there.\<close>

lemma hasHistoryAfter_iff:
  assumes "refines rs ex"
  shows "hasHistoryAfter after ex \<longleftrightarrow> unat (ex_minSeq ex) \<le> wanted after"
proof (cases after)
  case None
  then show ?thesis by (simp add: hasHistoryAfter_def wanted_def unsigned_eq_0_iff)
next
  case (Some a)
  obtain k where k: "unat (ex_minSeq ex) = k" "k \<le> length rs" "length rs < 2 ^ 63" using assms by (rule refines_minSeq)
  show ?thesis
  proof (cases "a = - 1")
    case True
    have "unat (- 1 :: u64) = 2 ^ 64 - 1" by (simp add: unsigned_minus_1_eq_mask mask_eq_exp_minus_1)
    with True Some k show ?thesis by (simp add: hasHistoryAfter_def wanted_def)
  next
    case False
    then have "Suc (unat a) < 2 ^ 64" by (rule not_minus_one_Suc)
    with Some False show ?thesis by (simp add: hasHistoryAfter_def wanted_def word_le_unat unat_Suc)
  qed
qed

lemma eventsAfter_eq:
  assumes "refines rs ex" "in_range after" "unat (ex_minSeq ex) \<le> wanted after"
  shows "eventsAfter after ex = Some (map se_data (drop (wanted after) (numbered rs)))"
proof -
  obtain k where k: "unat (ex_minSeq ex) = k" "k \<le> length rs" "ex_events ex = drop k (numbered rs)" "length rs < 2 ^ 63"
    using assms(1) by (rule refines_minSeq)
  define start where "start = (case after of None \<Rightarrow> 0 | Some a \<Rightarrow> if ex_minSeq ex \<le> a then toInt (a - ex_minSeq ex + 1) else 0)"
  have not_max: "after \<noteq> Some (- 1)"
    using assms(2) by (auto simp: in_range_def unsigned_minus_1_eq_mask mask_eq_exp_minus_1)
  have start: "start = int (wanted after - k)"
  proof (cases after)
    case None
    with assms(3) k(1) show ?thesis by (simp add: start_def wanted_def)
  next
    case (Some a)
    then have a: "Suc (unat a) < 2 ^ 63" using assms(2) by (simp add: in_range_def)
    show ?thesis
    proof (cases "ex_minSeq ex \<le> a")
      case True
      have d: "unat (a - ex_minSeq ex) = unat a - k" using unat_sub_le [OF True] k(1) by simp
      with a have s: "unat (a - ex_minSeq ex + 1) = Suc (unat a - k)" using unat_Suc [of "a - ex_minSeq ex"] by simp
      moreover have "k \<le> unat a" using True k(1) by (simp add: word_le_unat)
      ultimately show ?thesis
        using Some True a toInt_small [of "a - ex_minSeq ex + 1"] by (simp add: start_def wanted_def Suc_diff_le)
    next
      case False
      with Some assms(3) k(1) have "wanted after = k" by (simp add: wanted_def word_le_unat)
      with Some False show ?thesis by (simp add: start_def)
    qed
  qed
  have "eventsAfter after ex = (if int (length (ex_events ex)) \<le> start then Some [] else if start < 0 then None
      else Some (map se_data (drop (nat start) (ex_events ex))))"
    using not_max by (simp add: eventsAfter_def start_def Let_def)
  also have "... = Some (map se_data (drop (wanted after - k) (ex_events ex)))"
    unfolding start by auto
  also have "drop (wanted after - k) (ex_events ex) = drop (wanted after) (numbered rs)"
    using k(1,3) assms(3) by simp
  finally show ?thesis .
qed

lemma Snapshot_eq:
  assumes "refines rs ex" "in_range after"
  shows "Snapshot after ex =
    (if unat (ex_minSeq ex) \<le> wanted after then Done (map se_data (drop (wanted after) (numbered rs))) else Refused)"
  using hasHistoryAfter_iff [OF assms(1)] eventsAfter_eq [OF assms] by (simp add: Snapshot_def)

text \<open>
  Claim C25. The log is a faithful window on the whole history of an execution: after any events
  whatsoever, a snapshot either returns exactly the events numbered above \<open>after\<close>, all of them
  and in order, or is refused, and it is refused only if one of them has been trimmed. What is
  retained fits the configured size, unless it is a single event.
\<close>

theorem snapshot_refines_history:
  assumes "length rs < 2 ^ 63" and "in_range after" and "ex = append_all now rs (newExecution i maxBytes)"
  shows "Snapshot after ex =
      (if unat (ex_minSeq ex) \<le> wanted after then Done (map se_data (drop (wanted after) (numbered rs))) else Refused) \<and>
    ex_events ex = drop (unat (ex_minSeq ex)) (numbered rs) \<and>
    (data_size (ex_events ex) \<le> ex_maxEventBytes ex \<or> length (ex_events ex) \<le> 1)"
proof -
  have r: "refines rs ex" using refines_append_all [OF refines_new, of rs now] assms by simp
  then have "ex_events ex = drop (unat (ex_minSeq ex)) (numbered rs)" by (metis refines_minSeq)
  moreover have "data_size (ex_events ex) \<le> ex_maxEventBytes ex \<or> length (ex_events ex) \<le> 1"
    using r by (auto simp: refines_def)
  ultimately show ?thesis using Snapshot_eq [OF r assms(2)] by simp
qed

text \<open>Three events in a log that has room for about one: only the last is left.\<close>

definition example_events :: "Response list" where
  "example_events = [newStartedResponse ''e'', zeroResponse\<lparr>re_Type := ResponseTypeStdout, re_Data := ''x''\<rparr>,
     zeroResponse\<lparr>re_Type := ResponseTypeExit\<rparr>]"

definition example_log :: "int \<Rightarrow> nat \<Rightarrow> Execution" where
  "example_log maxBytes n = append_all 5 (take n example_events) (newExecution ''e'' maxBytes)"

theorem snapshot_refines_history_witness:
  "Snapshot (Some 1) (example_log 60 3) = Done (map se_data (drop 2 (numbered example_events))) \<and>
   Snapshot (Some 0) (example_log 60 3) = Refused"
proof -
  have min: "unat (ex_minSeq (example_log 60 3)) = 2" by code_simp
  have ex: "example_log 60 3 = append_all 5 example_events (newExecution ''e'' 60)"
    by (simp add: example_log_def example_events_def)
  have len: "length example_events < 2 ^ 63" by (simp add: example_events_def)
  have after: "in_range (Some 1)" "in_range (Some 0)" "wanted (Some 1) = 2" "wanted (Some 0) = 1"
    by (simp_all add: in_range_def wanted_def)
  show ?thesis
    using snapshot_refines_history [OF len after(1) ex] snapshot_refines_history [OF len after(2) ex] min after(3,4)
    by simp
qed

section \<open>Following\<close>

lemma numbered_take: "numbered (take n rs) = take n (numbered rs)"
  by (rule nth_equalityI) (auto simp: numbered_def nth_enumerate_eq)

lemma drop_take_join:
  assumes "n \<le> m"
  shows "drop w (take n xs) @ drop (max w n) (take m xs) = drop w (take m xs)"
proof (cases "w \<le> n")
  case True
  have "drop w (take m xs) = drop w (take n xs @ drop n (take m xs))"
    using assms by (metis append_take_drop_id min.absorb1 take_take)
  then show ?thesis using True by (cases "n \<le> length xs") (auto simp: max_def)
qed (simp add: max_def)

text \<open>The log after the first \<open>n\<close> of the events \<open>rs\<close>.\<close>

definition log_at :: "int \<Rightarrow> string \<Rightarrow> int \<Rightarrow> Response list \<Rightarrow> nat \<Rightarrow> Execution" where
  "log_at now i maxBytes rs n = append_all now (take n rs) (newExecution i maxBytes)"

lemma log_at_refines: "length rs < 2 ^ 63 \<Longrightarrow> refines (take n rs) (log_at now i maxBytes rs n)"
  using refines_append_all [OF refines_new, of "take n rs" now] by (simp add: log_at_def)

lemma follow_turn_eq:
  assumes "length rs < 2 ^ 63" "in_range after" and ex_def: "ex = log_at now i maxBytes rs n"
  shows "follow_turn after ex = Refused \<and> wanted after < unat (ex_minSeq ex) \<or>
    (\<exists>after'. follow_turn after ex = Done (map se_data (drop (wanted after) (take n (numbered rs))), after', list_ex isTerminal (take n rs)) \<and>
       in_range after' \<and> wanted after' = max (wanted after) (min n (length rs)))"
proof (cases "unat (ex_minSeq ex) \<le> wanted after")
  case False
  with hasHistoryAfter_iff [OF log_at_refines [OF assms(1)]] show ?thesis
    by (simp add: follow_turn_def ex_def)
next
  case True
  note r = log_at_refines [OF assms(1), of n now i maxBytes, folded ex_def]
  let ?es = "numbered (take n rs)"
  have ev: "eventsAfter after ex = Some (map se_data (drop (wanted after) ?es))"
    by (rule eventsAfter_eq [OF r assms(2) True])
  have comp: "ex_completed ex = list_ex isTerminal (take n rs)" using r by (simp add: refines_def)
  obtain k where k: "unat (ex_minSeq ex) = k" "k \<le> length (take n rs)" "ex_events ex = drop k ?es" using r by (rule refines_minSeq)
  define after' where "after' = (if drop (wanted after) ?es \<noteq> [] then Some (se_seq (last (ex_events ex))) else after)"
  have "in_range after' \<and> wanted after' = max (wanted after) (min n (length rs))"
  proof (cases "wanted after < min n (length rs)")
    case True
    then obtain m where m: "min n (length rs) = Suc m" by (cases "min n (length rs)") auto
    have "last (ex_events ex) = ?es ! m"
      using k \<open>unat (ex_minSeq ex) \<le> wanted after\<close> True m by (simp add: last_drop last_conv_nth min.commute)
    then have "se_seq (last (ex_events ex)) = of_nat m" using numbered_nth [of m "take n rs"] m by (simp add: min.commute)
    moreover have "m < 2 ^ 63 - 1" using m assms(1) by (simp add: min_def split: if_splits)
    ultimately have "unat (se_seq (last (ex_events ex))) = m" "Suc m < 2 ^ 63" using unat_of_nat64 [of m] by auto
    then show ?thesis using True m by (simp add: after'_def in_range_def wanted_def min.commute)
  next
    case False
    then have "min n (length rs) \<le> wanted after" by (simp only: not_less)
    moreover from this have "length ?es \<le> wanted after" by (simp only: length_numbered length_take min.commute)
    ultimately show ?thesis using assms(2) by (simp add: after'_def max_absorb1)
  qed
  moreover have "follow_turn after ex = Done (map se_data (drop (wanted after) ?es), after', list_ex isTerminal (take n rs))"
    using hasHistoryAfter_iff [OF r] True by (simp add: follow_turn_def ev comp after'_def)
  ultimately show ?thesis by (auto simp: numbered_take)
qed

text \<open>Where a follower that is never refused stops: at the first complete log it sees, else at the last.\<close>

definition follow_end :: "Response list \<Rightarrow> nat list \<Rightarrow> nat" where
  "follow_end rs ns = (case List.find (\<lambda>n. list_ex isTerminal (take n rs)) ns of Some n \<Rightarrow> n | None \<Rightarrow> last ns)"

lemma follow_end_Cons:
  "follow_end rs (n # ns) =
     (if list_ex isTerminal (take n rs) then n else if ns = [] then n else follow_end rs ns)"
  by (simp add: follow_end_def split: option.split)

lemma follow_end_ge: "sorted (b # ns) \<Longrightarrow> ns \<noteq> [] \<Longrightarrow> b \<le> follow_end rs ns"
proof (induction ns)
  case (Cons n ns)
  then show ?case by (cases "ns = []") (auto simp: follow_end_Cons)
qed simp

lemma Follow_run:
  assumes "length rs < 2 ^ 63"
  shows "in_range after \<Longrightarrow> sorted (b # ns) \<Longrightarrow> min b (length rs) \<le> wanted after \<Longrightarrow>
    Follow after (map (log_at now i maxBytes rs) ns) = (res, out) \<Longrightarrow>
    res \<noteq> Panic \<and> (\<exists>m \<ge> b. out = map se_data (drop (wanted after) (take m (numbered rs)))) \<and>
    (res = Done () \<and> ns \<noteq> [] \<longrightarrow> out = map se_data (drop (wanted after) (take (follow_end rs ns) (numbered rs)))) \<and>
    (res = Refused \<longrightarrow> (\<exists>n \<in> set ns. wanted after + length out < unat (ex_minSeq (log_at now i maxBytes rs n))))"
proof (induction ns arbitrary: after b res out)
  case Nil
  then show ?case by (auto intro!: exI [of _ b] simp: numbered_def min_def split: if_splits)
next
  case (Cons n ns)
  let ?w = "wanted after"
  from follow_turn_eq [OF assms Cons.prems(1) refl, of now i maxBytes n] consider
    (refused) "follow_turn after (log_at now i maxBytes rs n) = Refused" "?w < unat (ex_minSeq (log_at now i maxBytes rs n))"
  | (turn) after' where "follow_turn after (log_at now i maxBytes rs n) =
        Done (map se_data (drop ?w (take n (numbered rs))), after', list_ex isTerminal (take n rs))"
      "in_range after'" "wanted after' = max ?w (min n (length rs))" by blast
  then show ?case
  proof cases
    case refused
    with Cons.prems show ?thesis by (auto intro!: exI [of _ b] simp: numbered_def min_def split: if_splits)
  next
    case turn
    show ?thesis
    proof (cases "list_ex isTerminal (take n rs)")
      case True
      with turn(1) Cons.prems show ?thesis by (auto simp: follow_end_Cons intro!: exI [of _ n])
    next
      case False
      obtain res' out' where rec: "Follow after' (map (log_at now i maxBytes rs) ns) = (res', out')" by fastforce
      with turn(1) False Cons.prems have ro: "res = res'" "out = map se_data (drop ?w (take n (numbered rs))) @ out'"
        by auto
      have IH: "res' \<noteq> Panic" "\<exists>m \<ge> n. out' = map se_data (drop (wanted after') (take m (numbered rs)))"
        "res' = Done () \<and> ns \<noteq> [] \<longrightarrow> out' = map se_data (drop (wanted after') (take (follow_end rs ns) (numbered rs)))"
        "res' = Refused \<longrightarrow> (\<exists>n \<in> set ns. wanted after' + length out' < unat (ex_minSeq (log_at now i maxBytes rs n)))"
        using Cons.IH [OF turn(2) _ _ rec, of n] Cons.prems(2) turn(3) by auto
      have same: "drop (wanted after') (take m (numbered rs)) = drop (max ?w n) (take m (numbered rs))" for m
        using turn(3) by (cases "n \<le> length rs") (auto simp: min_def max_def)
      have join: "map se_data (drop ?w (take n (numbered rs))) @ map se_data (drop (wanted after') (take m (numbered rs)))
          = map se_data (drop ?w (take m (numbered rs)))" if "n \<le> m" for m
        unfolding same using drop_take_join [OF that, of ?w "numbered rs"] by (metis map_append)
      from IH(2) obtain m where m: "n \<le> m" "out' = map se_data (drop (wanted after') (take m (numbered rs)))" by blast
      have "out = map se_data (drop ?w (take m (numbered rs)))" using ro(2) m join by simp
      moreover have "b \<le> m" using m(1) Cons.prems(2) by auto
      moreover have "out = map se_data (drop ?w (take (follow_end rs (n # ns)) (numbered rs)))" if "res = Done ()"
      proof (cases "ns = []")
        case True
        with rec have "out' = []" by simp
        with ro(2) True show ?thesis by (simp add: follow_end_Cons)
      next
        case ne: False
        have "n \<le> follow_end rs ns" using Cons.prems(2) ne by (intro follow_end_ge) auto
        with ro IH(3) that ne join False show ?thesis by (simp add: follow_end_Cons)
      qed
      moreover have "?w + length out = wanted after' + length out'"
        unfolding ro(2) turn(3) by (auto simp: min_def max_def)
      ultimately show ?thesis using IH(1,4) ro(1) by auto
    qed
  qed
qed

text \<open>
  Claim C8. A follower gets every event exactly once and in order: whatever states of the log it
  happens to see, what it delivers are consecutive events starting right after \<open>after\<close>, without
  gap or repetition. It is refused only when the very next event it needs has been trimmed from a
  log it saw; otherwise it has delivered everything up to the first complete log it saw, whose
  last event is the end of the execution, or up to the last log it saw if none was complete.
  (For an \<open>after\<close> below 2^63 - 1; what larger ones do is shown further down.)
\<close>

theorem follow_exactly_once:
  assumes "length rs < 2 ^ 63" and "in_range after" and "sorted ns"
    and "Follow after (map (log_at now i maxBytes rs) ns) = (res, out)"
  shows "res \<noteq> Panic \<and> (\<exists>m. out = map se_data (drop (wanted after) (take m (numbered rs)))) \<and>
    (res = Done () \<and> ns \<noteq> [] \<longrightarrow> out = map se_data (drop (wanted after) (take (follow_end rs ns) (numbered rs)))) \<and>
    (res = Refused \<longrightarrow> (\<exists>n \<in> set ns. wanted after + length out < unat (ex_minSeq (log_at now i maxBytes rs n))))"
  using Follow_run [OF assms(1,2) _ _ assms(4), of 0] assms(3) by auto

text \<open>A follower that sees the log grow to its end, and one that comes back to a log that has trimmed what it needs.\<close>

theorem follow_exactly_once_witness:
  "Follow None (map (log_at 5 ''e'' 1000 example_events) [1, 2, 3]) = (Done (), map se_data (numbered example_events)) \<and>
   fst (Follow (Some 0) (map (log_at 5 ''e'' 60 example_events) [3])) = Refused \<and>
   1 < unat (ex_minSeq (log_at 5 ''e'' 60 example_events 3))"
proof -
  obtain res out where f: "Follow None (map (log_at 5 ''e'' 1000 example_events) [1, 2, 3]) = (res, out)" by fastforce
  have "fst (Follow None (map (log_at 5 ''e'' 1000 example_events) [1, 2, 3])) = Done ()" by code_simp
  with f have "res = Done ()" by simp
  moreover have "follow_end example_events [1, 2, 3] = 3" by code_simp
  moreover have "take 3 (numbered example_events) = numbered example_events" by (simp add: example_events_def)
  ultimately have done1: "Follow None (map (log_at 5 ''e'' 1000 example_events) [1, 2, 3]) = (Done (), map se_data (numbered example_events))"
    using follow_exactly_once [OF _ _ _ f] f by (simp add: example_events_def in_range_def wanted_def)
  obtain res2 out2 where g: "Follow (Some 0) (map (log_at 5 ''e'' 60 example_events) [3]) = (res2, out2)" by fastforce
  have "fst (Follow (Some 0) (map (log_at 5 ''e'' 60 example_events) [3])) = Refused" by code_simp
  with g have r: "res2 = Refused" by simp
  then have "wanted (Some 0) + length out2 < unat (ex_minSeq (log_at 5 ''e'' 60 example_events 3))"
    using follow_exactly_once [OF _ _ _ g] by (simp add: example_events_def in_range_def)
  then show ?thesis using done1 g r by (simp add: wanted_def)
qed

section \<open>An index that overflows\<close>

text \<open>
  Claim C37. Asking for events after a number that is far above any the log holds, but not the
  largest one, passes the history check and then slices from a negative index: the difference
  is a uint64 and wraps when it is converted to int. Both \<open>Snapshot\<close> and \<open>Follow\<close> panic, and \<open>Follow\<close>
  does so with the lock of the execution held.
\<close>

theorem far_after_panics:
  assumes "refines rs ex" and "unat (ex_minSeq ex) + 2 ^ 63 \<le> Suc (unat a)" and "a \<noteq> - 1"
  shows "HasHistory (Some a) ex \<and> Snapshot (Some a) ex = Panic \<and> Follow (Some a) (ex # exs) = (Panic, [])"
proof -
  have le: "ex_minSeq ex \<le> a" using assms(2) by (simp add: word_le_unat)
  have Suc: "Suc (unat a) < 2 ^ 64" by (rule not_minus_one_Suc [OF assms(3)])
  have "unat (a - ex_minSeq ex + 1) = Suc (unat a - unat (ex_minSeq ex))"
    using unat_Suc [of "a - ex_minSeq ex"] unat_sub_le [OF le] Suc by simp
  then have "2 ^ 63 \<le> unat (a - ex_minSeq ex + 1)" using assms(2) by simp
  then have neg: "toInt (a - ex_minSeq ex + 1) < 0" by (rule toInt_big)
  then have "eventsAfter (Some a) ex = None"
    using le assms(3) by (auto simp: eventsAfter_def Let_def)
  moreover have "hasHistoryAfter (Some a) ex"
    using hasHistoryAfter_iff [OF assms(1)] assms(2) by (simp add: wanted_def)
  ultimately show ?thesis by (simp add: HasHistory_def Snapshot_def follow_turn_def)
qed

theorem far_after_panics_witness:
  "Snapshot (Some 9223372036854775807) (example_log 1000 1) = Panic"
proof -
  have r: "refines (take 1 example_events) (example_log 1000 1)"
    using log_at_refines [of example_events 1 5 "''e''" 1000] by (simp add: example_log_def log_at_def example_events_def)
  have "unat (ex_minSeq (example_log 1000 1)) = 0" by code_simp
  with far_after_panics [OF r, of 9223372036854775807] show ?thesis by simp
qed

section \<open>The manager\<close>

lemma GetOrCreate_lookup:
  assumes "GetOrCreate now fresh execID em = (i, started, em')"
  shows "em_executions em' i \<noteq> None \<and> (execID \<noteq> [] \<longrightarrow> i = execID) \<and>
    (started \<longleftrightarrow> execID = [] \<or> em_executions em execID = None) \<and> (\<not> started \<longrightarrow> em' = em) \<and>
    (\<forall>j. j \<noteq> i \<longrightarrow> em_executions em' j = em_executions em j)"
  using assms by (auto simp: GetOrCreate_def Let_def split: if_splits)

text \<open>Repeating a start under the same id starts nothing and finds the same execution.\<close>

lemma GetOrCreate_again:
  assumes "GetOrCreate now fresh execID em = (i, started, em')" "execID \<noteq> []"
  shows "GetOrCreate now2 fresh2 execID em' = (i, False, em')"
  using GetOrCreate_lookup [OF assms(1)] assms(2) by (auto simp: GetOrCreate_def)

lemma gc_keeps_running:
  "em_executions em i = Some ex \<Longrightarrow> ex_completedAt ex = None \<Longrightarrow> em_executions (gc now em) i = Some ex"
  by (simp add: gc_def expired_def)

text \<open>The goroutine ends every log with exactly one terminal event, so followers end.\<close>

lemma run_events_complete:
  assumes "HandleExec run command env workdir = r"
  shows "\<exists>qs. run_events r = qs @ [last (run_events r)] \<and> isTerminal (last (run_events r)) \<and> (\<forall>q \<in> set qs. \<not> isTerminal q)"
proof -
  obtain err rs where r: "r = (err, rs)" by fastforce
  with HandleExec_events [of run command env workdir err rs] assms show ?thesis
    by (cases err) (auto simp: run_events_def newErrorResponse_def isTerminal_def)
qed

end
