(* ===== verification/Mux.thy ===== *)
theory Mux
  imports Prelude
begin

text \<open>
  What the services use of Go's \<open>path\<close> and \<open>net/http\<close>: cleaning rooted paths, header maps, and the
  dispatch of \<open>http.ServeMux\<close> on patterns such as \<open>GET /sandboxes/{id}/files\<close>. The multiplexer works
  on the escaped path; \<open>segValue\<close> is the decoding of one of its segments by which \<open>PathValue\<close> is read.
\<close>

section \<open>Paths\<close>

text \<open>\<open>strings.Split\<close> at the slash, and \<open>strings.Join\<close> with it.\<close>

fun splitSlash :: "string \<Rightarrow> string list" where
  "splitSlash [] = [[]]"
| "splitSlash (c # s) =
     (if c = CHR ''/'' then [] # splitSlash s
      else case splitSlash s of [] \<Rightarrow> [[c]] | seg # segs \<Rightarrow> (c # seg) # segs)"

fun joinSlash :: "string list \<Rightarrow> string" where
  "joinSlash [] = []"
| "joinSlash [seg] = seg"
| "joinSlash (seg # segs) = seg @ CHR ''/'' # joinSlash segs"

definition no_slash :: "string \<Rightarrow> bool" where
  "no_slash s \<longleftrightarrow> CHR ''/'' \<notin> set s"

text \<open>\<open>path.Clean\<close> on a rooted path, segment by segment; the segments read so far are reversed.\<close>

fun clean_segs :: "string list \<Rightarrow> string list \<Rightarrow> string list" where
  "clean_segs acc [] = rev acc"
| "clean_segs acc (seg # segs) =
     (if seg = [] \<or> seg = ''.'' then clean_segs acc segs
      else if seg = ''..'' then clean_segs (tl acc) segs
      else clean_segs (seg # acc) segs)"

definition cleanRooted :: "string \<Rightarrow> string" where
  "cleanRooted p = CHR ''/'' # joinSlash (clean_segs [] (splitSlash p))"

text \<open>\<open>cleanPath\<close> of \<open>net/http\<close>: the cleaned path keeps a trailing slash.\<close>

definition cleanPath :: "string \<Rightarrow> string" where
  "cleanPath p =
     (if p = [] then ''/''
      else let np = cleanRooted p in
        if last p = CHR ''/'' \<and> np \<noteq> ''/'' then np @ ''/'' else np)"

lemma splitSlash_ne [simp]: "splitSlash s \<noteq> []"
  by (cases s) (auto split: list.splits)

lemma splitSlash_segs: "seg \<in> set (splitSlash s) \<Longrightarrow> no_slash seg"
proof (induction s arbitrary: seg)
  case Nil
  then show ?case by (simp add: no_slash_def)
next
  case (Cons c s)
  then show ?case
    by (cases "splitSlash s") (auto simp: no_slash_def split: if_splits)
qed

lemma join_split [simp]: "joinSlash (splitSlash s) = s"
proof (induction s)
  case (Cons c s)
  obtain seg segs where e: "splitSlash s = seg # segs" by (cases "splitSlash s") auto
  show ?case
    using Cons e by (cases segs) auto
qed simp

lemma split_no_slash: "no_slash s \<Longrightarrow> splitSlash s = [s]"
  by (induction s) (auto simp: no_slash_def)

lemma split_append: "no_slash s \<Longrightarrow> splitSlash (s @ CHR ''/'' # t) = s # splitSlash t"
  by (induction s) (auto simp: no_slash_def)

lemma split_join: "segs \<noteq> [] \<Longrightarrow> list_all no_slash segs \<Longrightarrow> splitSlash (joinSlash segs) = segs"
  by (induction segs rule: joinSlash.induct) (auto simp: split_no_slash split_append)

definition plain_seg :: "string \<Rightarrow> bool" where
  "plain_seg s \<longleftrightarrow> no_slash s \<and> s \<noteq> [] \<and> s \<noteq> ''.'' \<and> s \<noteq> ''..''"

lemma clean_segs_plain:
  "list_all plain_seg acc \<Longrightarrow> list_all no_slash segs \<Longrightarrow> list_all plain_seg (clean_segs acc segs)"
proof (induction segs arbitrary: acc)
  case Nil
  then show ?case by (simp add: list_all_rev)
next
  case (Cons seg segs)
  have "list_all plain_seg (tl acc)" using Cons.prems(1) by (cases acc) auto
  with Cons show ?case by (auto simp: plain_seg_def [of seg])
qed

lemma clean_segs_id: "list_all plain_seg segs \<Longrightarrow> clean_segs acc segs = rev acc @ segs"
  by (induction segs arbitrary: acc) (auto simp: plain_seg_def)

definition clean_path_segs :: "string \<Rightarrow> string list" where
  "clean_path_segs p = clean_segs [] (splitSlash p)"

lemma clean_path_segs_plain: "list_all plain_seg (clean_path_segs p)"
  unfolding clean_path_segs_def
  by (rule clean_segs_plain) (auto simp: list_all_iff splitSlash_segs)

lemma split_cleanRooted:
  "splitSlash (cleanRooted p) = [] # (if clean_path_segs p = [] then [[]] else clean_path_segs p)"
proof -
  have "list_all no_slash (clean_path_segs p)"
    using clean_path_segs_plain [of p] by (auto simp: list_all_iff plain_seg_def)
  then show ?thesis
    by (auto simp: cleanRooted_def clean_path_segs_def [symmetric] split_join)
qed

lemma clean_path_segs_cleanRooted [simp]: "clean_path_segs (cleanRooted p) = clean_path_segs p"
proof -
  have "clean_segs [] (clean_path_segs p) = clean_path_segs p"
    using clean_segs_id [OF clean_path_segs_plain, of "[]" p] by simp
  then show ?thesis
    by (simp add: clean_path_segs_def [of "cleanRooted p"] split_cleanRooted)
qed

lemma cleanRooted_eq: "cleanRooted p = CHR ''/'' # joinSlash (clean_path_segs p)"
  by (simp add: cleanRooted_def clean_path_segs_def)

lemma cleanRooted_idem [simp]: "cleanRooted (cleanRooted p) = cleanRooted p"
  unfolding cleanRooted_eq [of "cleanRooted p"] clean_path_segs_cleanRooted by (rule cleanRooted_eq [symmetric])

lemma cleanRooted_rooted_path [simp]: "clean_path_segs (CHR ''/'' # p) = clean_path_segs p"
  by (simp add: clean_path_segs_def)

section \<open>Headers\<close>

text \<open>\<open>http.Header\<close>, keyed by canonical names; a missing key has no values.\<close>

type_synonym header = "string \<Rightarrow> string list"

definition noHeader :: header where "noHeader = (\<lambda>_. [])"

definition hdrGet :: "header \<Rightarrow> string \<Rightarrow> string" where
  "hdrGet h k = (case h k of [] \<Rightarrow> [] | v # _ \<Rightarrow> v)"

definition hdrSet :: "header \<Rightarrow> string \<Rightarrow> string \<Rightarrow> header" where
  "hdrSet h k v = h(k := [v])"

definition hdrDel :: "header \<Rightarrow> string \<Rightarrow> header" where
  "hdrDel h k = h(k := [])"

lemma hdrGet_simps [simp]:
  "hdrGet noHeader k = []"
  "hdrGet (hdrSet h k v) k' = (if k' = k then v else hdrGet h k')"
  "hdrGet (hdrDel h k) k' = (if k' = k then [] else hdrGet h k')"
  by (simp_all add: hdrGet_def hdrSet_def hdrDel_def noHeader_def)

section \<open>The request multiplexer\<close>

datatype seg = Lit string | Wild string

record 'h route =
  ro_method :: string
  ro_pattern :: "seg list"
  ro_handler :: 'h

text \<open>A wildcard takes one non-empty segment; the result is what \<open>PathValue\<close> reads.\<close>

fun match_segs :: "seg list \<Rightarrow> string list \<Rightarrow> (string \<times> string) list option" where
  "match_segs [] [] = Some []"
| "match_segs (Lit l # ps) (s # ss) = (if l = s then match_segs ps ss else None)"
| "match_segs (Wild n # ps) (s # ss) =
     (if s = [] then None else map_option ((#) (n, s)) (match_segs ps ss))"
| "match_segs _ _ = None"

definition method_matches :: "string \<Rightarrow> string \<Rightarrow> bool" where
  "method_matches pat m \<longleftrightarrow> pat = m \<or> pat = ''GET'' \<and> m = ''HEAD''"

datatype 'h mux_result =
    MuxFound 'h "(string \<times> string) list"
  | MuxRedirect string
  | MuxMethodNotAllowed
  | MuxNotFound

fun find_route :: "'h route list \<Rightarrow> string \<Rightarrow> string list \<Rightarrow> ('h \<times> (string \<times> string) list) option" where
  "find_route [] m segs = None"
| "find_route (ro # ros) m segs =
     (case if method_matches (ro_method ro) m then match_segs (ro_pattern ro) segs else None of
        Some vals \<Rightarrow> Some (ro_handler ro, vals)
      | None \<Rightarrow> find_route ros m segs)"

text \<open>
  \<open>ServeMux\<close>'s search: none of the patterns here overlap, so the first one that matches is the one
  the precedence rules choose. A path that is not clean is redirected, except for CONNECT.
\<close>

definition mux_dispatch :: "'h route list \<Rightarrow> string \<Rightarrow> string \<Rightarrow> 'h mux_result" where
  "mux_dispatch routes m p =
     (if m \<noteq> ''CONNECT'' \<and> cleanPath p \<noteq> p then MuxRedirect (cleanPath p)
      else let segs = tl (splitSlash p) in
        case find_route routes m segs of
          Some (h, vals) \<Rightarrow> MuxFound h vals
        | None \<Rightarrow>
            if list_ex (\<lambda>ro. match_segs (ro_pattern ro) segs \<noteq> None) routes then MuxMethodNotAllowed
            else MuxNotFound)"

definition pathValue :: "string \<Rightarrow> (string \<times> string) list \<Rightarrow> string" where
  "pathValue n vals = (case map_of vals n of None \<Rightarrow> [] | Some v \<Rightarrow> v)"

text \<open>\<open>url.PathUnescape\<close>, and what the multiplexer makes of a segment: one that is badly escaped is left as it is.\<close>

definition unhex :: "char \<Rightarrow> nat option" where
  "unhex c =
     (let n = of_char c :: nat in
      if 48 \<le> n \<and> n \<le> 57 then Some (n - 48)
      else if 65 \<le> n \<and> n \<le> 70 then Some (n - 55)
      else if 97 \<le> n \<and> n \<le> 102 then Some (n - 87) else None)"

fun pathUnescape :: "string \<Rightarrow> string option" where
  "pathUnescape [] = Some []"
| "pathUnescape (c # s) =
     (if c \<noteq> CHR ''%'' then map_option ((#) c) (pathUnescape s)
      else case s of
        a # b # t \<Rightarrow>
          (case (unhex a, unhex b) of
             (Some x, Some y) \<Rightarrow> map_option ((#) (char_of (16 * x + y))) (pathUnescape t)
           | _ \<Rightarrow> None)
      | _ \<Rightarrow> None)"

definition segValue :: "string \<Rightarrow> string" where
  "segValue seg = (case pathUnescape seg of None \<Rightarrow> seg | Some v \<Rightarrow> v)"

lemma segValue_plain: "CHR ''%'' \<notin> set seg \<Longrightarrow> segValue seg = seg"
proof -
  assume "CHR ''%'' \<notin> set seg"
  then have "pathUnescape seg = Some seg" by (induction seg) auto
  then show ?thesis by (simp add: segValue_def)
qed

lemma find_route_SomeD:
  "find_route ros m segs = Some (h, vals) \<Longrightarrow>
   \<exists>ro \<in> set ros. ro_handler ro = h \<and> method_matches (ro_method ro) m \<and> match_segs (ro_pattern ro) segs = Some vals"
  by (induction ros) (auto split: option.splits if_splits)

lemma find_route_None_iff:
  "find_route ros m segs = None \<longleftrightarrow>
   (\<forall>ro \<in> set ros. method_matches (ro_method ro) m \<longrightarrow> match_segs (ro_pattern ro) segs = None)"
  by (induction ros) (auto split: option.splits)

lemma mux_found:
  "mux_dispatch routes m p = MuxFound h vals \<Longrightarrow>
   find_route routes m (tl (splitSlash p)) = Some (h, vals) \<and> (m = ''CONNECT'' \<or> cleanPath p = p)"
  by (auto simp: mux_dispatch_def Let_def split: if_splits option.splits)

lemma clean_joined:
  assumes "list_all plain_seg segs" and "segs \<noteq> []"
  shows "cleanPath (CHR ''/'' # joinSlash segs) = CHR ''/'' # joinSlash segs"
    and "tl (splitSlash (CHR ''/'' # joinSlash segs)) = segs"
proof -
  have ns: "list_all no_slash segs" using assms by (auto simp: list_all_iff plain_seg_def)
  have segs: "clean_path_segs (joinSlash segs) = segs"
    using clean_segs_id [OF assms(1), of "[]"] split_join [OF assms(2) ns] by (simp add: clean_path_segs_def)
  have ne: "joinSlash segs \<noteq> []"
    using assms by (cases segs rule: joinSlash.cases) (auto simp: plain_seg_def)
  have "last (joinSlash segs) \<noteq> CHR ''/''"
    using assms
  proof (induction segs rule: joinSlash.induct)
    case (2 seg)
    then show ?case using last_in_set [of seg] by (fastforce simp: plain_seg_def no_slash_def)
  next
    case (3 seg s segs)
    have "joinSlash (s # segs) \<noteq> []"
      using 3(2) by (cases segs) (auto simp: plain_seg_def)
    with 3 show ?case by simp
  qed simp
  with ne show "cleanPath (CHR ''/'' # joinSlash segs) = CHR ''/'' # joinSlash segs"
    by (simp add: cleanPath_def Let_def cleanRooted_eq segs)
  show "tl (splitSlash (CHR ''/'' # joinSlash segs)) = segs"
    using split_join [OF assms(2) ns] by simp
qed

end
