(* ===== verification/Runner_Proxy.thy ===== *)
theory Runner_Proxy
  imports Sandbox_Handlers Mux
begin

text \<open>
  The runner's HTTP side (\<open>internal/runner\<close>): its responses and the signal headers of
  \<open>internal/sandboxproxy\<close>, the contract of a runtime (\<open>internal/runner/runtime\<close>), finding and waking
  the sandbox of a request, the proxy to the daemon in the guest, authentication and the per-sandbox
  request limit. A runtime and the daemon behind it act on a state \<open>'w\<close>, which is all the runner
  shares with them.
\<close>

section \<open>Responses and signals\<close>

record ContainerResponse =
  ct_ID :: string
  ct_Status :: string
  ct_CreatedAt :: int
  ct_LastActiveAt :: int
  ct_IP :: string

datatype runner_body =
    RunnerNoBody
  | RunnerError string
  | RunnerReason string string
  | RunnerStatus string
  | RunnerSandbox ContainerResponse
  | RunnerRelayed string

record runner_response =
  nr_code :: nat
  nr_header :: header
  nr_body :: runner_body

definition runner_writeJSON :: "header \<Rightarrow> nat \<Rightarrow> runner_body \<Rightarrow> runner_response" where
  "runner_writeJSON h code b = \<lparr>nr_code = code, nr_header = hdrSet h ''Content-Type'' ''application/json'', nr_body = b\<rparr>"

definition runner_writeError :: "header \<Rightarrow> nat \<Rightarrow> string \<Rightarrow> runner_response" where
  "runner_writeError h code msg = runner_writeJSON h code (RunnerError msg)"

definition SandboxGoneHeader :: string where "SandboxGoneHeader = ''X-Sandbox-Gone''"

definition MarkSandboxGone :: "header \<Rightarrow> header" where
  "MarkSandboxGone h = hdrSet h SandboxGoneHeader ''1''"

definition SandboxRestartedHeader :: string where "SandboxRestartedHeader = ''X-Sandbox-Restarted''"

definition MarkSandboxRestarted :: "header \<Rightarrow> header" where
  "MarkSandboxRestarted h = hdrSet h SandboxRestartedHeader ''1''"

definition StripSignals :: "header \<Rightarrow> header" where
  "StripSignals h = hdrDel (hdrDel h SandboxGoneHeader) SandboxRestartedHeader"

section \<open>The runtime contract\<close>

datatype rt_sentinel =
    ErrSandboxNotFound
  | ErrSandboxNetworkUnavailable
  | ErrSandboxNotRunning
  | ErrCapacityExhausted

text \<open>An error value: the sentinels \<open>errors.Is\<close> finds in it, and its text.\<close>

record rt_error =
  er_is :: "rt_sentinel list"
  er_text :: string

definition errors_Is :: "rt_error \<Rightarrow> rt_sentinel \<Rightarrow> bool" where
  "errors_Is e s \<longleftrightarrow> s \<in> set (er_is e)"

fun sentinelText :: "rt_sentinel \<Rightarrow> string" where
  "sentinelText ErrSandboxNotFound = ''sandbox not found''"
| "sentinelText ErrSandboxNetworkUnavailable = ''sandbox network unavailable''"
| "sentinelText ErrSandboxNotRunning = ''sandbox not running''"
| "sentinelText ErrCapacityExhausted = ''runner capacity exhausted''"

definition sentinelErr :: "rt_sentinel \<Rightarrow> rt_error" where
  "sentinelErr s = \<lparr>er_is = [s], er_text = sentinelText s\<rparr>"

definition wrapErr :: "string \<Rightarrow> rt_error \<Rightarrow> rt_error" where
  "wrapErr msg e = e\<lparr>er_text := msg @ '': '' @ er_text e\<rparr>"

definition textErr :: "string \<Rightarrow> rt_error" where
  "textErr msg = \<lparr>er_is = [], er_text = msg\<rparr>"

lemma errors_Is_simps [simp]:
  "errors_Is (sentinelErr s) s' \<longleftrightarrow> s' = s" "errors_Is (wrapErr msg e) s' \<longleftrightarrow> errors_Is e s'"
  "\<not> errors_Is (textErr msg) s'"
  by (auto simp: errors_Is_def sentinelErr_def wrapErr_def textErr_def)

record SandboxInfo =
  si_ID :: string
  si_Name :: string
  si_IP :: string

record WakeResult =
  wr_Recovered :: bool

record Capacity =
  cp_Used :: int
  cp_Total :: int
  cp_Stopped :: int

record 'w runtime =
  rt_Ready :: "'w \<Rightarrow> rt_error option \<times> 'w"
  rt_Capacity :: "'w \<Rightarrow> (rt_error + Capacity) \<times> 'w"
  rt_CreateSandbox :: "string \<Rightarrow> string \<Rightarrow> 'w \<Rightarrow> (rt_error + SandboxInfo) \<times> 'w"
  rt_GetSandboxInfo :: "string \<Rightarrow> 'w \<Rightarrow> (rt_error + SandboxInfo) \<times> 'w"
  rt_DeleteSandbox :: "string \<Rightarrow> 'w \<Rightarrow> rt_error option \<times> 'w"
  rt_StopSandbox :: "string \<Rightarrow> 'w \<Rightarrow> rt_error option \<times> 'w"
  rt_EnsureSandboxRunning :: "string \<Rightarrow> 'w \<Rightarrow> (WakeResult \<times> rt_error option) \<times> 'w"
  rt_DaemonURL :: "string \<Rightarrow> 'w \<Rightarrow> (rt_error + string) \<times> 'w"

section \<open>Requests\<close>

text \<open>
  \<open>nq_body\<close> is what the body delivers before it ends, or fails with \<open>nq_bodyErr\<close>; \<open>nq_peerCerts\<close> is the
  number of client certificates the TLS handshake verified.
\<close>

record runner_request =
  nq_method :: string
  nq_path :: string
  nq_rawQuery :: string
  nq_header :: header
  nq_body :: string
  nq_bodyErr :: "string option"
  nq_peerCerts :: nat

definition isValidID :: "string \<Rightarrow> bool" where
  "isValidID i \<longleftrightarrow> i \<noteq> [] \<and> uuidRegex i"

definition writeSandboxNotFound :: runner_response where
  "writeSandboxNotFound = runner_writeError (MarkSandboxGone noHeader) 404 (sentinelText ErrSandboxNotFound)"

definition writeSandboxRestarted :: runner_response where
  "writeSandboxRestarted =
     runner_writeJSON (MarkSandboxRestarted noHeader) 409
       (RunnerReason ''sandbox restarted after guest crash; state in memory was lost'' ''sandbox_restarted'')"

definition writeExecutionGone :: runner_response where
  "writeExecutionGone = \<lparr>nr_code = 204, nr_header = noHeader, nr_body = RunnerNoBody\<rparr>"

text \<open>\<open>resolveDaemonURL\<close>: the answer it wrote, or the base URL of the daemon.\<close>

definition daemonURLError :: "rt_error \<Rightarrow> runner_response" where
  "daemonURLError e =
     (if errors_Is e ErrSandboxNotFound then writeSandboxNotFound
      else if errors_Is e ErrSandboxNotRunning then runner_writeError noHeader 502 (sentinelText ErrSandboxNotRunning)
      else if errors_Is e ErrSandboxNetworkUnavailable then runner_writeError noHeader 503 ''sandbox temporarily unavailable''
      else runner_writeError noHeader 500 (er_text e))"

definition resolveDaemonURL :: "'w runtime \<Rightarrow> bool \<Rightarrow> string \<Rightarrow> 'w \<Rightarrow> (runner_response + string) \<times> 'w" where
  "resolveDaemonURL rt wake i w =
     (if \<not> isValidID i then (Inl (runner_writeError noHeader 400 ''invalid sandbox id''), w)
      else case rt_DaemonURL rt i w of
        (Inr url, w1) \<Rightarrow> (Inr url, w1)
      | (Inl e, w1) \<Rightarrow>
          if errors_Is e ErrSandboxNotRunning then
            (if \<not> wake then (Inl writeExecutionGone, w1)
             else case rt_EnsureSandboxRunning rt i w1 of
               ((res, Some we), w2) \<Rightarrow>
                 (Inl (if errors_Is we ErrSandboxNotFound then writeSandboxNotFound
                       else runner_writeError noHeader 503 (''sandbox start: '' @ er_text we)), w2)
             | ((res, None), w2) \<Rightarrow>
                 if wr_Recovered res then (Inl writeSandboxRestarted, w2)
                 else (case rt_DaemonURL rt i w2 of
                         (Inr url, w3) \<Rightarrow> (Inr url, w3)
                       | (Inl e3, w3) \<Rightarrow> (Inl (daemonURLError e3), w3)))
          else (Inl (daemonURLError e), w1))"

section \<open>The proxy\<close>

text \<open>
  What the daemon is sent, and its answer or the error of the transport. The body is the request's,
  cut off after \<open>dq_maxBytes\<close> bytes where the route limits it.
\<close>

record daemon_request =
  dq_base :: string
  dq_method :: string
  dq_path :: string
  dq_rawQuery :: string
  dq_header :: header
  dq_body :: string
  dq_bodyErr :: "string option"
  dq_maxBytes :: "int option"

record daemon_response =
  dp_status :: nat
  dp_header :: header
  dp_body :: string

datatype daemon_error = DaemonRedirect | DaemonMaxBytes string | DaemonOther string

text \<open>\<open>rv_urlError\<close> is the error of \<open>url.Parse\<close>, if any.\<close>

record 'w runner_env =
  rv_rt :: "'w runtime"
  rv_daemon :: "daemon_request \<Rightarrow> 'w \<Rightarrow> (daemon_error + daemon_response) \<times> 'w"
  rv_urlError :: "string \<Rightarrow> string option"
  rv_MaxFileBytes :: int
  rv_MaxExecTimeout :: duration
  rv_MaxInflightPerSandbox :: int
  rv_APIKeys :: "string list"

definition daemonRedirected :: "daemon_response \<Rightarrow> bool" where
  "daemonRedirected resp \<longleftrightarrow> \<not> (dp_status resp < 300 \<or> dp_status resp \<ge> 400)"

fun daemonErrorHandler :: "daemon_error \<Rightarrow> runner_response" where
  "daemonErrorHandler DaemonRedirect = runner_writeError noHeader 502 ''daemon returned a redirect''"
| "daemonErrorHandler (DaemonMaxBytes m) = runner_writeError noHeader 400 (''failed to read request body: '' @ m)"
| "daemonErrorHandler (DaemonOther m) =
     (if containsText m ''request body too large''
      then runner_writeError noHeader 400 ''failed to read request body: http: request body too large''
      else runner_writeError noHeader 503 ''daemon temporarily unavailable'')"

definition daemonPath :: "string \<Rightarrow> string \<Rightarrow> string" where
  "daemonPath i p =
     (let prefix = ''/sandboxes/'' @ i; rest = (if hasPrefix p prefix then drop (length prefix) p else p) in
      if rest = [] then ''/'' else rest)"

text \<open>The hook \<open>Rewrite\<close>: of the headers, the daemon gets the content type only.\<close>

definition proxyRewrite :: "string \<Rightarrow> string \<Rightarrow> int option \<Rightarrow> runner_request \<Rightarrow> daemon_request" where
  "proxyRewrite base path maxBytes r =
     (let ct = hdrGet (nq_header r) ''Content-Type'' in
      \<lparr>dq_base = base, dq_method = nq_method r, dq_path = path, dq_rawQuery = nq_rawQuery r,
       dq_header = (if ct \<noteq> [] then hdrSet noHeader ''Content-Type'' ct else noHeader),
       dq_body = nq_body r, dq_bodyErr = nq_bodyErr r, dq_maxBytes = maxBytes\<rparr>)"

definition proxyHandler :: "'w runner_env \<Rightarrow> bool \<Rightarrow> bool \<Rightarrow> string \<Rightarrow> runner_request \<Rightarrow> 'w \<Rightarrow> runner_response \<times> 'w" where
  "proxyHandler v limitBody wake i r w =
     (case resolveDaemonURL (rv_rt v) wake i w of
        (Inl resp, w1) \<Rightarrow> (resp, w1)
      | (Inr base, w1) \<Rightarrow>
          (case rv_urlError v base of
             Some err \<Rightarrow> (runner_writeError noHeader 500 (''invalid daemon url: '' @ err), w1)
           | None \<Rightarrow>
               (case rv_daemon v (proxyRewrite base (daemonPath i (nq_path r))
                        (if limitBody then Some (rv_MaxFileBytes v) else None) r) w1 of
                  (Inl err, w2) \<Rightarrow> (daemonErrorHandler err, w2)
                | (Inr resp, w2) \<Rightarrow>
                    if daemonRedirected resp then (daemonErrorHandler DaemonRedirect, w2)
                    else (\<lparr>nr_code = dp_status resp, nr_header = StripSignals (dp_header resp),
                           nr_body = RunnerRelayed (dp_body resp)\<rparr>, w2))))"

definition ProxyHandler :: "'w runner_env \<Rightarrow> string \<Rightarrow> runner_request \<Rightarrow> 'w \<Rightarrow> runner_response \<times> 'w" where
  "ProxyHandler v = proxyHandler v False True"

definition UploadProxyHandler :: "'w runner_env \<Rightarrow> string \<Rightarrow> runner_request \<Rightarrow> 'w \<Rightarrow> runner_response \<times> 'w" where
  "UploadProxyHandler v = proxyHandler v True True"

text \<open>The deadline of a delete shows as an error of the transport.\<close>

definition DeleteExecutionHandler :: "'w runner_env \<Rightarrow> string \<Rightarrow> runner_request \<Rightarrow> 'w \<Rightarrow> runner_response \<times> 'w" where
  "DeleteExecutionHandler v = proxyHandler v False False"

definition GetSandboxHandler :: "'w runner_env \<Rightarrow> string \<Rightarrow> 'w \<Rightarrow> runner_response \<times> 'w" where
  "GetSandboxHandler v i w =
     (if \<not> isValidID i then (runner_writeError noHeader 400 ''invalid sandbox id'', w)
      else case rt_GetSandboxInfo (rv_rt v) i w of
        (Inl e, w1) \<Rightarrow>
          (if errors_Is e ErrSandboxNotFound then writeSandboxNotFound
           else runner_writeError noHeader 500 (er_text e), w1)
      | (Inr _, w1) \<Rightarrow>
          (runner_writeJSON noHeader 200 (RunnerSandbox \<lparr>ct_ID = i, ct_Status = ''running'', ct_CreatedAt = 0,
             ct_LastActiveAt = 0, ct_IP = []\<rparr>), w1))"

section \<open>Limits and authentication\<close>

definition runner_limitRetryAfter :: string where "runner_limitRetryAfter = ''1''"
definition maxExecutionDeletesPerSandbox :: int where "maxExecutionDeletesPerSandbox = 4"

definition writeSandboxRequestLimit :: runner_response where
  "writeSandboxRequestLimit =
     runner_writeJSON (hdrSet noHeader ''Retry-After'' runner_limitRetryAfter) 429
       (RunnerReason ''too many requests in progress for this sandbox'' ''sandbox_request_limit'')"

definition sandboxLimit :: "('s \<Rightarrow> KeyedLimiter) \<Rightarrow> (KeyedLimiter \<Rightarrow> 's \<Rightarrow> 's) \<Rightarrow> string \<Rightarrow>
    ('s \<Rightarrow> runner_response \<times> 's) \<Rightarrow> 's \<Rightarrow> runner_response \<times> 's" where
  "sandboxLimit get_l set_l i handler s =
     (if \<not> isValidID i then (runner_writeError noHeader 400 ''invalid sandbox id'', s)
      else case TryAcquire (get_l s) i of
        (False, l) \<Rightarrow> (writeSandboxRequestLimit, set_l l s)
      | (True, l) \<Rightarrow>
          (case handler (set_l l s) of
             (resp, s') \<Rightarrow> (resp, set_l (Release (get_l s') i) s')))"

definition runner_publicPaths :: "string list" where
  "runner_publicPaths = [''/healthz'', ''/livez'', ''/readyz'', ''/metrics'']"

definition runner_Public :: "runner_request \<Rightarrow> bool" where
  "runner_Public r \<longleftrightarrow> nq_path r \<in> set runner_publicPaths \<and> isGetOrHead (nq_method r)"

definition runner_httpError :: "header \<Rightarrow> nat \<Rightarrow> string \<Rightarrow> runner_response" where
  "runner_httpError h code msg =
     \<lparr>nr_code = code, nr_header = hdrSet (hdrSet h ''Content-Type'' ''text/plain; charset=utf-8'') ''X-Content-Type-Options'' ''nosniff'',
      nr_body = RunnerRelayed (msg @ [CHR 0x0A])\<rparr>"

definition runner_rejectOtherMethods :: "runner_request \<Rightarrow> runner_response option" where
  "runner_rejectOtherMethods r =
     (if nq_path r \<in> set runner_publicPaths \<and> \<not> isGetOrHead (nq_method r)
      then Some (runner_httpError (hdrSet noHeader ''Allow'' ''GET, HEAD'') 405 ''Method Not Allowed'')
      else None)"

text \<open>The middleware's answer, or \<open>None\<close> when it passes the request on.\<close>

definition runner_AuthMiddleware :: "string list \<Rightarrow> runner_request \<Rightarrow> runner_response option" where
  "runner_AuthMiddleware apiKeys r =
     (if runner_Public r then None
      else if nq_peerCerts r = 0 then Some (runner_writeError noHeader 401 ''client certificate required'')
      else let apiKey = hdrGet (nq_header r) ''X-Api-Key'' in
        if apiKey = [] then Some (runner_writeError noHeader 401 ''missing API key'')
        else if apiKey \<notin> set apiKeys then Some (runner_writeError noHeader 401 ''invalid API key'')
        else None)"

section \<open>Only the runtime can report a sandbox gone\<close>

definition reports_gone :: "runner_response \<Rightarrow> bool" where
  "reports_gone resp \<longleftrightarrow> hdrGet (nr_header resp) SandboxGoneHeader = ''1''"

definition reports_restarted :: "runner_response \<Rightarrow> bool" where
  "reports_restarted resp \<longleftrightarrow> hdrGet (nr_header resp) SandboxRestartedHeader = ''1''"

lemma signal_simps [simp]:
  "\<not> reports_gone (runner_writeError noHeader code msg)" "\<not> reports_restarted (runner_writeError noHeader code msg)"
  "reports_gone writeSandboxNotFound" "\<not> reports_restarted writeSandboxNotFound"
  "reports_restarted writeSandboxRestarted" "\<not> reports_gone writeSandboxRestarted"
  "\<not> reports_gone writeExecutionGone" "\<not> reports_restarted writeExecutionGone"
  "\<not> reports_gone writeSandboxRequestLimit" "\<not> reports_restarted writeSandboxRequestLimit"
  "\<not> reports_gone (runner_writeJSON noHeader code b)" "\<not> reports_restarted (runner_writeJSON noHeader code b)"
  by (simp_all add: reports_gone_def reports_restarted_def runner_writeError_def runner_writeJSON_def
        writeSandboxNotFound_def writeSandboxRestarted_def writeExecutionGone_def writeSandboxRequestLimit_def
        MarkSandboxGone_def MarkSandboxRestarted_def SandboxGoneHeader_def SandboxRestartedHeader_def)

lemma stripped_signals [simp]:
  "\<not> reports_gone \<lparr>nr_code = c, nr_header = StripSignals h, nr_body = b\<rparr>"
  "\<not> reports_restarted \<lparr>nr_code = c, nr_header = StripSignals h, nr_body = b\<rparr>"
  by (simp_all add: reports_gone_def reports_restarted_def StripSignals_def)

lemma daemonError_signals [simp]:
  "\<not> reports_gone (daemonErrorHandler e)" "\<not> reports_restarted (daemonErrorHandler e)"
  by (cases e; simp)+

lemma daemonURLError_gone [simp]: "reports_gone (daemonURLError e) \<longleftrightarrow> errors_Is e ErrSandboxNotFound"
  by (simp add: daemonURLError_def)

lemma daemonURLError_restarted [simp]: "\<not> reports_restarted (daemonURLError e)"
  by (simp add: daemonURLError_def)

text \<open>
  The contract of a runtime as its clients use it: it reports a sandbox as not found only when it
  does not track it, and it refuses a create for want of capacity without having created anything.
\<close>

locale sandbox_runtime =
  fixes rt :: "'w runtime" and tracked :: "'w \<Rightarrow> string \<Rightarrow> bool"
  assumes url_not_found:
      "rt_DaemonURL rt i w = (Inl e, w') \<Longrightarrow> errors_Is e ErrSandboxNotFound \<Longrightarrow> \<not> tracked w' i"
    and wake_not_found:
      "rt_EnsureSandboxRunning rt i w = ((res, Some e), w') \<Longrightarrow> errors_Is e ErrSandboxNotFound \<Longrightarrow> \<not> tracked w' i"
    and info_not_found:
      "rt_GetSandboxInfo rt i w = (Inl e, w') \<Longrightarrow> errors_Is e ErrSandboxNotFound \<Longrightarrow> \<not> tracked w' i"
    and refusal_creates_nothing:
      "rt_CreateSandbox rt i opts w = (Inl e, w') \<Longrightarrow> errors_Is e ErrCapacityExhausted \<Longrightarrow> tracked w' = tracked w"
begin

lemma resolve_gone:
  assumes "resolveDaemonURL rt wake i w = (Inl resp, w')" and "reports_gone resp"
  shows "\<not> tracked w' i"
  using assms
  by (auto simp: resolveDaemonURL_def split: if_splits prod.splits sum.splits option.splits
      dest: url_not_found wake_not_found)

end

lemma resolve_ok_url:
  "resolveDaemonURL rt wake i w = (Inr base, w') \<Longrightarrow> isValidID i \<and> (\<exists>w0. rt_DaemonURL rt i w0 = (Inr base, w'))"
  by (auto simp: resolveDaemonURL_def split: if_splits prod.splits sum.splits option.splits)

lemma proxyHandler_cases:
  assumes "proxyHandler v limitBody wake i r w = (resp, w')"
  obtains "resolveDaemonURL (rv_rt v) wake i w = (Inl resp, w')"
  | base w1 where "resolveDaemonURL (rv_rt v) wake i w = (Inr base, w1)" "\<not> reports_gone resp" "\<not> reports_restarted resp"
  using assms
  by (auto simp: proxyHandler_def split: if_splits prod.splits sum.splits option.splits)

context sandbox_runtime
begin

lemma proxy_gone:
  assumes "proxyHandler v limitBody wake i r w = (resp, w')" and "rv_rt v = rt" and "reports_gone resp"
  shows "\<not> tracked w' i"
  using assms(1)
proof (cases rule: proxyHandler_cases)
  case 1
  then show ?thesis using resolve_gone assms(2,3) by simp
next
  case (2 base w1)
  then show ?thesis using assms(3) by simp
qed

lemma get_gone:
  assumes "GetSandboxHandler v i w = (resp, w')" and "rv_rt v = rt" and "reports_gone resp"
  shows "\<not> tracked w' i"
  using assms(1,3) info_not_found [of i w] unfolding GetSandboxHandler_def assms(2)
  by (auto split: if_splits prod.splits sum.splits)

end

section \<open>What the guest sees of a request\<close>

lemma guest_sees_content_type_only:
  assumes "nq_method r' = nq_method r" "nq_path r' = nq_path r" "nq_rawQuery r' = nq_rawQuery r"
    "nq_body r' = nq_body r" "nq_bodyErr r' = nq_bodyErr r"
    and "hdrGet (nq_header r') ''Content-Type'' = hdrGet (nq_header r) ''Content-Type''"
  shows "proxyHandler v limitBody wake i r' w = proxyHandler v limitBody wake i r w"
proof -
  have "proxyRewrite b p m r' = proxyRewrite b p m r" for b p m
    using assms by (simp add: proxyRewrite_def)
  then show ?thesis unfolding proxyHandler_def assms(2) by presburger
qed

text \<open>A request that may not wake the sandbox never calls \<open>EnsureSandboxRunning\<close>.\<close>

lemma no_wake:
  "resolveDaemonURL (rt\<lparr>rt_EnsureSandboxRunning := f\<rparr>) False i w = resolveDaemonURL rt False i w"
  by (cases "rt_DaemonURL rt i w") (auto simp: resolveDaemonURL_def split: sum.splits)

end
