(* ===== verification/Daemon_Api.thy ===== *)
theory Daemon_Api
  imports Execution_Log Runner_Proxy
begin

text \<open>
  The HTTP interface of the daemon (\<open>internal/daemon/daemon.go\<close>): its routes and the three
  execution routes. Requests and answers are those of the runner's proxy. The JSON decoder is
  a parameter.
\<close>

section \<open>Routes\<close>

datatype daemon_route =
    DaemonHealthz | DaemonPostExec | DaemonGetExec | DaemonDeleteExec
  | DaemonListFiles | DaemonReadFile | DaemonWriteFile | DaemonAppendFile | DaemonArchive | DaemonDeleteFile
  | DaemonCopyFile | DaemonMoveFile | DaemonMkdir | DaemonStat

definition daemon_routes :: "daemon_route route list" where
  "daemon_routes =
     [\<lparr>ro_method = ''GET'', ro_pattern = [Lit ''healthz''], ro_handler = DaemonHealthz\<rparr>,
      \<lparr>ro_method = ''POST'', ro_pattern = [Lit ''executions''], ro_handler = DaemonPostExec\<rparr>,
      \<lparr>ro_method = ''GET'', ro_pattern = [Lit ''executions'', Wild ''exec_id''], ro_handler = DaemonGetExec\<rparr>,
      \<lparr>ro_method = ''DELETE'', ro_pattern = [Lit ''executions'', Wild ''exec_id''], ro_handler = DaemonDeleteExec\<rparr>,
      \<lparr>ro_method = ''GET'', ro_pattern = [Lit ''files''], ro_handler = DaemonListFiles\<rparr>,
      \<lparr>ro_method = ''GET'', ro_pattern = [Lit ''files'', Lit ''content''], ro_handler = DaemonReadFile\<rparr>,
      \<lparr>ro_method = ''PUT'', ro_pattern = [Lit ''files''], ro_handler = DaemonWriteFile\<rparr>,
      \<lparr>ro_method = ''POST'', ro_pattern = [Lit ''files''], ro_handler = DaemonAppendFile\<rparr>,
      \<lparr>ro_method = ''POST'', ro_pattern = [Lit ''files'', Lit ''archive''], ro_handler = DaemonArchive\<rparr>,
      \<lparr>ro_method = ''DELETE'', ro_pattern = [Lit ''files''], ro_handler = DaemonDeleteFile\<rparr>,
      \<lparr>ro_method = ''POST'', ro_pattern = [Lit ''files'', Lit ''copy''], ro_handler = DaemonCopyFile\<rparr>,
      \<lparr>ro_method = ''POST'', ro_pattern = [Lit ''files'', Lit ''move''], ro_handler = DaemonMoveFile\<rparr>,
      \<lparr>ro_method = ''POST'', ro_pattern = [Lit ''mkdir''], ro_handler = DaemonMkdir\<rparr>,
      \<lparr>ro_method = ''GET'', ro_pattern = [Lit ''stat''], ro_handler = DaemonStat\<rparr>]"

section \<open>Queries\<close>

text \<open>\<open>strings.Cut\<close> at a byte.\<close>

definition strCut :: "char \<Rightarrow> string \<Rightarrow> string \<times> string" where
  "strCut c s = (takeWhile (\<lambda>x. x \<noteq> c) s, drop (Suc (length (takeWhile (\<lambda>x. x \<noteq> c) s))) s)"

text \<open>\<open>URL.Query().Get\<close> on a query without percent-escapes.\<close>

function queryGet :: "string \<Rightarrow> string \<Rightarrow> string" where
  "queryGet q key =
     (if q = [] then []
      else let (pair, rest) = strCut (CHR ''&'') q; (k, v) = strCut (CHR ''='') pair in
        if pair \<noteq> [] \<and> CHR '';'' \<notin> set pair \<and> k = key then v else queryGet rest key)"
  by pat_completeness auto
termination
  by (relation "measure (\<lambda>(q, key). length q)") (auto simp: strCut_def)

declare queryGet.simps [simp del]

section \<open>Answers\<close>

definition daemon_writeError :: "nat \<Rightarrow> string \<Rightarrow> daemon_response" where
  "daemon_writeError code msg =
     \<lparr>dp_status = code, dp_header = hdrSet noHeader ''Content-Type'' ''application/json'',
      dp_body = CHR ''{'' # joinComma [jsonMember ''error'' (jsonString msg), jsonMember ''code'' (itoa code)] @ ''}''\<rparr>"

definition writeNdjsonHeader :: header where
  "writeNdjsonHeader =
     hdrSet (hdrSet (hdrSet noHeader ''Content-Type'' ''application/x-ndjson'') ''Cache-Control'' ''no-cache'')
       ''X-Content-Type-Options'' ''nosniff''"

text \<open>What \<open>ndjsonWriter\<close> writes for a sequence of events.\<close>

definition ndjsonWriter :: "string list \<Rightarrow> string" where
  "ndjsonWriter ds = concat (map (\<lambda>d. d @ [newline]) ds)"

definition ndjsonResponse :: "string list \<Rightarrow> daemon_response" where
  "ndjsonResponse ds = \<lparr>dp_status = 200, dp_header = writeNdjsonHeader, dp_body = ndjsonWriter ds\<rparr>"

section \<open>Request bodies\<close>

record execRequest =
  xr_Command :: string
  xr_Env :: "(string \<times> string) list"
  xr_WorkDir :: string
  xr_TimeoutMs :: int
  xr_ExecID :: string

definition maxJSONBodyBytes :: nat where "maxJSONBodyBytes = 2 ^ 20"

text \<open>
  A decoder gives the first value and the input after it; \<open>json_next\<close> is what decoding once more
  finds there.
\<close>

datatype json_next = JsonEOF | JsonValue | JsonError string

definition decodeJSONBody :: "(string \<Rightarrow> string + 'a \<times> string) \<Rightarrow> (string \<Rightarrow> json_next) \<Rightarrow> string \<Rightarrow> string + 'a" where
  "decodeJSONBody dec nxt body =
     (case dec (take maxJSONBodyBytes body) of
        Inl err \<Rightarrow> Inl err
      | Inr (v, rest) \<Rightarrow>
          (case nxt rest of
             JsonEOF \<Rightarrow> Inr v
           | JsonValue \<Rightarrow> Inl ''request body must contain a single JSON value''
           | JsonError err \<Rightarrow> Inl err))"

section \<open>The execution routes\<close>

definition defaultExecTimeout :: duration where "defaultExecTimeout = 5 * 60 * second_ns"

text \<open>The timeout of a request in nanoseconds, an int64 product.\<close>

definition execTimeout :: "int \<Rightarrow> duration" where
  "execTimeout timeoutMs = (if timeoutMs > 0 then wrap64 (timeoutMs * 1000000) else defaultExecTimeout)"

text \<open>The command that \<open>GetOrCreate\<close> starts in the background.\<close>

record launch =
  la_execID :: string
  la_command :: string
  la_env :: "string list"
  la_workdir :: string
  la_timeout :: duration

text \<open>
  \<open>seen\<close> are the states in which \<open>Follow\<close> or \<open>Snapshot\<close> find the log of the execution from the
  moment they are called; \<open>fresh\<close> is a new UUID. A panic aborts the connection after what was
  written.
\<close>

definition postExecution :: "(string \<Rightarrow> string + execRequest \<times> string) \<Rightarrow> (string \<Rightarrow> json_next) \<Rightarrow> int \<Rightarrow> string \<Rightarrow>
    Execution list \<Rightarrow> string \<Rightarrow> ExecManager \<Rightarrow> daemon_response \<times> launch option \<times> ExecManager" where
  "postExecution dec nxt now fresh seen body em =
     (case decodeJSONBody dec nxt body of
        Inl err \<Rightarrow> (daemon_writeError 400 (''invalid request body: '' @ err), None, em)
      | Inr req \<Rightarrow>
          if xr_Command req = [] then (daemon_writeError 400 ''command is required'', None, em)
          else let env = map (\<lambda>(k, v). k @ ''='' @ v) (xr_Env req);
                   timeout = execTimeout (xr_TimeoutMs req);
                   (i, started, em') = GetOrCreate now fresh (xr_ExecID req) em;
                   la = (if started then Some \<lparr>la_execID = i, la_command = xr_Command req, la_env = env,
                           la_workdir = xr_WorkDir req, la_timeout = timeout\<rparr> else None) in
            if \<not> HasHistory None (the (em_executions em' i))
            then (daemon_writeError 410 ''execution history is no longer retained'', la, em')
            else (ndjsonResponse (snd (Follow None seen)), la, em'))"

definition getExecution :: "Execution list \<Rightarrow> string \<Rightarrow> string \<Rightarrow> ExecManager \<Rightarrow> daemon_response" where
  "getExecution seen execID rawQuery em =
     (case parseAfterParam (queryGet rawQuery ''after'') of
        None \<Rightarrow> daemon_writeError 400 ''invalid after parameter''
      | Some after \<Rightarrow>
          (case GetExec execID em of
             None \<Rightarrow> daemon_writeError 404 ''execution not found''
           | Some ex \<Rightarrow>
               if \<not> HasHistory after ex then daemon_writeError 410 ''requested event history is no longer retained''
               else if queryGet rawQuery ''follow'' = ''true'' then ndjsonResponse (snd (Follow after seen))
               else (case Snapshot after (hd seen) of
                       Done events \<Rightarrow> ndjsonResponse events
                     | Refused \<Rightarrow> ndjsonResponse [marshalResponse (newErrorResponse ''requested event history is no longer retained'')]
                     | Panic \<Rightarrow> ndjsonResponse [])))"

definition deleteExecution :: "string \<Rightarrow> ExecManager \<Rightarrow> daemon_response \<times> Execution option \<times> ExecManager" where
  "deleteExecution execID em =
     (case DeleteExec execID em of
        (ex, em') \<Rightarrow> (\<lparr>dp_status = 204, dp_header = noHeader, dp_body = []\<rparr>, ex, em'))"

section \<open>Lemmas\<close>

text \<open>So \<open>postExecution\<close> always finds the execution it asked for.\<close>

lemma GetOrCreate_present: "GetOrCreate now fresh execID em = (i, started, em') \<Longrightarrow> em_executions em' i \<noteq> None"
  by (auto simp: GetOrCreate_def Let_def split: if_splits)


lemma strCut_found: "c \<notin> set s \<Longrightarrow> strCut c (s @ c # t) = (s, t)"
proof -
  assume "c \<notin> set s"
  then have "takeWhile (\<lambda>x. x \<noteq> c) (s @ c # t) = s" by (induction s) auto
  then show ?thesis by (simp add: strCut_def)
qed

lemma strCut_none: "c \<notin> set s \<Longrightarrow> strCut c s = (s, [])"
proof -
  assume "c \<notin> set s"
  then have e: "takeWhile (\<lambda>x. x \<noteq> c) s = s" by (induction s) auto
  show ?thesis unfolding strCut_def e by simp
qed

lemma isDigit_ord: "isDigit c \<Longrightarrow> c \<noteq> CHR ''&'' \<and> c \<noteq> CHR '';'' \<and> c \<noteq> CHR ''='' \<and> c \<noteq> CHR ''#'' \<and> c \<noteq> CHR ''?''"
  by (auto simp: isDigit_def)

lemma itoa_safe:
  "CHR ''&'' \<notin> set (itoa n)" "CHR '';'' \<notin> set (itoa n)" "CHR ''='' \<notin> set (itoa n)"
  "CHR ''#'' \<notin> set (itoa n)" "CHR ''?'' \<notin> set (itoa n)"
  using itoa_digits [of n] isDigit_ord by (auto simp: list_all_iff)

definition followQuery :: "u64 option \<Rightarrow> string" where
  "followQuery after = ''follow=true'' @ (case after of None \<Rightarrow> [] | Some a \<Rightarrow> ''&after='' @ itoa (unat a))"

lemma queryGet_pair:
  assumes "CHR ''&'' \<notin> set k" "CHR ''&'' \<notin> set v" "CHR ''='' \<notin> set k" "CHR '';'' \<notin> set k" "CHR '';'' \<notin> set v"
  shows "queryGet (k @ ''='' @ v) key = (if k = key then v else [])"
    and "queryGet (k @ ''='' @ v @ CHR ''&'' # rest) key = (if k = key then v else queryGet rest key)"
proof -
  have c: "strCut (CHR ''='') (k @ CHR ''='' # v) = (k, v)" by (rule strCut_found [OF assms(3)])
  have "strCut (CHR ''&'') (k @ CHR ''='' # v) = (k @ CHR ''='' # v, [])" using assms by (intro strCut_none) auto
  then show "queryGet (k @ ''='' @ v) key = (if k = key then v else [])"
    using assms c by (subst queryGet.simps) (auto simp: queryGet.simps [of "[]"])
  have "strCut (CHR ''&'') ((k @ CHR ''='' # v) @ CHR ''&'' # rest) = (k @ CHR ''='' # v, rest)"
    using assms by (intro strCut_found) auto
  then show "queryGet (k @ ''='' @ v @ CHR ''&'' # rest) key = (if k = key then v else queryGet rest key)"
    using assms c by (subst queryGet.simps) auto
qed

lemma followQuery_key:
  "queryGet (''follow'' @ ''='' @ ''true'' @ CHR ''&'' # rest) key = (if key = ''follow'' then ''true'' else queryGet rest key)"
  by (subst queryGet_pair(2)) auto

lemma followQuery_Some:
  "followQuery (Some a) = ''follow'' @ ''='' @ ''true'' @ CHR ''&'' # (''after'' @ ''='' @ itoa (unat a))"
  by (simp add: followQuery_def)

lemma followQuery_None: "followQuery None = ''follow'' @ ''='' @ ''true''"
  by (simp add: followQuery_def)

lemma followQuery_after: "queryGet (followQuery after) ''after'' = (case after of None \<Rightarrow> [] | Some a \<Rightarrow> itoa (unat a))"
proof (cases after)
  case None
  show ?thesis unfolding None followQuery_None by (subst queryGet_pair(1)) auto
next
  case (Some a)
  have "queryGet (''after'' @ ''='' @ itoa (unat a)) ''after'' = itoa (unat a)"
    by (subst queryGet_pair(1)) (simp_all add: itoa_safe)
  then show ?thesis unfolding Some followQuery_Some followQuery_key by simp
qed

lemma followQuery_follow: "queryGet (followQuery after) ''follow'' = ''true''"
proof (cases after)
  case None
  show ?thesis unfolding None followQuery_None by (subst queryGet_pair(1)) auto
next
  case (Some a)
  show ?thesis unfolding Some followQuery_Some followQuery_key by simp
qed

lemma parse_followQuery: "parseAfterParam (queryGet (followQuery after) ''after'') = Some after"
  by (cases after) (simp_all add: followQuery_after parseAfterParam_def ParseUint_itoa itoa_not_Nil)

lemma getExecution_follow:
  "getExecution seen execID (followQuery after) em =
     (case GetExec execID em of
        None \<Rightarrow> daemon_writeError 404 ''execution not found''
      | Some ex \<Rightarrow>
          if HasHistory after ex then ndjsonResponse (snd (Follow after seen))
          else daemon_writeError 410 ''requested event history is no longer retained'')"
  unfolding getExecution_def parse_followQuery followQuery_follow by (simp split: option.splits)

end
