(* ===== verification/Exec_Proxy.thy ===== *)
theory Exec_Proxy
  imports Daemon_Api
begin

text \<open>
  \<open>internal/runner/exec_proxy.go\<close>: starting an execution in the guest and relaying its events, with
  up to three resumptions when the connection to the daemon breaks. A daemon answer carries
  the bytes that arrived before its connection ended.
\<close>

section \<open>Relaying a stream\<close>

datatype stream_result = Completed | StreamRead | StreamPrefix prefix_error | StreamWrite

text \<open>\<open>ReadBytes\<close> up to a newline; \<open>None\<close> is its error, which drops an unfinished line.\<close>

definition ReadBytes :: "string \<Rightarrow> (string \<times> string) option" where
  "ReadBytes src =
     (case dropWhile (\<lambda>c. c \<noteq> newline) src of
        [] \<Rightarrow> None
      | _ # rest \<Rightarrow> Some (takeWhile (\<lambda>c. c \<noteq> newline) src @ [newline], rest))"

text \<open>The client's side: what it was sent, how many more writes it takes, and the last number seen.\<close>

record exec_stream =
  xs_lastSeq :: "u64 option"
  xs_out :: string
  xs_room :: nat

function streamNDJSON :: "string \<Rightarrow> exec_stream \<Rightarrow> stream_result \<times> exec_stream" where
  "streamNDJSON src st =
     (case ReadBytes src of
        None \<Rightarrow> (StreamRead, st)
      | Some (line, rest) \<Rightarrow>
          (case execEventPrefix line of
             Inl err \<Rightarrow> (StreamPrefix err, st)
           | Inr (sq, typ) \<Rightarrow>
               (let st1 = st\<lparr>xs_lastSeq := Some sq\<rparr> in
                case xs_room st1 of
                  0 \<Rightarrow> (StreamWrite, st1)
                | Suc room \<Rightarrow>
                    (let st2 = st1\<lparr>xs_out := xs_out st1 @ line, xs_room := room\<rparr> in
                     if isTerminalEvent typ then (Completed, st2) else streamNDJSON rest st2))))"
  by pat_completeness auto

lemma ReadBytes_shorter: "ReadBytes src = Some (line, rest) \<Longrightarrow> length rest < length src"
proof -
  assume "ReadBytes src = Some (line, rest)"
  then obtain c where "dropWhile (\<lambda>c. c \<noteq> newline) src = c # rest"
    by (auto simp: ReadBytes_def split: list.splits)
  then have "Suc (length rest) \<le> length src"
    using length_dropWhile_le [of "\<lambda>c. c \<noteq> newline" src] by simp
  then show ?thesis by simp
qed

termination streamNDJSON
  by (relation "measure (\<lambda>(src, st). length src)") (auto dest: ReadBytes_shorter)

declare streamNDJSON.simps [simp del]

section \<open>The handler\<close>

definition execMaxRetries :: nat where "execMaxRetries = 3"
definition execMaxJSONBodyBytes :: nat where "execMaxJSONBodyBytes = 2 ^ 20"

text \<open>
  The decoder and the encoder of the body, a new UUID, how many writes the client's connection
  takes, and when the client has gone: \<open>xv_done\<close> at the check after a broken stream, \<open>xv_gone\<close>
  during the pause before a resumption.
\<close>

record exec_env =
  xv_unmarshal :: "string \<Rightarrow> string + execRequest"
  xv_marshal :: "execRequest \<Rightarrow> string option"
  xv_uuid :: string
  xv_room :: nat
  xv_done :: "nat \<Rightarrow> bool"
  xv_gone :: "nat \<Rightarrow> bool"

definition readAndParseRequestBody :: "exec_env \<Rightarrow> runner_request \<Rightarrow> runner_response + execRequest" where
  "readAndParseRequestBody x r =
     (if length (nq_body r) > execMaxJSONBodyBytes
      then Inl (runner_writeError noHeader 400 ''failed to read request body: http: request body too large'')
      else if nq_bodyErr r \<noteq> None then Inl (runner_writeError noHeader 400 ''failed to read request body'')
      else case xv_unmarshal x (nq_body r) of
        Inl err \<Rightarrow> Inl (runner_writeError noHeader 400 (''invalid request body: '' @ err))
      | Inr body \<Rightarrow> Inr body)"

definition shouldRetryStreamError :: "exec_env \<Rightarrow> nat \<Rightarrow> stream_result \<Rightarrow> bool" where
  "shouldRetryStreamError x attempt err = (if xv_done x attempt then False else err = StreamRead)"

text \<open>
  How a URL under the daemon's base splits into path and query: the fragment is cut off first. The
  path keeps the escapes it has; what else the client escapes on the wire, the daemon decodes again.
\<close>

definition urlParts :: "string \<Rightarrow> string \<times> string" where
  "urlParts s = strCut (CHR ''?'') (fst (strCut (CHR ''#'') s))"

definition resumeSuffix :: "string \<Rightarrow> u64 option \<Rightarrow> string" where
  "resumeSuffix execID lastSeq =
     ''/executions/'' @ execID @ ''?follow=true'' @
       (case lastSeq of None \<Rightarrow> [] | Some q \<Rightarrow> ''&after='' @ itoa (unat q))"

definition execRequestTo :: "string \<Rightarrow> string \<Rightarrow> string \<Rightarrow> header \<Rightarrow> string \<Rightarrow> daemon_request" where
  "execRequestTo base meth sfx h body =
     \<lparr>dq_base = base, dq_method = meth, dq_path = fst (urlParts sfx), dq_rawQuery = snd (urlParts sfx),
      dq_header = h, dq_body = body, dq_bodyErr = None, dq_maxBytes = None\<rparr>"

text \<open>The loop over the resumptions, with \<open>n\<close> of them left; the result says whether a terminal event was relayed.\<close>

fun resume_loop :: "'w runner_env \<Rightarrow> exec_env \<Rightarrow> string \<Rightarrow> string \<Rightarrow> nat \<Rightarrow> nat \<Rightarrow> exec_stream \<Rightarrow> 'w \<Rightarrow> (bool \<times> exec_stream) \<times> 'w" where
  "resume_loop v x base execID 0 attempt st w = ((False, st), w)"
| "resume_loop v x base execID (Suc n) attempt st w =
     (if xv_gone x attempt then ((False, st), w)
      else let sfx = resumeSuffix execID (xs_lastSeq st) in
        if rv_urlError v (base @ sfx) \<noteq> None then resume_loop v x base execID n (Suc attempt) st w
        else case rv_daemon v (execRequestTo base ''GET'' sfx noHeader []) w of
          (Inl _, w1) \<Rightarrow> resume_loop v x base execID n (Suc attempt) st w1
        | (Inr resp, w1) \<Rightarrow>
            if dp_status resp \<noteq> 200 then resume_loop v x base execID n (Suc attempt) st w1
            else (case streamNDJSON (dp_body resp) st of
                    (res, st1) \<Rightarrow>
                      if res = Completed then ((True, st1), w1)
                      else if \<not> shouldRetryStreamError x (Suc attempt) res then ((False, st1), w1)
                      else resume_loop v x base execID n (Suc attempt) st1 w1))"

definition exec_relay :: "'w runner_env \<Rightarrow> exec_env \<Rightarrow> string \<Rightarrow> string \<Rightarrow> string \<Rightarrow> 'w \<Rightarrow> (bool \<times> exec_stream) \<times> 'w" where
  "exec_relay v x base execID body w =
     (let st = \<lparr>xs_lastSeq = None, xs_out = [], xs_room = xv_room x\<rparr> in
      case streamNDJSON body st of
        (res, st1) \<Rightarrow>
          if res = Completed then ((True, st1), w)
          else if \<not> shouldRetryStreamError x 0 res then ((False, st1), w)
          else resume_loop v x base execID execMaxRetries 0 st1 w)"

definition execHeader :: "string \<Rightarrow> header" where
  "execHeader execID = hdrSet writeNdjsonHeader ''X-Exec-Id'' execID"

definition exec_start :: "'w runner_env \<Rightarrow> exec_env \<Rightarrow> string \<Rightarrow> execRequest \<Rightarrow> 'w \<Rightarrow> runner_response \<times> 'w" where
  "exec_start v x base body0 w =
     (let body = (if xr_ExecID body0 = [] then body0\<lparr>xr_ExecID := xv_uuid x\<rparr> else body0); execID = xr_ExecID body in
      case xv_marshal x body of
        None \<Rightarrow> (runner_writeError noHeader 500 ''failed to encode request body'', w)
      | Some encoded \<Rightarrow>
          if rv_urlError v (base @ ''/executions'') \<noteq> None
          then (runner_writeError noHeader 500 ''failed to create upstream request'', w)
          else (case rv_daemon v (execRequestTo base ''POST'' ''/executions''
                       (hdrSet noHeader ''Content-Type'' ''application/json'') encoded) w of
                  (Inl _, w1) \<Rightarrow> (runner_writeError noHeader 503 ''daemon temporarily unavailable'', w1)
                | (Inr resp, w1) \<Rightarrow>
                    if daemonRedirected resp then (runner_writeError noHeader 502 ''daemon returned a redirect'', w1)
                    else if dp_status resp \<noteq> 200
                    then (\<lparr>nr_code = dp_status resp,
                           nr_header = hdrSet noHeader ''Content-Type'' (hdrGet (dp_header resp) ''Content-Type''),
                           nr_body = RunnerRelayed (dp_body resp)\<rparr>, w1)
                    else (case exec_relay v x base execID (dp_body resp) w1 of
                            ((_, st), w2) \<Rightarrow>
                              (\<lparr>nr_code = 200, nr_header = execHeader execID, nr_body = RunnerRelayed (xs_out st)\<rparr>, w2))))"

definition ExecProxyHandler :: "'w runner_env \<Rightarrow> exec_env \<Rightarrow> string \<Rightarrow> runner_request \<Rightarrow> 'w \<Rightarrow> runner_response \<times> 'w" where
  "ExecProxyHandler v x i r w =
     (case readAndParseRequestBody x r of
        Inl resp \<Rightarrow> (resp, w)
      | Inr body \<Rightarrow>
          let limit = rv_MaxExecTimeout v; limitMs = limit div 1000000 in
          if limit > 0 \<and> xr_TimeoutMs body > limitMs
          then (runner_writeError noHeader 400 (''timeout_ms must not exceed '' @ itoaInt limitMs), w)
          else (case resolveDaemonURL (rv_rt v) True i w of
                  (Inl resp, w1) \<Rightarrow> (resp, w1)
                | (Inr base, w1) \<Rightarrow> exec_start v x base body w1))"

section \<open>Reading whole lines\<close>

definition line_of :: "storedEvent \<Rightarrow> string" where
  "line_of e = se_data e @ [newline]"

definition event_lines :: "storedEvent list \<Rightarrow> string" where
  "event_lines es = concat (map line_of es)"

lemma event_lines_simps [simp]:
  "event_lines [] = []" "event_lines (e # es) = line_of e @ event_lines es"
  "event_lines (es @ es') = event_lines es @ event_lines es'"
  by (simp_all add: event_lines_def)

lemma ndjson_event_lines: "ndjsonWriter (map se_data es) = event_lines es"
  by (induction es) (simp_all add: ndjsonWriter_def line_of_def)

definition good_event :: "storedEvent \<Rightarrow> bool \<Rightarrow> bool" where
  "good_event e b \<longleftrightarrow> newline \<notin> set (se_data e) \<and>
     (\<exists>typ. execEventPrefix (line_of e) = Inr (se_seq e, typ) \<and> isTerminalEvent typ = b)"

lemma ReadBytes_line:
  assumes "newline \<notin> set d" shows "ReadBytes (d @ newline # s) = Some (d @ [newline], s)"
proof -
  have "takeWhile (\<lambda>c. c \<noteq> newline) (d @ newline # s) = d" "dropWhile (\<lambda>c. c \<noteq> newline) (d @ newline # s) = newline # s"
    using assms by (induction d) auto
  then show ?thesis by (simp add: ReadBytes_def)
qed

lemma ReadBytes_none: "newline \<notin> set s \<Longrightarrow> ReadBytes s = None"
proof -
  assume "newline \<notin> set s"
  then have e: "dropWhile (\<lambda>c. c \<noteq> newline) s = []" by (auto simp: dropWhile_eq_Nil_conv)
  show ?thesis unfolding ReadBytes_def e by simp
qed

lemma ReadBytes_cut:
  assumes "newline \<notin> set (se_data e)"
  shows "ReadBytes (take c (line_of e @ s)) =
     (if length (line_of e) \<le> c then Some (line_of e, take (c - length (line_of e)) s) else None)"
proof (cases "length (line_of e) \<le> c")
  case True
  then show ?thesis
    using ReadBytes_line [OF assms, of "take (c - length (line_of e)) s"] by (simp add: line_of_def take_Cons')
next
  case False
  then have "take c (line_of e @ s) = take c (se_data e)" by (simp add: line_of_def)
  moreover have "newline \<notin> set (take c (se_data e))" using assms in_set_takeD by metis
  ultimately show ?thesis using False ReadBytes_none by simp
qed

text \<open>What a stream of events leaves behind, by how it ended; \<open>k\<close> events were relayed.\<close>

definition relayed :: "nat \<Rightarrow> storedEvent list \<Rightarrow> bool list \<Rightarrow> exec_stream \<Rightarrow> stream_result \<Rightarrow> exec_stream \<Rightarrow> nat \<Rightarrow> bool" where
  "relayed c es bs st res st' k \<longleftrightarrow>
     k \<le> length es \<and> xs_out st' = xs_out st @ event_lines (take k es) \<and> xs_room st = xs_room st' + k \<and>
     (case res of
        Completed \<Rightarrow> 0 < k \<and> bs ! (k - 1) \<and> True \<notin> set (take (k - 1) bs)
      | StreamRead \<Rightarrow> True \<notin> set (take k bs) \<and> (length (event_lines es) \<le> c \<longrightarrow> k = length es) \<and>
          xs_lastSeq st' = (if k = 0 then xs_lastSeq st else Some (se_seq (es ! (k - 1))))
      | StreamWrite \<Rightarrow> True \<notin> set (take k bs) \<and> k < length es \<and> xs_room st' = 0
      | StreamPrefix _ \<Rightarrow> False)"

lemma relayed_Cons:
  assumes "relayed (c - length (line_of e)) es bs
      (st\<lparr>xs_lastSeq := Some (se_seq e), xs_out := xs_out st @ line_of e, xs_room := room\<rparr>) res st' k"
    and "xs_room st = Suc room"
  shows "relayed c (e # es) (False # bs) st res st' (Suc k)"
  using assms by (cases k) (auto simp: relayed_def split: stream_result.splits)

lemma stream_events:
  assumes "list_all2 good_event es bs"
  shows "\<exists>k. relayed c es bs st (fst (streamNDJSON (take c (event_lines es)) st)) (snd (streamNDJSON (take c (event_lines es)) st)) k"
  using assms
proof (induction es bs arbitrary: c st rule: list_all2_induct)
  case Nil
  have "streamNDJSON [] st = (StreamRead, st)" by (simp add: streamNDJSON.simps ReadBytes_def)
  then show ?case by (auto simp: relayed_def)
next
  case (Cons e es b bs)
  from Cons(1) obtain t where e: "newline \<notin> set (se_data e)" "execEventPrefix (line_of e) = Inr (se_seq e, t)"
    "isTerminalEvent t = b" by (auto simp: good_event_def)
  define src where "src = take c (line_of e @ event_lines es)"
  have rb: "ReadBytes src = (if length (line_of e) \<le> c then Some (line_of e, take (c - length (line_of e)) (event_lines es)) else None)"
    unfolding src_def by (rule ReadBytes_cut [OF e(1)])
  have "\<exists>k. relayed c (e # es) (b # bs) st (fst (streamNDJSON src st)) (snd (streamNDJSON src st)) k"
  proof (cases "length (line_of e) \<le> c \<and> xs_room st \<noteq> 0")
    case False
    then have "streamNDJSON src st = (StreamRead, st) \<and> \<not> length (line_of e) \<le> c \<or>
        streamNDJSON src st = (StreamWrite, st\<lparr>xs_lastSeq := Some (se_seq e)\<rparr>) \<and> xs_room st = 0"
      using e by (auto simp: streamNDJSON.simps [of src] rb)
    then have "relayed c (e # es) (b # bs) st (fst (streamNDJSON src st)) (snd (streamNDJSON src st)) 0"
      by (auto simp: relayed_def)
    then show ?thesis by auto
  next
    case True
    then obtain room where room: "xs_room st = Suc room" by (cases "xs_room st") auto
    define st1 where "st1 = st\<lparr>xs_lastSeq := Some (se_seq e), xs_out := xs_out st @ line_of e, xs_room := room\<rparr>"
    define src1 where "src1 = take (c - length (line_of e)) (event_lines es)"
    have s: "streamNDJSON src st = (if b then (Completed, st1) else streamNDJSON src1 st1)"
      using e True room by (simp add: streamNDJSON.simps [of src] rb st1_def src1_def)
    show ?thesis
    proof (cases b)
      case True
      then have "relayed c (e # es) (b # bs) st (fst (streamNDJSON src st)) (snd (streamNDJSON src st)) (Suc 0)"
        unfolding s by (simp add: relayed_def st1_def room)
      then show ?thesis by auto
    next
      case False
      from Cons(3) obtain k where
        "relayed (c - length (line_of e)) es bs st1 (fst (streamNDJSON src1 st1)) (snd (streamNDJSON src1 st1)) k"
        unfolding src1_def by blast
      from relayed_Cons [OF this [unfolded st1_def] room, folded st1_def] show ?thesis
        unfolding s using False by auto
    qed
  qed
  then show ?case by (simp only: src_def event_lines_simps)
qed

section \<open>Relaying a history\<close>

definition known_event :: "Response \<Rightarrow> bool" where
  "known_event r \<longleftrightarrow>
     re_Type r \<in> {ResponseTypeStarted, ResponseTypeStdout, ResponseTypeStderr, ResponseTypeExit, ResponseTypeError}"

lemma numbered_good: "list_all known_event rs \<Longrightarrow> list_all2 good_event (numbered rs) (map isTerminal rs)"
proof (induction rs rule: rev_induct)
  case (snoc r rs)
  let ?r = "r\<lparr>re_Seq := Some (of_nat (length rs))\<rparr>"
  have "known_event ?r" using snoc.prems by (simp add: known_event_def)
  then have "newline \<notin> set (marshalResponse ?r)"
    "execEventPrefix (marshalResponse ?r @ [newline]) = Inr (of_nat (length rs), re_Type r)"
    "isTerminalEvent (re_Type r) = isTerminal r"
    using event_line_parts [of ?r "of_nat (length rs)"] by (auto simp: known_event_def isTerminal_def)
  then have "good_event \<lparr>se_seq = of_nat (length rs), se_data = marshalResponse ?r\<rparr> (isTerminal r)"
    by (simp add: good_event_def line_of_def)
  with snoc show ?case by (simp add: numbered_snoc list_all2_appendI)
qed (simp add: numbered_def)

text \<open>The client has the first \<open>k\<close> events and the resumption would ask for the next one.\<close>

definition in_step :: "Response list \<Rightarrow> nat \<Rightarrow> exec_stream \<Rightarrow> bool" where
  "in_step rs k st \<longleftrightarrow> k \<le> length rs \<and> xs_out st = event_lines (take k (numbered rs)) \<and>
     wanted (xs_lastSeq st) = k \<and> in_range (xs_lastSeq st) \<and> \<not> list_ex isTerminal (take k rs)"

text \<open>The client has the first events, none after the terminal one.\<close>

definition delivered :: "Response list \<Rightarrow> exec_stream \<Rightarrow> bool" where
  "delivered rs st \<longleftrightarrow>
     (\<exists>k \<le> length rs. xs_out st = event_lines (take k (numbered rs)) \<and> \<not> list_ex isTerminal (take (k - 1) rs))"

text \<open>The client has everything, down to the terminal event.\<close>

definition finished :: "Response list \<Rightarrow> exec_stream \<Rightarrow> bool" where
  "finished rs st \<longleftrightarrow>
     (\<exists>k < length rs. isTerminal (rs ! k) \<and> \<not> list_ex isTerminal (take k rs) \<and>
        xs_out st = event_lines (take (Suc k) (numbered rs)))"

lemma finished_delivered: "finished rs st \<Longrightarrow> delivered rs st"
  unfolding finished_def delivered_def by (metis Suc_leI diff_Suc_1)

lemma in_step_delivered: "in_step rs k st \<Longrightarrow> delivered rs st"
  unfolding in_step_def delivered_def
  by (metis (no_types) append_take_drop_id diff_le_self list_ex_append min.absorb1 take_take)

lemma take_more:
  assumes "k \<le> length (drop a (take m xs))"
  shows "take a xs @ take k (drop a (take m xs)) = take (a + k) xs"
proof (cases "k = 0")
  case False
  with assms have "a + k \<le> m" by auto
  then have "take k (drop a (take m xs)) = take k (drop a xs)"
    unfolding drop_take take_take by (simp add: min_def)
  then show ?thesis by (simp add: take_add)
qed simp

lemma nth_drop_take: "j < length (drop a (take m xs)) \<Longrightarrow> drop a (take m xs) ! j = xs ! (a + j)"
  by (subst nth_drop) (auto simp: min_def split: if_splits)

lemma wanted_seq:
  assumes "k < length rs" "length rs < 2 ^ 63"
  shows "wanted (Some (se_seq (numbered rs ! k))) = Suc k" "in_range (Some (se_seq (numbered rs ! k)))"
  using assms by (simp_all add: wanted_def in_range_def numbered_nth unat_of_nat64)

lemma any_terminal: "True \<in> set (map isTerminal rs) \<longleftrightarrow> list_ex isTerminal rs"
  by (induction rs) auto

lemma stream_step:
  assumes "length rs < 2 ^ 63" "list_all known_event rs" "in_step rs a st"
    and s: "streamNDJSON (take c (event_lines (drop a (take m (numbered rs))))) st = (res, st')"
  shows "case res of
      Completed \<Rightarrow> finished rs st'
    | StreamRead \<Rightarrow> (\<exists>k. in_step rs k st' \<and> xs_room st + a = xs_room st' + k \<and>
        (length (event_lines (drop a (take m (numbered rs)))) \<le> c \<longrightarrow> min m (length rs) \<le> k))
    | StreamWrite \<Rightarrow> delivered rs st' \<and> xs_room st + a < length rs
    | StreamPrefix _ \<Rightarrow> False"
proof -
  let ?es = "drop a (take m (numbered rs))" and ?bs = "map isTerminal (drop a (take m rs))"
  have "?bs = drop a (take m (map isTerminal rs))" by (simp add: take_map drop_map)
  then have "list_all2 good_event ?es ?bs"
    using numbered_good [OF assms(2)] by (simp only: list_all2_takeI list_all2_dropI)
  from stream_events [OF this, of c st] obtain k where rel: "relayed c ?es ?bs st res st' k" unfolding s by auto
  have k: "k \<le> length ?es" "k \<le> length (drop a (take m rs))" using rel by (auto simp: relayed_def)
  have ak: "a + k \<le> length rs" using k assms(3) by (auto simp: in_step_def)
  have out: "xs_out st' = event_lines (take (a + k) (numbered rs))"
    using rel assms(3) take_more [OF k(1)] unfolding relayed_def in_step_def by (metis event_lines_simps(3))
  have bs: "take j ?bs = map isTerminal (take j (drop a (take m rs)))" for j by (simp add: take_map)
  have split: "take (a + j) rs = take a rs @ take j (drop a (take m rs))" if "j \<le> k" for j
    by (rule take_more [OF order_trans [OF that k(2)], symmetric])
  have "\<not> list_ex isTerminal (take a rs)" using assms(3) by (simp add: in_step_def)
  then have pre: "list_ex isTerminal (take (a + j) rs) \<longleftrightarrow> True \<in> set (take j ?bs)" if "j \<le> k" for j
    unfolding bs any_terminal split [OF that] by simp
  have nth: "?es ! j = numbered rs ! (a + j)" "?bs ! j = isTerminal (rs ! (a + j))" if "j < k" for j
    using that k nth_drop_take [of j a m "numbered rs"] nth_drop_take [of j a m rs] by auto
  show ?thesis
  proof (cases res)
    case Completed
    then obtain j where j: "k = Suc j" "?bs ! j" "True \<notin> set (take j ?bs)"
      using rel by (cases k) (auto simp: relayed_def)
    then show ?thesis
      using Completed pre [of j] nth(2) [of j] ak out by (auto simp: finished_def intro!: exI [of _ "a + j"])
  next
    case StreamRead
    have "wanted (xs_lastSeq st') = a + k \<and> in_range (xs_lastSeq st')"
    proof (cases k)
      case 0
      then show ?thesis using rel StreamRead assms(3) by (simp add: relayed_def in_step_def)
    next
      case (Suc j)
      then have "xs_lastSeq st' = Some (se_seq (numbered rs ! (a + j)))"
        using rel StreamRead nth(1) [of j] by (simp add: relayed_def)
      then show ?thesis using wanted_seq [of "a + j" rs] assms(1) ak Suc by simp
    qed
    moreover have "\<not> list_ex isTerminal (take (a + k) rs)"
      using pre [of k] rel StreamRead by (simp add: relayed_def)
    ultimately have step: "in_step rs (a + k) st'" using ak out by (simp add: in_step_def)
    have "min m (length rs) \<le> a + k" if "length (event_lines ?es) \<le> c"
      using rel StreamRead that by (simp add: relayed_def)
    moreover have "xs_room st + a = xs_room st' + (a + k)" using rel by (simp add: relayed_def)
    ultimately show ?thesis unfolding StreamRead stream_result.case using step by blast
  next
    case (StreamPrefix e)
    then show ?thesis using rel by (simp add: relayed_def)
  next
    case StreamWrite
    then have "\<not> list_ex isTerminal (take (a + k) rs)" using pre [of k] rel by (simp add: relayed_def)
    then have "\<not> list_ex isTerminal (take (a + k - 1) rs)"
      by (metis append_take_drop_id diff_le_self list_ex_append min.absorb1 take_take)
    then show ?thesis using StreamWrite ak out rel by (auto simp: delivered_def relayed_def)
  qed
qed

section \<open>A daemon behind unreliable connections\<close>

text \<open>
  One execution with the events \<open>xd_events\<close>, in a daemon whose JSON decoder is \<open>xd_dec\<close> and \<open>xd_nxt\<close>.
  \<open>xd_known\<close> is how far it had come when the client asked for it, if a request had started it before.
  Each request meets one connection: it is refused, or the daemon finds the log with the given
  numbers of events while it serves it, and the given number of bytes arrive.
\<close>

record exec_source =
  xd_execID :: string
  xd_events :: "Response list"
  xd_maxBytes :: int
  xd_known :: "nat option"
  xd_now :: int
  xd_dec :: "string \<Rightarrow> string + execRequest \<times> string"
  xd_nxt :: "string \<Rightarrow> json_next"

datatype conn = ConnRefused string | Conn "nat list" nat

definition source_log :: "exec_source \<Rightarrow> nat \<Rightarrow> Execution" where
  "source_log h = log_at (xd_now h) (xd_execID h) (xd_maxBytes h) (xd_events h)"

definition source_manager :: "exec_source \<Rightarrow> (string \<rightharpoonup> Execution) \<Rightarrow> ExecManager" where
  "source_manager h m = \<lparr>em_executions = m, em_maxEventBytes = xd_maxBytes h, em_execRetainPeriod = 0\<rparr>"

definition daemon_serve :: "exec_source \<Rightarrow> nat list \<Rightarrow> daemon_request \<Rightarrow> daemon_response" where
  "daemon_serve h ns q =
     (let seen = map (source_log h) ns in
      case mux_dispatch daemon_routes (dq_method q) (dq_path q) of
        MuxFound r vals \<Rightarrow>
          (if r = DaemonPostExec
           then fst (postExecution (xd_dec h) (xd_nxt h) (xd_now h) [] seen (dq_body q)
                      (source_manager h (case xd_known h of None \<Rightarrow> Map.empty | Some n \<Rightarrow> [xd_execID h \<mapsto> source_log h n])))
           else if r = DaemonGetExec
           then getExecution seen (segValue (pathValue ''exec_id'' vals)) (dq_rawQuery q)
             (source_manager h [xd_execID h \<mapsto> source_log h (hd ns)])
           else daemon_writeError 404 ''not found'')
      | _ \<Rightarrow> daemon_writeError 404 ''not found'')"

fun exec_daemon :: "exec_source \<Rightarrow> daemon_request \<Rightarrow> conn list \<Rightarrow> (daemon_error + daemon_response) \<times> conn list" where
  "exec_daemon h q [] = (Inl (DaemonOther ''connection refused''), [])"
| "exec_daemon h q (ConnRefused msg # w) = (Inl (DaemonOther msg), w)"
| "exec_daemon h q (Conn ns c # w) =
     (let resp = daemon_serve h ns q in (Inr (resp\<lparr>dp_body := take c (dp_body resp)\<rparr>), w))"

fun conn_ok :: "conn \<Rightarrow> bool" where
  "conn_ok (ConnRefused msg) = True"
| "conn_ok (Conn ns c) = (ns \<noteq> [] \<and> sorted ns)"

text \<open>An id the runner can put into a URL as it is.\<close>

definition plain_id :: "string \<Rightarrow> bool" where
  "plain_id i \<longleftrightarrow> plain_seg i \<and> CHR ''?'' \<notin> set i \<and> CHR ''#'' \<notin> set i \<and> CHR ''%'' \<notin> set i"

lemma resumeSuffix_eq: "resumeSuffix i after = ''/executions/'' @ i @ CHR ''?'' # followQuery after"
  by (simp add: resumeSuffix_def followQuery_def)

lemma followQuery_plain: "CHR ''#'' \<notin> set (followQuery after)"
  using itoa_safe(4) by (cases after) (auto simp: followQuery_def)

lemma urlParts_resume:
  assumes "plain_id i" shows "urlParts (resumeSuffix i after) = (''/executions/'' @ i, followQuery after)"
proof -
  have "strCut (CHR ''#'') (resumeSuffix i after) = (resumeSuffix i after, [])"
    using assms followQuery_plain by (intro strCut_none) (auto simp: resumeSuffix_eq plain_id_def)
  moreover have "strCut (CHR ''?'') ((''/executions/'' @ i) @ CHR ''?'' # followQuery after) = (''/executions/'' @ i, followQuery after)"
    using assms by (intro strCut_found) (auto simp: plain_id_def)
  ultimately show ?thesis by (simp add: urlParts_def resumeSuffix_eq)
qed

lemma dispatch_get:
  assumes "plain_seg i"
  shows "mux_dispatch daemon_routes ''GET'' (''/executions/'' @ i) = MuxFound DaemonGetExec [(''exec_id'', i)]"
proof -
  have p: "''/executions/'' @ i = CHR ''/'' # joinSlash [''executions'', i]" by simp
  have "list_all plain_seg [''executions'', i]" using assms by (simp add: plain_seg_def no_slash_def)
  note c = clean_joined [OF this, simplified]
  have "find_route daemon_routes ''GET'' [''executions'', i] = Some (DaemonGetExec, [(''exec_id'', i)])"
    using assms by (simp add: daemon_routes_def method_matches_def plain_seg_def)
  then show ?thesis unfolding p using c by (simp add: mux_dispatch_def)
qed

lemma serve_get:
  assumes "plain_id (xd_execID h)"
  shows "daemon_serve h ns (execRequestTo base ''GET'' (resumeSuffix (xd_execID h) after) hd0 b) =
     (if HasHistory after (source_log h (hd ns)) then ndjsonResponse (snd (Follow after (map (source_log h) ns)))
      else daemon_writeError 410 ''requested event history is no longer retained'')"
proof -
  have "plain_seg (xd_execID h)" "segValue (xd_execID h) = xd_execID h" using assms by (simp_all add: plain_id_def segValue_plain)
  with dispatch_get [OF this(1)] show ?thesis
    by (simp add: daemon_serve_def execRequestTo_def urlParts_resume [OF assms] getExecution_follow pathValue_def
        GetExec_def source_manager_def)
qed

text \<open>
  An id with an escape in it does not stand for itself: the daemon resumes the id it decodes to.
\<close>

lemma escaped_id_resumes_another:
  assumes "xd_execID h = ''a%62''"
  shows "daemon_serve h ns (execRequestTo base ''GET'' (resumeSuffix (xd_execID h) None) hd0 b) =
    daemon_writeError 404 ''execution not found''"
proof -
  have u: "urlParts (resumeSuffix ''a%62'' None) = (''/executions/a%62'', ''follow=true'')" by code_simp
  have d: "mux_dispatch daemon_routes ''GET'' ''/executions/a%62'' = MuxFound DaemonGetExec [(''exec_id'', ''a%62'')]" by code_simp
  have v: "segValue ''a%62'' = ''ab''" by code_simp
  have q: "queryGet ''follow=true'' ''after'' = []" by code_simp
  show ?thesis
    by (simp add: daemon_serve_def execRequestTo_def assms u d v pathValue_def getExecution_def q parseAfterParam_def GetExec_def
        source_manager_def)
qed

lemma serve_post:
  assumes "daemon_serve h ns (execRequestTo base ''POST'' ''/executions'' hd0 b) = resp" and "dp_status resp = 200"
  shows "resp = ndjsonResponse (snd (Follow None (map (source_log h) ns)))"
proof -
  have u: "urlParts ''/executions'' = (''/executions'', [])" by code_simp
  have d: "mux_dispatch daemon_routes ''POST'' ''/executions'' = MuxFound DaemonPostExec []" by code_simp
  show ?thesis
    using assms unfolding daemon_serve_def execRequestTo_def u
    by (auto simp: d postExecution_def daemon_writeError_def Let_def split: sum.splits prod.splits if_splits)
qed

lemma started_HasHistory:
  "GetOrCreate now fresh i (source_manager h m) = (j, started, em) \<Longrightarrow> (\<And>k ex. m k = Some ex \<Longrightarrow> HasHistory None ex) \<Longrightarrow>
   HasHistory None (the (em_executions em j))"
  by (auto simp: GetOrCreate_def source_manager_def Let_def HasHistory_def hasHistoryAfter_def appendEvent_def
      newExecution_def getNextSeq_def split: if_splits)

lemma serve_post_ok:
  assumes "xd_dec h (take maxJSONBodyBytes b) = Inr (req, rest)" "xd_nxt h rest = JsonEOF" "xr_Command req \<noteq> []"
    and "\<And>n. xd_known h = Some n \<Longrightarrow> HasHistory None (source_log h n)"
  shows "daemon_serve h ns (execRequestTo base ''POST'' ''/executions'' hd0 b) =
    ndjsonResponse (snd (Follow None (map (source_log h) ns)))"
proof -
  have u: "urlParts ''/executions'' = (''/executions'', [])" by code_simp
  have d: "mux_dispatch daemon_routes ''POST'' ''/executions'' = MuxFound DaemonPostExec []" by code_simp
  define m where "m = (case xd_known h of None \<Rightarrow> Map.empty | Some n \<Rightarrow> [xd_execID h \<mapsto> source_log h n])"
  have "HasHistory None ex" if "m k = Some ex" for k ex using that assms(4) by (auto simp: m_def split: option.splits if_splits)
  note hist = started_HasHistory [of "xd_now h" "[]" "xr_ExecID req" h m, OF _ this]
  obtain j started em where g: "GetOrCreate (xd_now h) [] (xr_ExecID req) (source_manager h m) = (j, started, em)" by (metis prod_cases3)
  show ?thesis
    using assms(1-3) hist [OF g] unfolding daemon_serve_def execRequestTo_def u
    by (simp add: d postExecution_def decodeJSONBody_def Let_def m_def [symmetric] g)
qed

lemma follow_body:
  assumes "length (xd_events h) < 2 ^ 63" "in_range after" "sorted ns"
  obtains m where "snd (Follow after (map (source_log h) ns)) = map se_data (drop (wanted after) (take m (numbered (xd_events h))))"
proof -
  obtain res out where f: "Follow after (map (source_log h) ns) = (res, out)" by fastforce
  have "\<exists>m. out = map se_data (drop (wanted after) (take m (numbered (xd_events h))))"
    using Follow_run [OF assms(1,2) _ _ f [unfolded source_log_def], of 0] assms(3) by auto
  then show ?thesis using that f by auto
qed

section \<open>Exactly once, across broken connections\<close>

text \<open>The setting of the theorems: a history that fits, behind connections that behave.\<close>

definition exec_setting :: "exec_source \<Rightarrow> conn list \<Rightarrow> bool" where
  "exec_setting h w \<longleftrightarrow> length (xd_events h) < 2 ^ 63 \<and> list_all known_event (xd_events h) \<and> plain_id (xd_execID h) \<and>
     list_all conn_ok w"

lemma exec_daemon_rest: "exec_daemon h q w = (a, w') \<Longrightarrow> exec_setting h w \<Longrightarrow> exec_setting h w'"
  by (cases "(h, q, w)" rule: exec_daemon.cases) (auto simp: exec_setting_def Let_def)

lemma stream_follow:
  assumes "exec_setting h w" "in_step (xd_events h) a st" "sorted ns"
    and "streamNDJSON (take c (dp_body (ndjsonResponse (snd (Follow (xs_lastSeq st) (map (source_log h) ns)))))) st = (res, st')"
  shows "case res of Completed \<Rightarrow> finished (xd_events h) st' | StreamRead \<Rightarrow> (\<exists>k. in_step (xd_events h) k st')
    | StreamWrite \<Rightarrow> delivered (xd_events h) st' | StreamPrefix _ \<Rightarrow> False"
proof -
  have s: "length (xd_events h) < 2 ^ 63" "list_all known_event (xd_events h)" using assms(1) by (auto simp: exec_setting_def)
  have a: "wanted (xs_lastSeq st) = a" "in_range (xs_lastSeq st)" using assms(2) by (auto simp: in_step_def)
  obtain m where m: "snd (Follow (xs_lastSeq st) (map (source_log h) ns)) = map se_data (drop a (take m (numbered (xd_events h))))"
    using follow_body [OF s(1) a(2) assms(3)] a(1) by metis
  have "streamNDJSON (take c (event_lines (drop a (take m (numbered (xd_events h)))))) st = (res, st')"
    using assms(4) unfolding m ndjsonResponse_def by (simp add: ndjson_event_lines)
  from stream_step [OF s assms(2) this] show ?thesis by (auto split: stream_result.splits)
qed

lemma resume_loop_delivers:
  assumes "rv_daemon v = exec_daemon h" "exec_setting h w" "in_step (xd_events h) a st"
    and "resume_loop v x base (xd_execID h) n attempt st w = ((fin, st'), w')"
  shows "delivered (xd_events h) st' \<and> (fin \<longrightarrow> finished (xd_events h) st')"
  using assms(2-)
proof (induction n arbitrary: attempt st w a)
  case 0
  then show ?case using in_step_delivered by auto
next
  case (Suc n)
  let ?q = "execRequestTo base ''GET'' (resumeSuffix (xd_execID h) (xs_lastSeq st)) noHeader []"
  note skip = Suc.IH [OF _ Suc.prems(2)]
  obtain a w1 where d: "exec_daemon h ?q w = (a, w1)" by fastforce
  note rest = exec_daemon_rest [OF d Suc.prems(1)]
  have loop: "resume_loop v x base (xd_execID h) (Suc n) attempt st w = ((fin, st'), w')" by (rule Suc.prems(3))
  show ?case
  proof (cases "\<exists>ns c. w = Conn ns c # w1 \<and> \<not> xv_gone x attempt \<and> rv_urlError v (base @ resumeSuffix (xd_execID h) (xs_lastSeq st)) = None
      \<and> HasHistory (xs_lastSeq st) (source_log h (hd ns))")
    case False
    then have "resume_loop v x base (xd_execID h) (Suc n) attempt st w = ((False, st), w) \<or>
       resume_loop v x base (xd_execID h) (Suc n) attempt st w = resume_loop v x base (xd_execID h) n (Suc attempt) st w \<or>
       resume_loop v x base (xd_execID h) (Suc n) attempt st w = resume_loop v x base (xd_execID h) n (Suc attempt) st w1"
      using d Suc.prems(1) serve_get [of h] unfolding exec_setting_def
      by (cases "(h, ?q, w)" rule: exec_daemon.cases)
        (auto simp: assms(1) Let_def daemon_writeError_def)
    then show ?thesis
      using loop skip [OF Suc.prems(1)] skip [OF rest] in_step_delivered [OF Suc.prems(2)] by auto
  next
    case True
    then obtain ns c where c: "w = Conn ns c # w1" "\<not> xv_gone x attempt"
      "rv_urlError v (base @ resumeSuffix (xd_execID h) (xs_lastSeq st)) = None" "HasHistory (xs_lastSeq st) (source_log h (hd ns))"
      by blast
    have id: "plain_id (xd_execID h)" "sorted ns" using Suc.prems(1) c(1) by (auto simp: exec_setting_def)
    define body where "body = take c (dp_body (ndjsonResponse (snd (Follow (xs_lastSeq st) (map (source_log h) ns)))))"
    obtain res st1 where str: "streamNDJSON body st = (res, st1)" by fastforce
    have st1: "case res of Completed \<Rightarrow> finished (xd_events h) st1 | StreamRead \<Rightarrow> (\<exists>k. in_step (xd_events h) k st1)
      | StreamWrite \<Rightarrow> delivered (xd_events h) st1 | StreamPrefix _ \<Rightarrow> False"
      by (rule stream_follow [OF Suc.prems(1,2) id(2) str [unfolded body_def]])
    have turn: "resume_loop v x base (xd_execID h) (Suc n) attempt st w =
       (if res = Completed then ((True, st1), w1)
        else if \<not> shouldRetryStreamError x (Suc attempt) res then ((False, st1), w1)
        else resume_loop v x base (xd_execID h) n (Suc attempt) st1 w1)"
      using c str [unfolded body_def] by (simp add: assms(1) serve_get [OF id(1)] Let_def ndjsonResponse_def)
    show ?thesis
    proof (cases "res = StreamRead")
      case True
      then obtain k where "in_step (xd_events h) k st1" using st1 by auto
      then show ?thesis
        using loop turn True Suc.IH [OF rest] in_step_delivered by (auto split: if_splits)
    next
      case False
      then show ?thesis using loop turn st1 finished_delivered
        by (auto simp: shouldRetryStreamError_def split: stream_result.splits if_splits)
    qed
  qed
qed

definition exec_id_of :: "exec_env \<Rightarrow> execRequest \<Rightarrow> string" where
  "exec_id_of x body = (if xr_ExecID body = [] then xv_uuid x else xr_ExecID body)"

lemma exec_relay_delivers:
  assumes "rv_daemon v = exec_daemon h" "exec_setting h w" "sorted ns"
    and "exec_relay v x base (xd_execID h) (take c (dp_body (ndjsonResponse (snd (Follow None (map (source_log h) ns)))))) w = ((fin, st), w')"
  shows "delivered (xd_events h) st \<and> (fin \<longrightarrow> finished (xd_events h) st)"
proof -
  define st0 where "st0 = \<lparr>xs_lastSeq = None, xs_out = [], xs_room = xv_room x\<rparr>"
  define body where "body = take c (dp_body (ndjsonResponse (snd (Follow None (map (source_log h) ns)))))"
  have "in_step (xd_events h) 0 st0" by (simp add: in_step_def st0_def wanted_def in_range_def)
  note follow = stream_follow [OF assms(2) this assms(3)]
  obtain res st1 where str: "streamNDJSON body st0 = (res, st1)" by fastforce
  have st1: "case res of Completed \<Rightarrow> finished (xd_events h) st1 | StreamRead \<Rightarrow> (\<exists>k. in_step (xd_events h) k st1)
      | StreamWrite \<Rightarrow> delivered (xd_events h) st1 | StreamPrefix _ \<Rightarrow> False"
    using str follow by (simp add: body_def st0_def)
  have relay: "(if res = Completed then ((True, st1), w)
      else if \<not> shouldRetryStreamError x 0 res then ((False, st1), w)
      else resume_loop v x base (xd_execID h) execMaxRetries 0 st1 w) = ((fin, st), w')"
    using assms(4) str by (simp add: exec_relay_def body_def st0_def)
  show ?thesis
  proof (cases "res = StreamRead")
    case True
    then obtain k where "in_step (xd_events h) k st1" using st1 by auto
    then show ?thesis
      using relay True in_step_delivered resume_loop_delivers [OF assms(1,2)] by (auto split: if_splits)
  next
    case False
    then show ?thesis using relay st1 finished_delivered
      by (auto simp: shouldRetryStreamError_def split: stream_result.splits if_splits)
  qed
qed

text \<open>
  Claim C4. Whatever connections to the daemon break, and wherever in the byte stream they do, the
  client of an execution is sent the events of its history in order and each exactly once: some
  number of them from the first on, and none after the terminal one. This composes the
  runner's retry loop with the daemon's handlers and its trimming log, for an execution that the
  request starts or finds. The id of the execution must be one that stands for itself in a URL: a
  single segment that is not a dot or two and has no slash, question mark, hash or percent sign (an id the runner makes up
  is such a one). A write to the client that fails is taken to have written nothing of its line.
\<close>

theorem exec_stream_exactly_once:
  assumes "rv_daemon v = exec_daemon h" and "exec_setting h w" and "exec_id_of x body = xd_execID h"
    and "exec_start v x base body w = (resp, w')" and "nr_code resp = 200"
  shows "hdrGet (nr_header resp) ''X-Exec-Id'' = xd_execID h \<and>
     (\<exists>k \<le> length (xd_events h). nr_body resp = RunnerRelayed (event_lines (take k (numbered (xd_events h)))) \<and>
        \<not> list_ex isTerminal (take (k - 1) (xd_events h)))"
proof -
  define body' where "body' = (if xr_ExecID body = [] then body\<lparr>xr_ExecID := xv_uuid x\<rparr> else body)"
  have i: "xr_ExecID body' = xd_execID h" using assms(3) by (simp add: body'_def exec_id_of_def split: if_splits)
  from assms(4,5) obtain enc where enc: "xv_marshal x body' = Some enc"
    by (auto simp: exec_start_def body'_def [symmetric] Let_def runner_writeError_def runner_writeJSON_def split: option.splits)
  let ?q = "execRequestTo base ''POST'' ''/executions'' (hdrSet noHeader ''Content-Type'' ''application/json'') enc"
  obtain ns c w1 where w: "w = Conn ns c # w1"
    using assms(1,4,5) enc
    by (cases "(h, ?q, w)" rule: exec_daemon.cases)
      (auto simp: exec_start_def body'_def [symmetric] Let_def runner_writeError_def runner_writeJSON_def split: if_splits)
  define ans where "ans = daemon_serve h ns ?q"
  obtain fin st w2 where relay: "exec_relay v x base (xd_execID h) (take c (dp_body ans)) w1 = ((fin, st), w2)"
    by (metis prod.exhaust)
  have resp: "dp_status ans = 200" "resp = \<lparr>nr_code = 200, nr_header = execHeader (xd_execID h), nr_body = RunnerRelayed (xs_out st)\<rparr>"
    using assms(1,4,5) enc w relay i
    by (auto simp: exec_start_def body'_def [symmetric] ans_def [symmetric] Let_def runner_writeError_def runner_writeJSON_def
        daemonRedirected_def split: if_splits)
  have ans: "ans = ndjsonResponse (snd (Follow None (map (source_log h) ns)))"
    by (rule serve_post [OF ans_def [symmetric] resp(1)])
  have "exec_setting h w1" "sorted ns" using assms(2) w by (auto simp: exec_setting_def)
  from exec_relay_delivers [OF assms(1) this relay [unfolded ans]] show ?thesis
    by (auto simp: resp(2) delivered_def execHeader_def)
qed

text \<open>A first connection that breaks in the middle of a line, and one that reads on to the end.\<close>

definition example_exec_body :: execRequest where
  "example_exec_body = \<lparr>xr_Command = ''ls'', xr_Env = [], xr_WorkDir = [], xr_TimeoutMs = 0, xr_ExecID = ''e''\<rparr>"

definition example_source :: exec_source where
  "example_source = \<lparr>xd_execID = ''e'', xd_events = example_events, xd_maxBytes = 1000, xd_known = None, xd_now = 5,
     xd_dec = (\<lambda>_. Inr (example_exec_body, [])), xd_nxt = (\<lambda>_. JsonEOF)\<rparr>"

definition example_conns :: "conn list" where
  "example_conns = [Conn [1, 2] 80, ConnRefused ''reset'', Conn [2, 3] 1000]"

definition idle_runtime :: "'w runtime" where
  "idle_runtime = \<lparr>rt_Ready = (\<lambda>w. (None, w)), rt_Capacity = (\<lambda>w. (Inl (textErr []), w)),
     rt_CreateSandbox = (\<lambda>_ _ w. (Inl (textErr []), w)), rt_GetSandboxInfo = (\<lambda>_ w. (Inl (textErr []), w)),
     rt_DeleteSandbox = (\<lambda>_ w. (None, w)), rt_StopSandbox = (\<lambda>_ w. (None, w)),
     rt_EnsureSandboxRunning = (\<lambda>_ w. ((\<lparr>wr_Recovered = False\<rparr>, None), w)), rt_DaemonURL = (\<lambda>_ w. (Inr ''http://d'', w))\<rparr>"

definition example_exec_runner :: "conn list runner_env" where
  "example_exec_runner = \<lparr>rv_rt = idle_runtime, rv_daemon = exec_daemon example_source, rv_urlError = (\<lambda>_. None), rv_MaxFileBytes = 10,
     rv_MaxExecTimeout = 0, rv_MaxInflightPerSandbox = 0, rv_APIKeys = []\<rparr>"

definition example_exec_env :: exec_env where
  "example_exec_env = \<lparr>xv_unmarshal = (\<lambda>_. Inr example_exec_body), xv_marshal = (\<lambda>_. Some ''{}''), xv_uuid = ''u'', xv_room = 10,
     xv_done = (\<lambda>_. False), xv_gone = (\<lambda>_. False)\<rparr>"

lemma example_setting: "exec_setting example_source example_conns"
  by (simp add: exec_setting_def example_source_def example_conns_def example_events_def known_event_def
      newStartedResponse_def plain_id_def plain_seg_def no_slash_def)

theorem exec_stream_exactly_once_witness:
  "nr_code (fst (exec_start example_exec_runner example_exec_env ''http://d'' example_exec_body example_conns)) = 200 \<and>
   (\<exists>k \<le> 3. nr_body (fst (exec_start example_exec_runner example_exec_env ''http://d'' example_exec_body example_conns))
      = RunnerRelayed (event_lines (take k (numbered example_events))))"
proof -
  obtain resp w' where s: "exec_start example_exec_runner example_exec_env ''http://d'' example_exec_body example_conns = (resp, w')"
    by fastforce
  have post: "daemon_serve example_source ns (execRequestTo base ''POST'' ''/executions'' hd0 b) =
      ndjsonResponse (snd (Follow None (map (source_log example_source) ns)))" for ns base hd0 b
    by (rule serve_post_ok [where req = example_exec_body and rest = "[]"]) (simp_all add: example_source_def example_exec_body_def)
  have code: "nr_code (fst (exec_start example_exec_runner example_exec_env ''http://d'' example_exec_body example_conns)) = 200"
    by (simp add: exec_start_def example_exec_runner_def example_exec_env_def example_conns_def post example_exec_body_def
        ndjsonResponse_def daemonRedirected_def Let_def split: prod.splits)
  have "rv_daemon example_exec_runner = exec_daemon example_source" by (simp add: example_exec_runner_def)
  moreover have "exec_id_of example_exec_env example_exec_body = xd_execID example_source" by code_simp
  moreover have "xd_events example_source = example_events" "length example_events = 3"
    by (simp_all add: example_source_def example_events_def)
  ultimately show ?thesis
    using exec_stream_exactly_once [OF _ example_setting _ s] code s by auto
qed

section \<open>The stream completes\<close>




lemma appendEvent_max [simp]: "ex_maxEventBytes (appendEvent now r ex) = ex_maxEventBytes ex"
  by (simp add: appendEvent_def getNextSeq_def Let_def split: prod.splits)

lemma log_at_max [simp]: "ex_maxEventBytes (log_at now i maxBytes rs n) = maxBytes"
proof -
  have "ex_maxEventBytes (append_all now qs ex) = ex_maxEventBytes ex" for qs ex
    by (induction qs arbitrary: ex) auto
  then show ?thesis by (simp add: log_at_def newExecution_def)
qed














section \<open>The timeout of an execution\<close>

text \<open>What the runner's configuration admits as the largest timeout: none at all, or at least the default.\<close>

definition valid_max_exec_timeout :: "duration \<Rightarrow> bool" where
  "valid_max_exec_timeout d \<longleftrightarrow> d = 0 \<or> defaultExecTimeout \<le> d \<and> in_int64 d"

lemma exec_timeout_accepted:
  assumes "valid_max_exec_timeout limit" "limit > 0" "\<not> tms > limit div 1000000"
  shows "0 < execTimeout tms \<and> execTimeout tms \<le> limit"
proof (cases "tms > 0")
  case True
  then have "tms * 1000000 \<le> limit" "0 < tms * 1000000" using assms(3) by auto
  moreover from this have "wrap64 (tms * 1000000) = tms * 1000000"
    using assms(1,2) by (intro wrap64_id) (auto simp: valid_max_exec_timeout_def)
  ultimately show ?thesis using True by (simp add: execTimeout_def)
next
  case False
  then show ?thesis using assms(1,2) by (auto simp: execTimeout_def valid_max_exec_timeout_def defaultExecTimeout_def)
qed

text \<open>
  Claim C36. With a limit configured, no execution outlives it: a request the runner accepts makes
  the daemon start its command with a positive timeout of at most the limit, also when the
  request leaves the timeout out. Without a limit, the daemon's conversion to nanoseconds
  overflows and a huge timeout becomes one that has expired already.
\<close>

theorem exec_timeout_bounded:
  "(valid_max_exec_timeout (rv_MaxExecTimeout v) \<and> rv_MaxExecTimeout v > 0 \<and>
      readAndParseRequestBody x r = Inr body \<and> resolveDaemonURL (rv_rt v) True i w = (Inr base, w1) \<longrightarrow>
      (ExecProxyHandler v x i r w =
         (runner_writeError noHeader 400 (''timeout_ms must not exceed '' @ itoaInt (rv_MaxExecTimeout v div 1000000)), w) \<or>
       ExecProxyHandler v x i r w = exec_start v x base body w1 \<and>
         0 < execTimeout (xr_TimeoutMs body) \<and> execTimeout (xr_TimeoutMs body) \<le> rv_MaxExecTimeout v)) \<and>
   execTimeout 9223372036855 < 0"
proof
  have "execTimeout 9223372036855 = - 9223372036854551616" by code_simp
  then show "execTimeout 9223372036855 < 0" by simp
qed (auto simp: ExecProxyHandler_def Let_def dest: exec_timeout_accepted)

definition example_runner_request :: runner_request where
  "example_runner_request = \<lparr>nq_method = ''POST'', nq_path = ''/sandboxes/'' @ example_uuid @ ''/executions'', nq_rawQuery = [],
     nq_header = noHeader, nq_body = ''{}'', nq_bodyErr = None, nq_peerCerts = 1\<rparr>"

theorem exec_timeout_bounded_witness:
  "ExecProxyHandler (example_exec_runner\<lparr>rv_MaxExecTimeout := 900 * second_ns\<rparr>) example_exec_env example_uuid example_runner_request example_conns =
     exec_start (example_exec_runner\<lparr>rv_MaxExecTimeout := 900 * second_ns\<rparr>) example_exec_env ''http://d'' example_exec_body example_conns \<and>
   execTimeout (xr_TimeoutMs example_exec_body) \<le> 900 * second_ns"
proof -
  let ?v = "example_exec_runner\<lparr>rv_MaxExecTimeout := 900 * second_ns\<rparr>"
  have "isValidID example_uuid" by code_simp
  then have url: "resolveDaemonURL (rv_rt ?v) True example_uuid example_conns = (Inr ''http://d'', example_conns)"
    by (simp add: resolveDaemonURL_def example_exec_runner_def idle_runtime_def)
  have body: "readAndParseRequestBody example_exec_env example_runner_request = Inr example_exec_body"
    by (simp add: readAndParseRequestBody_def example_runner_request_def example_exec_env_def execMaxJSONBodyBytes_def)
  have "valid_max_exec_timeout (900 * second_ns)" by code_simp
  moreover have "fst (ExecProxyHandler ?v example_exec_env example_uuid example_runner_request example_conns) \<noteq>
      runner_writeError noHeader 400 (''timeout_ms must not exceed '' @ itoaInt (rv_MaxExecTimeout ?v div 1000000))"
    using url body by (simp add: ExecProxyHandler_def example_exec_body_def exec_start_def example_exec_runner_def example_exec_env_def
        example_conns_def runner_writeError_def runner_writeJSON_def Let_def split: prod.splits)
  ultimately show ?thesis
    using exec_timeout_bounded [of ?v example_exec_env example_runner_request example_exec_body example_uuid example_conns "''http://d''" example_conns]
      url body by auto
qed

end
