(* ===== verification/Fc_Runtime.thy ===== *)
theory Fc_Runtime
  imports Runner_Proxy Wire_Format
begin

text \<open>
  The Firecracker runtime (\<open>internal/runner/runtime/firecracker.ee\<close>): slots, the states of the
  sandboxes and their lifecycle operations. The states are heap cells, since operations keep
  pointers to them across the moments they do not hold the lock; the map from ids gives the cell
  that is tracked. What the host does with a command is in the record \<open>host\<close>; \<open>None\<close> is success.
  Each block the code runs under its lock is a definition of its own, which the theory of the
  interleavings reuses.
\<close>

section \<open>State\<close>

datatype sandboxTransition =
    transitionNone | transitionCreating | transitionStopping | transitionWaking | transitionDeleting

record kernelPin =
  kn_size :: int
  kn_modTime :: int

text \<open>\<open>fs_process\<close> and \<open>fs_proxy\<close> say whether there is a handle.\<close>

record sandboxState =
  fs_id :: string
  fs_vmID :: string
  fs_slot :: int
  fs_netnsName :: string
  fs_socketPath :: string
  fs_daemonURL :: string
  fs_dataDir :: string
  fs_info :: SandboxInfo
  fs_blockEgress :: bool
  fs_kernel :: kernelPin
  fs_process :: bool
  fs_proxy :: bool
  fs_running :: bool
  fs_stopped :: bool
  fs_transition :: sandboxTransition
  fs_generation :: nat
  fs_mustColdBoot :: bool

definition deleting :: "sandboxState \<Rightarrow> bool" where
  "deleting s \<longleftrightarrow> fs_transition s = transitionDeleting"

record slotState =
  sl_sandboxID :: string
  sl_wired :: bool

definition occupied :: "slotState \<Rightarrow> bool" where
  "occupied s \<longleftrightarrow> sl_sandboxID s \<noteq> []"

text \<open>
  \<open>fc_dirty a\<close> is a fact about the disk, not a field of the program: the snapshot in the data
  directory of \<open>a\<close> does not describe its root file system, because the guest may have run since it
  was taken, or because writing it failed half way. \<open>fc_panicked\<close> records a run-time panic.
\<close>

record fc_runtime_state =
  fc_slots :: "slotState list"
  fc_sandboxes :: "string \<rightharpoonup> nat"
  fc_cells :: "nat \<Rightarrow> sandboxState"
  fc_next :: nat
  fc_hostNATOK :: bool
  fc_admissionOK :: bool
  fc_dirty :: "nat \<Rightarrow> bool"
  fc_panicked :: bool

type_synonym fc = fc_runtime_state

record fc_config =
  fg_DataDir :: string
  fg_JailerBaseDir :: string
  fg_TemplateDir :: string
  fg_ProxyListenIP :: string
  fg_ProxyPortStart :: int
  fg_GuestIP :: string
  fg_shortID :: "string \<Rightarrow> string"
  fg_pinText :: "kernelPin \<Rightarrow> string"
  fg_JailerBin :: string
  fg_FirecrackerBin :: string
  fg_SnapshotMemPath :: string
  fg_SnapshotStatePath :: string

record host =
  ho_pathExists :: "string \<Rightarrow> bool"
  ho_ctxErr :: "string option"
  ho_bootParams :: "string option"
  ho_kernel :: "string + kernelPin"
  ho_volume :: "string + int \<times> int"
  ho_memSize :: "string + int"
  ho_cloneRootfs :: "string option"
  ho_cloneGoldenSnapshot :: "string option"
  ho_prepareJail :: "string option"
  ho_hostNAT :: "string option"
  ho_setupScript :: "string option"
  ho_blockEgress :: "string option"
  ho_startJailer :: "string option"
  ho_waitForSocket :: "string option"
  ho_coldBoot :: "string option"
  ho_loadSnapshot :: "string option"
  ho_newProxy :: "string option"
  ho_probeDaemon :: "string option"
  ho_pauseVM :: "string option"
  ho_createSnapshot :: "string option"
  ho_resumeVM :: "string option"
  ho_stopProxy :: "string option"
  ho_kill :: "string option"
  ho_cleanupHost :: "string option"
  ho_clearNetwork :: "string option"
  ho_removeDataDir :: "string option"

section \<open>Slots\<close>

definition fc_cell :: "fc \<Rightarrow> nat \<Rightarrow> sandboxState" where
  "fc_cell r a = fc_cells r a"

definition fc_upd :: "nat \<Rightarrow> (sandboxState \<Rightarrow> sandboxState) \<Rightarrow> fc \<Rightarrow> fc" where
  "fc_upd a f r = r\<lparr>fc_cells := (fc_cells r)(a := f (fc_cells r a))\<rparr>"

definition fc_tracked :: "fc \<Rightarrow> nat \<Rightarrow> bool" where
  "fc_tracked r a \<longleftrightarrow> fc_sandboxes r (fs_id (fc_cell r a)) = Some a"

definition fc_panic :: "fc \<Rightarrow> fc" where
  "fc_panic r = r\<lparr>fc_panicked := True\<rparr>"

definition occupiedSlotsLocked :: "fc \<Rightarrow> nat" where
  "occupiedSlotsLocked r = length (filter occupied (fc_slots r))"

text \<open>The first free slot.\<close>

fun free_slot :: "slotState list \<Rightarrow> nat option" where
  "free_slot [] = None"
| "free_slot (s # ss) = (if occupied s then map_option Suc (free_slot ss) else Some 0)"

definition reserveSlotLocked :: "string \<Rightarrow> fc \<Rightarrow> int \<times> fc" where
  "reserveSlotLocked i r =
     (case free_slot (fc_slots r) of
        None \<Rightarrow> (- 1, r)
      | Some k \<Rightarrow> (int k, r\<lparr>fc_slots := (fc_slots r)[k := (fc_slots r ! k)\<lparr>sl_sandboxID := i\<rparr>]\<rparr>))"

definition releaseSlotLocked :: "int \<Rightarrow> fc \<Rightarrow> fc" where
  "releaseSlotLocked slot r =
     (if slot < 0 \<or> slot \<ge> int (length (fc_slots r)) then fc_panic r
      else r\<lparr>fc_slots := (fc_slots r)[nat slot := (fc_slots r ! nat slot)\<lparr>sl_sandboxID := []\<rparr>]\<rparr>)"

text \<open>Whether the slot is reserved for the sandbox; \<open>None\<close> is the panic of an index out of range.\<close>

definition slotOwnedByLocked :: "int \<Rightarrow> string \<Rightarrow> fc \<Rightarrow> bool option" where
  "slotOwnedByLocked slot i r =
     (if slot < 0 \<or> slot \<ge> int (length (fc_slots r)) then None
      else Some (sl_sandboxID (fc_slots r ! nat slot) = i))"

text \<open>The guarded release that every teardown ends with.\<close>

definition release_own_slot :: "nat \<Rightarrow> fc \<Rightarrow> fc" where
  "release_own_slot a r =
     (let s = fc_cell r a in
      if fs_slot s \<ge> 0
      then (case slotOwnedByLocked (fs_slot s) (fs_id s) r of
              None \<Rightarrow> fc_panic r
            | Some own \<Rightarrow> if own then releaseSlotLocked (fs_slot s) r else r)
      else r)"

section \<open>Names derived from the slot\<close>

definition NetnsName :: "int \<Rightarrow> string" where
  "NetnsName slot = ''fc-sb-'' @ itoaInt slot"

text \<open>\<open>filepath.Join\<close> of an absolute directory and further elements.\<close>

definition pathJoin :: "string list \<Rightarrow> string" where
  "pathJoin parts = cleanRooted (joinSlash parts)"

definition JoinHostPort :: "string \<Rightarrow> string \<Rightarrow> string" where
  "JoinHostPort h p = (if CHR '':'' \<in> set h \<or> CHR ''%'' \<in> set h then ''['' @ h @ '']:'' @ p else h @ '':'' @ p)"

definition socketPathOf :: "fc_config \<Rightarrow> string \<Rightarrow> string" where
  "socketPathOf g vmID = pathJoin [fg_JailerBaseDir g, ''firecracker'', vmID, ''root'', ''firecracker.socket'']"

definition daemonURLOf :: "fc_config \<Rightarrow> int \<Rightarrow> string" where
  "daemonURLOf g slot = ''http://'' @ JoinHostPort (fg_ProxyListenIP g) (itoaInt (fg_ProxyPortStart g + slot))"

definition sandboxDataDir :: "fc_config \<Rightarrow> string \<Rightarrow> string" where
  "sandboxDataDir g i = pathJoin [fg_DataDir g, i]"

definition templateKernelPath :: "fc_config \<Rightarrow> string" where
  "templateKernelPath g = pathJoin [fg_TemplateDir g, ''vmlinux'']"

section \<open>Disk space and kernel\<close>

definition createFloorPercent :: int where "createFloorPercent = 5"
definition stoppedSnapshotHeadroomBytes :: int where "stoppedSnapshotHeadroomBytes = 67108864"

definition checkCreateDiskSpace :: "host \<Rightarrow> rt_error option" where
  "checkCreateDiskSpace h =
     (case ho_volume h of
        Inl e \<Rightarrow> Some (textErr e)
      | Inr (free, totalBytes) \<Rightarrow>
          (let low = totalBytes * createFloorPercent div 100 in
           if free < low
           then Some \<lparr>er_is = [ErrCapacityExhausted],
                  er_text = ''firecracker data volume has '' @ itoaInt (free div 1048576) @ '' MiB free, below its ''
                    @ itoaInt (low div 1048576) @ '' MiB floor: '' @ sentinelText ErrCapacityExhausted\<rparr>
           else None))"

definition ensureDiskSpaceForSnapshot :: "host \<Rightarrow> rt_error option" where
  "ensureDiskSpaceForSnapshot h =
     (case ho_memSize h of
        Inl e \<Rightarrow> Some (textErr (''stat snapshot mem: '' @ e))
      | Inr memBytes \<Rightarrow>
          (let needed = memBytes + stoppedSnapshotHeadroomBytes in
           case ho_volume h of
             Inl e \<Rightarrow> Some (textErr e)
           | Inr (free, totalBytes) \<Rightarrow>
               if free < needed
               then Some (textErr (''insufficient disk space for firecracker snapshot: '' @ itoaInt free @ '' bytes free, ''
                      @ itoaInt needed @ '' needed''))
               else None))"

definition verifyKernelPin :: "fc_config \<Rightarrow> host \<Rightarrow> kernelPin \<Rightarrow> rt_error option" where
  "verifyKernelPin g h pinned =
     (case ho_kernel h of
        Inl e \<Rightarrow> Some (textErr e)
      | Inr current \<Rightarrow>
          if kn_size pinned \<noteq> kn_size current \<or> kn_modTime pinned \<noteq> kn_modTime current
          then Some (textErr (''template kernel '' @ templateKernelPath g @ '' was replaced after this sandbox was created (reserved against ''
             @ fg_pinText g pinned @ '', now '' @ fg_pinText g current
             @ ''), so cold booting it would pair a rebuilt kernel with the rootfs and boot arguments of the build this sandbox belongs to; roll a kernel out by replacing the runner instead of rebuilding the template under a running one''))
          else None)"

section \<open>Network of a slot\<close>

definition ensureHostNATReady :: "host \<Rightarrow> fc \<Rightarrow> rt_error option \<times> fc" where
  "ensureHostNATReady h r =
     (if fc_hostNATOK r then (None, r)
      else case ho_hostNAT h of
        Some e \<Rightarrow> (Some (textErr e), r)
      | None \<Rightarrow> (None, r\<lparr>fc_hostNATOK := True\<rparr>))"

definition set_wired :: "nat \<Rightarrow> bool \<Rightarrow> fc \<Rightarrow> fc" where
  "set_wired k b r = r\<lparr>fc_slots := (fc_slots r)[k := (fc_slots r ! k)\<lparr>sl_wired := b\<rparr>]\<rparr>"

definition setupNetwork :: "host \<Rightarrow> int \<Rightarrow> bool \<Rightarrow> fc \<Rightarrow> rt_error option \<times> fc" where
  "setupNetwork h slot blockEgress r =
     (if slot < 0 \<or> slot \<ge> int (length (fc_slots r)) then (None, fc_panic r) else
      let k = nat slot; build =
        (if sl_wired (fc_slots r ! k) then (None, r)
         else case ensureHostNATReady h r of
           (Some e, r1) \<Rightarrow> (Some (wrapErr ''host NAT not configured'' e), r1)
         | (None, r1) \<Rightarrow>
             (case ho_setupScript h of
                Some e \<Rightarrow> (Some (textErr e), r1)
              | None \<Rightarrow> (None, set_wired k True r1))) in
      case build of
        (Some e, r1) \<Rightarrow> (Some e, r1)
      | (None, r1) \<Rightarrow>
          if \<not> blockEgress then (None, r1)
          else (case ho_blockEgress h of
                  Some e \<Rightarrow> (Some (wrapErr ''block egress'' (textErr e)), r1)
                | None \<Rightarrow> (None, r1)))"

definition unwiredSlots :: "fc \<Rightarrow> nat" where
  "unwiredSlots r = length (filter (\<lambda>s. \<not> sl_wired s) (fc_slots r))"

text \<open>One pass of \<open>wireSlots\<close> over the slots from \<open>k\<close> on; \<open>hs\<close> has the host's answers for each slot.\<close>

fun wire_pass :: "(nat \<Rightarrow> host) \<Rightarrow> nat list \<Rightarrow> fc \<Rightarrow> fc" where
  "wire_pass hs [] r = r"
| "wire_pass hs (k # ks) r =
     (if ho_ctxErr (hs k) \<noteq> None then r
      else if occupied (fc_slots r ! k) then wire_pass hs ks r
      else wire_pass hs ks (snd (setupNetwork (hs k) (int k) False r)))"

definition clearSlotNetwork :: "host \<Rightarrow> int \<Rightarrow> nat option \<Rightarrow> fc \<Rightarrow> rt_error option \<times> fc" where
  "clearSlotNetwork h slot state r =
     (if slot < 0 \<or> slot \<ge> int (length (fc_slots r)) then (None, fc_panic r) else
      let s = fc_slots r ! nat slot; free = (\<not> occupied s);
          ours = (case state of
                    None \<Rightarrow> False
                  | Some a \<Rightarrow> sl_sandboxID s = fs_id (fc_cell r a) \<and>
                      (case fc_sandboxes r (fs_id (fc_cell r a)) of None \<Rightarrow> True | Some current \<Rightarrow> current = a)) in
      if \<not> free \<and> \<not> ours then (None, r)
      else (map_option textErr (ho_clearNetwork h), set_wired (nat slot) False r))"

section \<open>Blocks under the lock\<close>

definition beginTransition :: "string \<Rightarrow> sandboxTransition \<Rightarrow> fc \<Rightarrow> (rt_error + nat) \<times> fc" where
  "beginTransition i want r =
     (case fc_sandboxes r i of
        None \<Rightarrow> (Inl (sentinelErr ErrSandboxNotFound), r)
      | Some a \<Rightarrow>
          if deleting (fc_cell r a) then (Inl (sentinelErr ErrSandboxNotFound), r)
          else if fs_transition (fc_cell r a) = transitionNone
          then (Inr a, fc_upd a (\<lambda>s. s\<lparr>fs_transition := want\<rparr>) r)
          else (Inl (textErr ''context deadline exceeded''), r))"

definition endTransition :: "nat \<Rightarrow> fc \<Rightarrow> fc" where
  "endTransition a r = fc_upd a (\<lambda>s. s\<lparr>fs_transition := transitionNone\<rparr>) r"

definition untrackSandbox :: "nat \<Rightarrow> fc \<Rightarrow> fc" where
  "untrackSandbox a r =
     (if \<not> fc_tracked r a then r
      else release_own_slot a (r\<lparr>fc_sandboxes := (fc_sandboxes r)(fs_id (fc_cell r a) := None)\<rparr>))"

definition reserveWakeSlot :: "fc_config \<Rightarrow> nat \<Rightarrow> fc \<Rightarrow> rt_error option \<times> fc" where
  "reserveWakeSlot g a r =
     (case reserveSlotLocked (fs_id (fc_cell r a)) r of
        (slot, r1) \<Rightarrow>
          if slot < 0 then (Some (textErr ''firecracker runner capacity exhausted''), r1)
          else (None, fc_upd a (\<lambda>s. s\<lparr>fs_slot := slot, fs_netnsName := NetnsName slot,
                 fs_socketPath := socketPathOf g (fs_vmID s), fs_daemonURL := daemonURLOf g slot\<rparr>) r1))"

text \<open>How a stop, a failed resume and a failed wake leave the sandbox: stopped, without slot or handles.\<close>

definition park :: "nat \<Rightarrow> fc \<Rightarrow> fc" where
  "park a r = fc_upd a (\<lambda>s. s\<lparr>fs_slot := - 1, fs_process := False, fs_proxy := False\<rparr>)
     (release_own_slot a (fc_upd a (\<lambda>s. s\<lparr>fs_running := False, fs_stopped := True\<rparr>) r))"

definition activationAbandonedLocked :: "nat \<Rightarrow> fc \<Rightarrow> bool" where
  "activationAbandonedLocked a r \<longleftrightarrow> \<not> fc_tracked r a \<or> deleting (fc_cell r a)"

definition pin_cold_boot :: "nat \<Rightarrow> fc \<Rightarrow> bool \<times> fc" where
  "pin_cold_boot a r = (fs_mustColdBoot (fc_cell r a), fc_upd a (\<lambda>s. s\<lparr>fs_mustColdBoot := True\<rparr>) r)"

definition set_dirty :: "nat \<Rightarrow> bool \<Rightarrow> fc \<Rightarrow> fc" where
  "set_dirty a b r = r\<lparr>fc_dirty := (fc_dirty r)(a := b)\<rparr>"

definition take_handles :: "nat \<Rightarrow> fc \<Rightarrow> fc" where
  "take_handles a r =
     fc_upd a (\<lambda>s. s\<lparr>fs_generation := Suc (fs_generation s), fs_proxy := False, fs_process := False\<rparr>) r"

definition mark_deleting :: "nat \<Rightarrow> fc \<Rightarrow> fc" where
  "mark_deleting a r =
     (if fc_tracked r a then fc_upd a (\<lambda>s. s\<lparr>fs_running := False, fs_transition := transitionDeleting\<rparr>) r else r)"

definition unmark_deleting :: "nat \<Rightarrow> fc \<Rightarrow> fc" where
  "unmark_deleting a r = (if fc_tracked r a then fc_upd a (\<lambda>s. s\<lparr>fs_transition := transitionNone\<rparr>) r else r)"

definition reserve_state :: "fc_config \<Rightarrow> string \<Rightarrow> bool \<Rightarrow> kernelPin \<Rightarrow> int \<Rightarrow> sandboxState" where
  "reserve_state g i blockEgress kern slot =
     (let vmID = ''sandbox-'' @ fg_shortID g i in
      \<lparr>fs_id = i, fs_vmID = vmID, fs_slot = slot, fs_netnsName = NetnsName slot, fs_socketPath = socketPathOf g vmID,
       fs_daemonURL = daemonURLOf g slot, fs_dataDir = sandboxDataDir g i,
       fs_info = \<lparr>si_ID = i, si_Name = vmID, si_IP = fg_GuestIP g\<rparr>, fs_blockEgress = blockEgress, fs_kernel = kern,
       fs_process = False, fs_proxy = False, fs_running = False, fs_stopped = False, fs_transition = transitionCreating,
       fs_generation = 0, fs_mustColdBoot = False\<rparr>)"

definition reserve_locked :: "fc_config \<Rightarrow> string \<Rightarrow> bool \<Rightarrow> kernelPin \<Rightarrow> rt_error option \<Rightarrow> fc \<Rightarrow> (rt_error + nat) \<times> fc" where
  "reserve_locked g i blockEgress kern diskErr r =
     (if fc_sandboxes r i \<noteq> None then (Inl (textErr (''sandbox already exists: '' @ i)), r)
      else if diskErr \<noteq> None \<and> occupiedSlotsLocked r < length (fc_slots r) then (Inl (the diskErr), r)
      else case reserveSlotLocked i r of
        (slot, r1) \<Rightarrow>
          if slot < 0
          then (Inl \<lparr>er_is = [ErrCapacityExhausted], er_text = ''firecracker '' @ sentinelText ErrCapacityExhausted\<rparr>, r1)
          else (Inr (fc_next r1),
                r1\<lparr>fc_cells := (fc_cells r1)(fc_next r1 := reserve_state g i blockEgress kern slot),
                   fc_dirty := (fc_dirty r1)(fc_next r1 := False),
                   fc_sandboxes := (fc_sandboxes r1)(i \<mapsto> fc_next r1), fc_next := Suc (fc_next r1)\<rparr>))"

definition reserveSandbox :: "fc_config \<Rightarrow> host \<Rightarrow> string \<Rightarrow> bool \<Rightarrow> fc \<Rightarrow> (rt_error + nat) \<times> fc" where
  "reserveSandbox g h i blockEgress r =
     (case ho_bootParams h of
        Some e \<Rightarrow> (Inl (textErr e), r)
      | None \<Rightarrow>
          (case ho_kernel h of
             Inl e \<Rightarrow> (Inl (textErr e), r)
           | Inr kern \<Rightarrow> reserve_locked g i blockEgress kern (checkCreateDiskSpace h) r))"

section \<open>Tearing down and activating\<close>

definition joinErrors :: "rt_error list \<Rightarrow> rt_error option" where
  "joinErrors errs = (case errs of [] \<Rightarrow> None | e # _ \<Rightarrow> Some e)"

definition err_if :: "bool \<Rightarrow> string \<Rightarrow> string option \<Rightarrow> rt_error list" where
  "err_if b msg e = (if b then (case e of None \<Rightarrow> [] | Some t \<Rightarrow> [wrapErr msg (textErr t)]) else [])"

definition containsProcessFinished :: "string option \<Rightarrow> bool" where
  "containsProcessFinished e \<longleftrightarrow> e = Some ''process already finished'' \<or> e = Some ''os: process already finished''"

definition teardownRunningVM :: "host \<Rightarrow> nat \<Rightarrow> fc \<Rightarrow> rt_error option \<times> fc" where
  "teardownRunningVM h a r =
     (let s = fc_cell r a; slot = fs_slot s; r1 = take_handles a r;
          (clearErr, r2) = (if slot \<ge> 0 then clearSlotNetwork h slot (Some a) r1 else (None, r1)) in
      (joinErrors
         (err_if (fs_proxy s) ''stop daemon proxy'' (ho_stopProxy h) @
          err_if (fs_process s \<and> \<not> containsProcessFinished (ho_kill h)) ''kill firecracker process'' (ho_kill h) @
          err_if True ''cleanup firecracker host state'' (ho_cleanupHost h) @
          (case clearErr of None \<Rightarrow> [] | Some e \<Rightarrow> [wrapErr (''clear slot '' @ itoaInt slot @ '' network'') e])), r2))"

definition startGuest :: "fc_config \<Rightarrow> host \<Rightarrow> nat \<Rightarrow> fc \<Rightarrow> rt_error option \<times> fc" where
  "startGuest g h a r =
     (case pin_cold_boot a r of
        (coldBoot, r1) \<Rightarrow>
          if coldBoot
          then (case verifyKernelPin g h (fs_kernel (fc_cell r1 a)) of
                  Some e \<Rightarrow> (Some e, r1)
                | None \<Rightarrow>
                    (map_option (\<lambda>e. wrapErr ''cold boot firecracker vm'' (textErr e)) (ho_coldBoot h), set_dirty a True r1))
          else (map_option (\<lambda>e. wrapErr ''load firecracker snapshot'' (textErr e)) (ho_loadSnapshot h), set_dirty a True r1))"

definition errActivationAbandoned :: rt_error where
  "errActivationAbandoned = textErr ''sandbox was torn down while its microVM was starting''"

definition activateSandboxVM :: "fc_config \<Rightarrow> host \<Rightarrow> nat \<Rightarrow> fc \<Rightarrow> rt_error option \<times> fc" where
  "activateSandboxVM g h a r =
     (case ho_prepareJail h of
        Some e \<Rightarrow> (Some (wrapErr ''prepare firecracker jail'' (textErr e)), r)
      | None \<Rightarrow>
      (case setupNetwork h (fs_slot (fc_cell r a)) (fs_blockEgress (fc_cell r a)) r of
        (Some e, r1) \<Rightarrow> (Some (wrapErr ''setup firecracker network'' e), r1)
      | (None, r1) \<Rightarrow>
      (case ho_startJailer h of
        Some e \<Rightarrow> (Some (wrapErr ''start firecracker jailer'' (textErr e)), r1)
      | None \<Rightarrow>
          (let r2 = fc_upd a (\<lambda>s. s\<lparr>fs_process := True\<rparr>) r1 in
           if activationAbandonedLocked a r2 then (Some errActivationAbandoned, r2)
           else case ho_waitForSocket h of
             Some e \<Rightarrow> (Some (wrapErr ''wait for firecracker socket'' (textErr e)), r2)
           | None \<Rightarrow>
           (case startGuest g h a r2 of
             (Some e, r3) \<Rightarrow> (Some e, r3)
           | (None, r3) \<Rightarrow>
           (case ho_newProxy h of
             Some e \<Rightarrow> (Some (wrapErr ''start firecracker daemon proxy'' (textErr e)), r3)
           | None \<Rightarrow>
               (let r4 = fc_upd a (\<lambda>s. s\<lparr>fs_proxy := True\<rparr>) r3 in
                if activationAbandonedLocked a r4 then (Some errActivationAbandoned, r4)
                else (map_option (\<lambda>e. wrapErr ''connect to firecracker daemon'' (textErr e)) (ho_probeDaemon h), r4))))))))"

definition deleteSandbox :: "host \<Rightarrow> nat \<Rightarrow> fc \<Rightarrow> rt_error option \<times> fc" where
  "deleteSandbox h a r =
     (let r1 = mark_deleting a r;
          (teardownErr, r2) = teardownRunningVM h a r1;
          errs = (case teardownErr of None \<Rightarrow> [] | Some e \<Rightarrow> [e]) @
            err_if (fs_dataDir (fc_cell r2 a) \<noteq> []) ''remove sandbox data dir'' (ho_removeDataDir h) in
      case joinErrors errs of
        Some e \<Rightarrow> (Some e, unmark_deleting a r2)
      | None \<Rightarrow> (None, untrackSandbox a r2))"

section \<open>The operations\<close>

definition requiredPaths :: "fc_config \<Rightarrow> (string \<times> string) list" where
  "requiredPaths g =
     [(''jailer'', fg_JailerBin g), (''firecracker'', fg_FirecrackerBin g),
      (''template rootfs'', pathJoin [fg_TemplateDir g, ''rootfs.ext4'']),
      (''template vmlinux'', pathJoin [fg_TemplateDir g, ''vmlinux'']),
      (''snapshot memory'', fg_SnapshotMemPath g), (''snapshot state'', fg_SnapshotStatePath g)]"

text \<open>\<open>paths\<close> are the required paths in the order the loop over the map visits them.\<close>

definition fc_Ready :: "(string \<times> string) list \<Rightarrow> host \<Rightarrow> fc \<Rightarrow> rt_error option" where
  "fc_Ready paths h r =
     (case List.find (\<lambda>(label, path). \<not> ho_pathExists h path) paths of
        Some (label, path) \<Rightarrow> Some (textErr (''firecracker '' @ label @ '' path does not exist: '' @ path))
      | None \<Rightarrow>
          if length (fc_slots r) = 0 then Some (textErr ''firecracker runtime has no capacity'')
          else if \<not> fc_admissionOK r then Some (textErr ''firecracker admission canary has not passed'')
          else None)"

text \<open>\<open>ids\<close> are the keys of the map of sandboxes, in the order the loop visits them.\<close>

definition fc_Capacity :: "string list \<Rightarrow> fc \<Rightarrow> Capacity" where
  "fc_Capacity ids r =
     \<lparr>cp_Used = int (occupiedSlotsLocked r), cp_Total = int (length (fc_slots r)),
      cp_Stopped = int (length (filter (\<lambda>i. case fc_sandboxes r i of
          None \<Rightarrow> False | Some a \<Rightarrow> \<not> deleting (fc_cell r a) \<and> fs_stopped (fc_cell r a)) ids))\<rparr>"

definition create_cleanup :: "host \<Rightarrow> nat \<Rightarrow> fc \<Rightarrow> fc" where
  "create_cleanup h a r =
     (case deleteSandbox h a r of (None, r1) \<Rightarrow> r1 | (Some _, r1) \<Rightarrow> untrackSandbox a r1)"

definition fc_CreateSandbox :: "fc_config \<Rightarrow> host \<Rightarrow> string \<Rightarrow> bool \<Rightarrow> fc \<Rightarrow> (rt_error + SandboxInfo) \<times> fc" where
  "fc_CreateSandbox g h i blockEgress r =
     (if length i < 12
      then (Inl (textErr (''sandbox ID must be at least 12 characters, got '' @ itoa (length i))), r)
      else case reserveSandbox g h i blockEgress r of
        (Inl e, r1) \<Rightarrow> (Inl e, r1)
      | (Inr a, r1) \<Rightarrow>
          (case ho_cloneRootfs h of
             Some e \<Rightarrow> (Inl (wrapErr ''clone sandbox rootfs'' (textErr e)), create_cleanup h a r1)
           | None \<Rightarrow>
          (case ho_cloneGoldenSnapshot h of
             Some e \<Rightarrow> (Inl (wrapErr ''clone sandbox snapshot assets'' (textErr e)), create_cleanup h a r1)
           | None \<Rightarrow>
          (case activateSandboxVM g h a r1 of
             (Some e, r2) \<Rightarrow> (Inl e, create_cleanup h a r2)
           | (None, r2) \<Rightarrow>
               (let r3 = fc_upd a (\<lambda>s. s\<lparr>fs_running := True, fs_transition := transitionNone\<rparr>) r2 in
                (Inr (fs_info (fc_cell r3 a)), r3))))))"

definition fc_GetSandboxInfo :: "string \<Rightarrow> fc \<Rightarrow> rt_error + SandboxInfo" where
  "fc_GetSandboxInfo i r =
     (case fc_sandboxes r i of
        None \<Rightarrow> Inl (sentinelErr ErrSandboxNotFound)
      | Some a \<Rightarrow> if deleting (fc_cell r a) then Inl (sentinelErr ErrSandboxNotFound) else Inr (fs_info (fc_cell r a)))"

definition fc_DeleteSandbox :: "host \<Rightarrow> string \<Rightarrow> fc \<Rightarrow> rt_error option \<times> fc" where
  "fc_DeleteSandbox h i r =
     (case beginTransition i transitionDeleting r of
        (Inl e, r1) \<Rightarrow> (Some e, r1)
      | (Inr a, r1) \<Rightarrow> deleteSandbox h a r1)"

definition fc_DaemonURL :: "string \<Rightarrow> fc \<Rightarrow> rt_error + string" where
  "fc_DaemonURL i r =
     (case fc_sandboxes r i of
        None \<Rightarrow> Inl (sentinelErr ErrSandboxNotFound)
      | Some a \<Rightarrow>
          (let s = fc_cell r a in
           if deleting s then Inl (sentinelErr ErrSandboxNotFound)
           else if fs_transition s \<noteq> transitionNone \<or> fs_stopped s \<or> \<not> fs_running s
           then Inl (sentinelErr ErrSandboxNotRunning)
           else if fs_daemonURL s = [] then Inl (sentinelErr ErrSandboxNetworkUnavailable)
           else Inr (fs_daemonURL s)))"

definition resumeAfterFailedStop :: "host \<Rightarrow> nat \<Rightarrow> fc \<Rightarrow> fc" where
  "resumeAfterFailedStop h a r =
     (case ho_resumeVM h of
        None \<Rightarrow> r
      | Some _ \<Rightarrow> park a (snd (teardownRunningVM h a r)))"

definition stop_claimed :: "host \<Rightarrow> nat \<Rightarrow> fc \<Rightarrow> rt_error option \<times> fc" where
  "stop_claimed h a r =
     (if fs_stopped (fc_cell r a) then (None, r)
      else if \<not> fs_running (fc_cell r a) then (Some (sentinelErr ErrSandboxNotRunning), r)
      else case ensureDiskSpaceForSnapshot h of
        Some e \<Rightarrow> (Some e, r)
      | None \<Rightarrow>
      (case ho_pauseVM h of
        Some e \<Rightarrow> (Some (wrapErr ''pause firecracker vm'' (textErr e)), resumeAfterFailedStop h a r)
      | None \<Rightarrow>
      (case ho_createSnapshot h of
        Some e \<Rightarrow> (Some (wrapErr ''create firecracker snapshot'' (textErr e)), resumeAfterFailedStop h a (set_dirty a True r))
      | None \<Rightarrow>
          (case teardownRunningVM h a (fc_upd a (\<lambda>s. s\<lparr>fs_mustColdBoot := False\<rparr>) (set_dirty a False r)) of
             (teardownErr, r1) \<Rightarrow> (teardownErr, park a r1)))))"

definition fc_StopSandbox :: "host \<Rightarrow> string \<Rightarrow> fc \<Rightarrow> rt_error option \<times> fc" where
  "fc_StopSandbox h i r =
     (case beginTransition i transitionStopping r of
        (Inl e, r1) \<Rightarrow> (Some e, r1)
      | (Inr a, r1) \<Rightarrow> (case stop_claimed h a r1 of (e, r2) \<Rightarrow> (e, endTransition a r2)))"

definition wake_claimed :: "fc_config \<Rightarrow> host \<Rightarrow> nat \<Rightarrow> fc \<Rightarrow> (bool \<times> rt_error option) \<times> fc" where
  "wake_claimed g h a r =
     (let recovering = fs_mustColdBoot (fc_cell r a) in
      if fs_running (fc_cell r a) then ((False, None), r)
      else if \<not> fs_stopped (fc_cell r a) then ((False, Some (sentinelErr ErrSandboxNotRunning)), r)
      else case reserveWakeSlot g a r of
        (Some e, r1) \<Rightarrow> ((recovering, Some e), r1)
      | (None, r1) \<Rightarrow>
          (case activateSandboxVM g h a r1 of
             (Some e, r2) \<Rightarrow> ((recovering, Some e), park a (snd (teardownRunningVM h a r2)))
           | (None, r2) \<Rightarrow>
               ((recovering, None), fc_upd a (\<lambda>s. s\<lparr>fs_running := True, fs_stopped := False\<rparr>) r2)))"

definition ensureSandboxRunningOnce :: "fc_config \<Rightarrow> host \<Rightarrow> string \<Rightarrow> fc \<Rightarrow> (bool \<times> rt_error option) \<times> fc" where
  "ensureSandboxRunningOnce g h i r =
     (case beginTransition i transitionWaking r of
        (Inl e, r1) \<Rightarrow> ((False, Some e), r1)
      | (Inr a, r1) \<Rightarrow> (case wake_claimed g h a r1 of (res, r2) \<Rightarrow> (res, endTransition a r2)))"

definition fc_EnsureSandboxRunning :: "fc_config \<Rightarrow> host \<Rightarrow> string \<Rightarrow> fc \<Rightarrow> (WakeResult \<times> rt_error option) \<times> fc" where
  "fc_EnsureSandboxRunning g h i r =
     (case ho_ctxErr h of
        Some e \<Rightarrow> ((\<lparr>wr_Recovered = False\<rparr>, Some (textErr e)), r)
      | None \<Rightarrow>
          (case ensureSandboxRunningOnce g h i r of
             ((recovering, err), r1) \<Rightarrow> ((\<lparr>wr_Recovered = recovering\<rparr>, err), r1)))"

definition recordGuestDeath :: "nat \<Rightarrow> nat \<Rightarrow> fc \<Rightarrow> bool" where
  "recordGuestDeath a generation r \<longleftrightarrow> fs_generation (fc_cell r a) = generation"

text \<open>The last block of \<open>handleGuestDeath\<close>.\<close>

definition bury :: "nat \<Rightarrow> fc \<Rightarrow> fc" where
  "bury a r = fc_upd a (\<lambda>s. s\<lparr>fs_slot := - 1\<rparr>)
     (release_own_slot a (fc_upd a (\<lambda>s. s\<lparr>fs_running := False, fs_stopped := True\<rparr>) r))"

definition handleGuestDeath :: "host \<Rightarrow> nat \<Rightarrow> nat \<Rightarrow> fc \<Rightarrow> fc" where
  "handleGuestDeath h died generation r =
     (if \<not> recordGuestDeath died generation r then r
      else case beginTransition (fs_id (fc_cell r died)) transitionStopping r of
        (Inl e, r1) \<Rightarrow> r1
      | (Inr a, r1) \<Rightarrow>
          endTransition a
            (if a \<noteq> died \<or> fs_generation (fc_cell r1 a) \<noteq> generation then r1
             else bury a (snd (teardownRunningVM h a r1))))"

text \<open>\<open>Shutdown\<close>; \<open>order\<close> are the tracked cells in the order the loops visit them.\<close>

fun shutdown_delete :: "(nat \<Rightarrow> host) \<Rightarrow> nat list \<Rightarrow> fc \<Rightarrow> fc" where
  "shutdown_delete hs [] r = r"
| "shutdown_delete hs (a # as) r = shutdown_delete hs as (snd (deleteSandbox (hs a) a r))"

fun shutdown_clear :: "(nat \<Rightarrow> host) \<Rightarrow> nat list \<Rightarrow> fc \<Rightarrow> fc" where
  "shutdown_clear hs [] r = r"
| "shutdown_clear hs (k # ks) r = shutdown_clear hs ks (snd (clearSlotNetwork (hs k) (int k) None r))"

definition shutdown_mark :: "nat list \<Rightarrow> fc \<Rightarrow> nat list \<times> fc" where
  "shutdown_mark order r =
     (let states = filter (\<lambda>a. fc_tracked r a \<and> \<not> deleting (fc_cell r a)) order in
      (states, fold (\<lambda>a. fc_upd a (\<lambda>s. s\<lparr>fs_running := False, fs_transition := transitionDeleting\<rparr>)) states r))"

definition fc_Shutdown :: "(nat \<Rightarrow> host) \<Rightarrow> (nat \<Rightarrow> host) \<Rightarrow> nat list \<Rightarrow> fc \<Rightarrow> fc" where
  "fc_Shutdown hs ks order r =
     (case shutdown_mark order r of
        (states, r1) \<Rightarrow> shutdown_clear ks [0..<length (fc_slots r1)] (shutdown_delete hs states r1))"

definition fc_New :: "int \<Rightarrow> fc" where
  "fc_New capacity =
     \<lparr>fc_slots = replicate (nat capacity) \<lparr>sl_sandboxID = [], sl_wired = False\<rparr>, fc_sandboxes = Map.empty,
      fc_cells = (\<lambda>_. reserve_state
        \<lparr>fg_DataDir = [], fg_JailerBaseDir = [], fg_TemplateDir = [], fg_ProxyListenIP = [], fg_ProxyPortStart = 0, fg_GuestIP = [],
         fg_shortID = (\<lambda>_. []), fg_pinText = (\<lambda>_. []), fg_JailerBin = [], fg_FirecrackerBin = [], fg_SnapshotMemPath = [],
         fg_SnapshotStatePath = []\<rparr> [] False \<lparr>kn_size = 0, kn_modTime = 0\<rparr> (- 1)),
      fc_next = 0, fc_hostNATOK = False, fc_admissionOK = False, fc_dirty = (\<lambda>_. False), fc_panicked = False\<rparr>"

section \<open>The invariant\<close>

definition cell_ok :: "fc_config \<Rightarrow> slotState list \<Rightarrow> sandboxState \<Rightarrow> bool" where
  "cell_ok g sl s \<longleftrightarrow>
     fs_id s \<noteq> [] \<and>
     (fs_slot s \<ge> 0 \<longrightarrow> fs_slot s < int (length sl) \<and> sl_sandboxID (sl ! nat (fs_slot s)) = fs_id s \<and>
        fs_daemonURL s = daemonURLOf g (fs_slot s)) \<and>
     (fs_running s \<longrightarrow> \<not> fs_stopped s \<and> fs_slot s \<ge> 0 \<and> (fs_transition s \<noteq> transitionStopping \<longrightarrow> fs_mustColdBoot s)) \<and>
     (fs_running s \<and> fs_transition s = transitionNone \<longrightarrow> fs_process s \<and> fs_proxy s) \<and>
     (fs_stopped s \<and> fs_transition s \<noteq> transitionWaking \<longrightarrow> fs_slot s < 0)"

text \<open>
  The invariant of the runtime under its lock: the map and the slots agree in both directions, every
  tracked state is consistent, a snapshot that does not fit its disk is pinned away from, and no
  index was out of range.
\<close>

definition fc_wf :: "fc_config \<Rightarrow> fc \<Rightarrow> bool" where
  "fc_wf g r \<longleftrightarrow>
     (\<forall>i a. fc_sandboxes r i = Some a \<longrightarrow> a < fc_next r \<and> fs_id (fc_cell r a) = i \<and> cell_ok g (fc_slots r) (fc_cell r a)) \<and>
     (\<forall>k < length (fc_slots r). occupied (fc_slots r ! k) \<longrightarrow>
        (\<exists>a. fc_sandboxes r (sl_sandboxID (fc_slots r ! k)) = Some a \<and> fs_slot (fc_cell r a) = int k)) \<and>
     (\<forall>a < fc_next r. fc_dirty r a \<longrightarrow> fs_mustColdBoot (fc_cell r a)) \<and> \<not> fc_panicked r"

named_theorems fc_simps

lemma fc_upd_simps [simp]:
  "fc_cell (fc_upd a f r) b = (if a = b then f (fc_cell r b) else fc_cell r b)"
  "fc_slots (fc_upd a f r) = fc_slots r" "fc_sandboxes (fc_upd a f r) = fc_sandboxes r"
  "fc_next (fc_upd a f r) = fc_next r" "fc_dirty (fc_upd a f r) = fc_dirty r"
  "fc_panicked (fc_upd a f r) = fc_panicked r" "fc_hostNATOK (fc_upd a f r) = fc_hostNATOK r"
  "fc_admissionOK (fc_upd a f r) = fc_admissionOK r"
  by (auto simp: fc_upd_def fc_cell_def)

lemma fc_frame_simps [simp]:
  "fc_cell (r\<lparr>fc_slots := sl\<rparr>) b = fc_cell r b" "fc_cell (r\<lparr>fc_sandboxes := m\<rparr>) b = fc_cell r b"
  "fc_cell (r\<lparr>fc_hostNATOK := x\<rparr>) b = fc_cell r b" "fc_cell (r\<lparr>fc_dirty := d\<rparr>) b = fc_cell r b"
  "fc_cell (r\<lparr>fc_next := n\<rparr>) b = fc_cell r b" "fc_cell (r\<lparr>fc_panicked := x\<rparr>) b = fc_cell r b"
  "fc_cell (r\<lparr>fc_cells := c\<rparr>) b = c b"
  by (auto simp: fc_cell_def)

lemma fc_wf_tracked:
  assumes "fc_wf g r" and "fc_sandboxes r i = Some a"
  shows "a < fc_next r" and "fs_id (fc_cell r a) = i" and "cell_ok g (fc_slots r) (fc_cell r a)" and "fc_tracked r a"
  using assms by (auto simp: fc_wf_def fc_tracked_def)

lemma fc_wf_cell:
  assumes "fc_wf g r" and "fc_tracked r a"
  shows "a < fc_next r" and "cell_ok g (fc_slots r) (fc_cell r a)"
  using assms by (auto simp: fc_wf_def fc_tracked_def)

lemma fc_wfI:
  assumes "\<And>i a. fc_sandboxes r i = Some a \<Longrightarrow> a < fc_next r \<and> fs_id (fc_cell r a) = i \<and> cell_ok g (fc_slots r) (fc_cell r a)"
    and "\<And>k. k < length (fc_slots r) \<Longrightarrow> occupied (fc_slots r ! k) \<Longrightarrow>
        \<exists>a. fc_sandboxes r (sl_sandboxID (fc_slots r ! k)) = Some a \<and> fs_slot (fc_cell r a) = int k"
    and "\<And>a. a < fc_next r \<Longrightarrow> fc_dirty r a \<Longrightarrow> fs_mustColdBoot (fc_cell r a)" and "\<not> fc_panicked r"
  shows "fc_wf g r"
  using assms unfolding fc_wf_def by blast

lemma cell_ok_cong:
  assumes "map sl_sandboxID sl = map sl_sandboxID sl'"
  shows "cell_ok g sl s = cell_ok g sl' s"
proof -
  have l: "length sl = length sl'" using assms by (metis length_map)
  have "sl_sandboxID (sl ! k) = sl_sandboxID (sl' ! k)" if "k < length sl" for k
    using assms that l by (metis nth_map)
  then show ?thesis unfolding cell_ok_def using l by auto
qed

text \<open>Only the network flags of the slots change.\<close>

lemma fc_wf_wiring:
  assumes "fc_wf g r" and e: "map sl_sandboxID sl = map sl_sandboxID (fc_slots r)"
    and "fc_cells r' = fc_cells r" "fc_sandboxes r' = fc_sandboxes r" "fc_next r' = fc_next r" "fc_dirty r' = fc_dirty r"
    and "fc_panicked r' = fc_panicked r" "fc_slots r' = sl"
  shows "fc_wf g r'"
proof -
  have l: "length sl = length (fc_slots r)" using e by (metis length_map)
  have n: "sl_sandboxID (sl ! k) = sl_sandboxID (fc_slots r ! k)" if "k < length sl" for k
    using e that l by (metis nth_map)
  have c: "fc_cell r' a = fc_cell r a" for a using assms by (simp add: fc_cell_def)
  show ?thesis
    using assms(1) unfolding fc_wf_def assms(4-8) c cell_ok_cong[OF e] using l n by (auto simp: occupied_def)
qed

lemma fc_wf_upd:
  assumes wf: "fc_wf g r" and tr: "fc_tracked r a"
    and "fs_id (f (fc_cell r a)) = fs_id (fc_cell r a)" "fs_slot (f (fc_cell r a)) = fs_slot (fc_cell r a)"
    and "cell_ok g (fc_slots r) (f (fc_cell r a))"
    and "fc_dirty r a \<Longrightarrow> fs_mustColdBoot (f (fc_cell r a))"
  shows "fc_wf g (fc_upd a f r)"
proof (rule fc_wfI)
  have "fs_slot (fc_cell (fc_upd a f r) b) = fs_slot (fc_cell r b)" for b using assms(4) by auto
  then show "\<exists>b. fc_sandboxes (fc_upd a f r) (sl_sandboxID (fc_slots (fc_upd a f r) ! k)) = Some b \<and>
      fs_slot (fc_cell (fc_upd a f r) b) = int k"
    if "k < length (fc_slots (fc_upd a f r))" "occupied (fc_slots (fc_upd a f r) ! k)" for k
    using wf that by (simp add: fc_wf_def)
qed (use wf assms(3-6) in \<open>auto simp: fc_wf_def\<close>)

lemma fc_wf_dirty:
  assumes "fc_wf g r" and "b \<Longrightarrow> fs_mustColdBoot (fc_cell r a)"
  shows "fc_wf g (set_dirty a b r)"
  using assms by (auto simp: fc_wf_def set_dirty_def)

lemma set_dirty_simps [simp]:
  "fc_cell (set_dirty a b r) = fc_cell r" "fc_slots (set_dirty a b r) = fc_slots r"
  "fc_sandboxes (set_dirty a b r) = fc_sandboxes r" "fc_next (set_dirty a b r) = fc_next r"
  "fc_dirty (set_dirty a b r) = (fc_dirty r)(a := b)" "fc_panicked (set_dirty a b r) = fc_panicked r"
  by (auto simp: set_dirty_def fc_cell_def fun_eq_iff)

lemma fc_tracked_simps [simp]:
  "(fs_id (f (fc_cell r a)) = fs_id (fc_cell r a)) \<Longrightarrow> fc_tracked (fc_upd a f r) b = fc_tracked r b"
  "fc_tracked (set_dirty a c r) b = fc_tracked r b"
  by (auto simp: fc_tracked_def)

section \<open>Releasing and reserving slots\<close>

text \<open>What \<open>release_own_slot\<close> does to a tracked sandbox: the slot it holds becomes free.\<close>

definition free_at :: "int \<Rightarrow> slotState list \<Rightarrow> slotState list" where
  "free_at slot sl = (if slot \<ge> 0 then sl[nat slot := (sl ! nat slot)\<lparr>sl_sandboxID := []\<rparr>] else sl)"

lemma release_own_slot_eq:
  assumes "cell_ok g (fc_slots r) (fc_cell r a)"
  shows "release_own_slot a r = r\<lparr>fc_slots := free_at (fs_slot (fc_cell r a)) (fc_slots r)\<rparr>"
  using assms by (auto simp: release_own_slot_def slotOwnedByLocked_def releaseSlotLocked_def cell_ok_def Let_def free_at_def)

lemma length_free_at [simp]: "length (free_at k sl) = length sl"
  by (simp add: free_at_def)

lemma nth_free_at:
  "j < length sl \<Longrightarrow> sl_sandboxID (free_at k sl ! j) = (if k = int j then [] else sl_sandboxID (sl ! j))"
  by (auto simp: free_at_def nth_list_update)

text \<open>Two tracked sandboxes never hold the same slot.\<close>

lemma slots_injective:
  assumes "fc_wf g r" "fc_tracked r a" "fc_tracked r b" "fs_slot (fc_cell r a) \<ge> 0" "fs_slot (fc_cell r a) = fs_slot (fc_cell r b)"
  shows "a = b"
proof -
  have "fs_id (fc_cell r a) = fs_id (fc_cell r b)"
    using fc_wf_cell(2)[OF assms(1,2)] fc_wf_cell(2)[OF assms(1,3)] assms(4,5) by (auto simp: cell_ok_def)
  then show ?thesis using assms(2,3) by (simp add: fc_tracked_def)
qed

lemma cell_ok_free_at:
  assumes "cell_ok g sl s" and "fs_slot s \<ge> 0 \<Longrightarrow> fs_slot s \<noteq> k"
  shows "cell_ok g (free_at k sl) s"
proof (cases "fs_slot s \<ge> 0")
  case True
  then have "nat (fs_slot s) < length sl" "k \<noteq> int (nat (fs_slot s))" using assms by (auto simp: cell_ok_def)
  then show ?thesis using assms(1) nth_free_at[of "nat (fs_slot s)" sl k] by (auto simp: cell_ok_def)
next
  case False
  then show ?thesis using assms(1) by (auto simp: cell_ok_def)
qed

lemma cell_ok_no_slot: "fs_slot s < 0 \<Longrightarrow> cell_ok g sl s = cell_ok g sl' s"
  by (auto simp: cell_ok_def)

lemma others_after_free:
  assumes wf: "fc_wf g r" and tr: "fc_tracked r a" and "fc_sandboxes r i = Some b" "b \<noteq> a"
  shows "cell_ok g (free_at (fs_slot (fc_cell r a)) (fc_slots r)) (fc_cell r b)"
  using fc_wf_tracked[OF wf assms(3)] slots_injective[OF wf _ tr, of b] assms(4)
  by (intro cell_ok_free_at) auto

lemma holder_after_free:
  assumes wf: "fc_wf g r" and tr: "fc_tracked r a" and j: "j < length (fc_slots r)"
    and oc: "occupied (free_at (fs_slot (fc_cell r a)) (fc_slots r) ! j)"
  shows "\<exists>b. fc_sandboxes r (sl_sandboxID (free_at (fs_slot (fc_cell r a)) (fc_slots r) ! j)) = Some b \<and> b \<noteq> a \<and>
    fs_slot (fc_cell r b) = int j"
proof -
  let ?k = "fs_slot (fc_cell r a)"
  have "?k \<noteq> int j" "sl_sandboxID (free_at ?k (fc_slots r) ! j) = sl_sandboxID (fc_slots r ! j)"
    using oc nth_free_at[OF j, of ?k] by (auto simp: occupied_def split: if_splits)
  moreover from this have "occupied (fc_slots r ! j)" using oc by (simp add: occupied_def)
  ultimately show ?thesis using wf j unfolding fc_wf_def by metis
qed

lemma fc_wf_let_go:
  assumes wf: "fc_wf g r" and tr: "fc_tracked r a"
    and fid: "fs_id (f (fc_cell r a)) = fs_id (fc_cell r a)" and fslot: "fs_slot (f (fc_cell r a)) < 0"
    and fok: "cell_ok g [] (f (fc_cell r a))" and fcold: "fc_dirty r a \<Longrightarrow> fs_mustColdBoot (f (fc_cell r a))"
  shows "fc_wf g (fc_upd a f (r\<lparr>fc_slots := free_at (fs_slot (fc_cell r a)) (fc_slots r)\<rparr>))"
proof (rule fc_wfI)
  let ?r = "fc_upd a f (r\<lparr>fc_slots := free_at (fs_slot (fc_cell r a)) (fc_slots r)\<rparr>)"
  have own: "cell_ok g (fc_slots ?r) (f (fc_cell r a))"
    using fok cell_ok_no_slot[OF fslot] by blast
  show "\<exists>b. fc_sandboxes ?r (sl_sandboxID (fc_slots ?r ! j)) = Some b \<and> fs_slot (fc_cell ?r b) = int j"
    if "j < length (fc_slots ?r)" "occupied (fc_slots ?r ! j)" for j
    using holder_after_free[OF wf tr, of j] that by fastforce
  show "b < fc_next ?r \<and> fs_id (fc_cell ?r b) = i \<and> cell_ok g (fc_slots ?r) (fc_cell ?r b)"
    if "fc_sandboxes ?r i = Some b" for i b
    using that fc_wf_tracked[OF wf, of i b] fid own others_after_free[OF wf tr, of i b] by auto
qed (use wf fcold in \<open>auto simp: fc_wf_def\<close>)

lemma untrackSandbox_eq:
  assumes "fc_wf g r" and "fc_tracked r a"
  shows "untrackSandbox a r = r\<lparr>fc_slots := free_at (fs_slot (fc_cell r a)) (fc_slots r),
           fc_sandboxes := (fc_sandboxes r)(fs_id (fc_cell r a) := None)\<rparr>"
  using fc_wf_cell(2)[OF assms] assms(2)
  by (simp add: untrackSandbox_def release_own_slot_eq)

lemma untrackSandbox_wf:
  assumes wf: "fc_wf g r" and tr: "fc_tracked r a"
  shows "fc_wf g (untrackSandbox a r)"
proof (rule fc_wfI)
  let ?r = "untrackSandbox a r"
  note e = untrackSandbox_eq[OF wf tr]
  show "\<exists>b. fc_sandboxes ?r (sl_sandboxID (fc_slots ?r ! j)) = Some b \<and> fs_slot (fc_cell ?r b) = int j"
    if "j < length (fc_slots ?r)" "occupied (fc_slots ?r ! j)" for j
  proof -
    obtain b where b: "fc_sandboxes r (sl_sandboxID (fc_slots ?r ! j)) = Some b" "b \<noteq> a" "fs_slot (fc_cell r b) = int j"
      using holder_after_free[OF wf tr, of j] \<open>j < _\<close> \<open>occupied _\<close> by (auto simp: e)
    then have "sl_sandboxID (fc_slots ?r ! j) \<noteq> fs_id (fc_cell r a)" using tr by (auto simp: fc_tracked_def)
    then show ?thesis using b by (simp add: e)
  qed
  show "b < fc_next ?r \<and> fs_id (fc_cell ?r b) = i \<and> cell_ok g (fc_slots ?r) (fc_cell ?r b)"
    if "fc_sandboxes ?r i = Some b" for i b
    using that tr fc_wf_tracked[OF wf, of i b] others_after_free[OF wf tr, of i b] by (auto simp: e fc_tracked_def split: if_splits)
qed (use wf in \<open>auto simp: fc_wf_def untrackSandbox_eq[OF wf tr]\<close>)

text \<open>Reserving writes the id into a slot that was free.\<close>

lemma free_slot_Some: "free_slot sl = Some k \<Longrightarrow> k < length sl \<and> \<not> occupied (sl ! k)"
  by (induction sl arbitrary: k) (auto split: if_splits)

lemma free_slot_None: "free_slot sl = None \<longleftrightarrow> length (filter occupied sl) = length sl"
proof (induction sl)
  case (Cons s sl)
  have "length (filter occupied sl) \<noteq> Suc (length sl)" using length_filter_le[of occupied sl] by linarith
  then show ?case using Cons by auto
qed simp

lemma cell_ok_reserve:
  assumes "cell_ok g sl s" and "k < length sl" and "\<not> occupied (sl ! k)"
  shows "cell_ok g (sl[k := (sl ! k)\<lparr>sl_sandboxID := i\<rparr>]) s"
  using assms by (auto simp: cell_ok_def nth_list_update occupied_def)

section \<open>Blocks keep the invariant\<close>

text \<open>An operation on the cell \<open>a\<close> leaves all other cells and map entries alone.\<close>

definition only_touches :: "nat \<Rightarrow> fc \<Rightarrow> fc \<Rightarrow> bool" where
  "only_touches a r r' \<longleftrightarrow>
     (\<forall>b. b \<noteq> a \<longrightarrow> fc_cell r' b = fc_cell r b \<and> fc_dirty r' b = fc_dirty r b) \<and>
     (\<forall>i. i \<noteq> fs_id (fc_cell r a) \<longrightarrow> fc_sandboxes r' i = fc_sandboxes r i) \<and>
     fs_id (fc_cell r' a) = fs_id (fc_cell r a) \<and> fs_kernel (fc_cell r' a) = fs_kernel (fc_cell r a) \<and>
     fs_blockEgress (fc_cell r' a) = fs_blockEgress (fc_cell r a) \<and>
     fc_next r' = fc_next r \<and> length (fc_slots r') = length (fc_slots r)"

text \<open>The assertion that a thread working on \<open>a\<close> keeps: the invariant, \<open>a\<close> tracked, and \<open>Q\<close> of its cell.\<close>

definition at_cell :: "fc_config \<Rightarrow> nat \<Rightarrow> (sandboxState \<Rightarrow> bool) \<Rightarrow> fc \<Rightarrow> fc \<Rightarrow> bool" where
  "at_cell g a Q r0 r \<longleftrightarrow> fc_wf g r \<and> fc_tracked r a \<and> Q (fc_cell r a) \<and> only_touches a r0 r"

definition wiring :: "fc \<Rightarrow> fc \<Rightarrow> bool" where
  "wiring r r' \<longleftrightarrow> fc_cells r' = fc_cells r \<and> fc_sandboxes r' = fc_sandboxes r \<and> fc_next r' = fc_next r \<and>
     fc_dirty r' = fc_dirty r \<and> fc_panicked r' = fc_panicked r \<and>
     map sl_sandboxID (fc_slots r') = map sl_sandboxID (fc_slots r)"

lemma only_touches_refl [simp]: "only_touches a r r"
  by (simp add: only_touches_def)

lemma only_touches_trans: "only_touches a r r1 \<Longrightarrow> only_touches a r1 r2 \<Longrightarrow> only_touches a r r2"
  by (auto simp: only_touches_def)

lemma only_touches_upd:
  "fs_id (f (fc_cell r a)) = fs_id (fc_cell r a) \<Longrightarrow> fs_kernel (f (fc_cell r a)) = fs_kernel (fc_cell r a) \<Longrightarrow>
   fs_blockEgress (f (fc_cell r a)) = fs_blockEgress (fc_cell r a) \<Longrightarrow> only_touches a r (fc_upd a f r)"
  by (simp add: only_touches_def)

lemma only_touches_tracked:
  assumes "only_touches a r r'" and "b \<noteq> a" and "fs_id (fc_cell r b) \<noteq> fs_id (fc_cell r a)"
  shows "fc_tracked r' b = fc_tracked r b"
  using assms by (simp add: only_touches_def fc_tracked_def)

lemma at_cellD:
  assumes "at_cell g a Q r0 r"
  shows "fc_wf g r" "fc_tracked r a" "Q (fc_cell r a)" "only_touches a r0 r" "cell_ok g (fc_slots r) (fc_cell r a)"
  using assms fc_wf_cell by (auto simp: at_cell_def)

lemma at_cell_weaken: "at_cell g a Q r0 r \<Longrightarrow> (\<And>s. Q s \<Longrightarrow> Q' s) \<Longrightarrow> at_cell g a Q' r0 r"
  by (simp add: at_cell_def)

lemma wiring_refl [simp]: "wiring r r"
  by (simp add: wiring_def)

lemma wiring_trans: "wiring r r1 \<Longrightarrow> wiring r1 r2 \<Longrightarrow> wiring r r2"
  by (simp add: wiring_def)

lemma wiring_cell: "wiring r r' \<Longrightarrow> fc_cell r' = fc_cell r"
  by (auto simp: wiring_def fc_cell_def fun_eq_iff)

lemma wiring_length: "wiring r r' \<Longrightarrow> length (fc_slots r') = length (fc_slots r)"
  unfolding wiring_def by (metis length_map)

lemma wiring_wf: "fc_wf g r \<Longrightarrow> wiring r r' \<Longrightarrow> fc_wf g r'"
  unfolding wiring_def by (rule fc_wf_wiring[where sl = "fc_slots r'"]) auto

lemma wiring_touches: "wiring r r' \<Longrightarrow> only_touches a r r'"
  using wiring_cell[of r r'] wiring_length[of r r'] by (simp add: only_touches_def wiring_def)

lemma at_cell_wiring:
  assumes "at_cell g a Q r0 r" and w: "wiring r r'"
  shows "at_cell g a Q r0 r'"
proof -
  note A = at_cellD[OF assms(1)]
  have "fc_tracked r' a" using A(2) w wiring_cell[OF w] by (simp add: fc_tracked_def wiring_def)
  then show ?thesis
    using wiring_wf[OF A(1) w] A(3) wiring_cell[OF w] only_touches_trans[OF A(4) wiring_touches[OF w]]
    by (simp add: at_cell_def)
qed

lemma map_ids_wired: "map sl_sandboxID (sl[k := (sl ! k)\<lparr>sl_wired := b\<rparr>]) = map sl_sandboxID sl"
  by (cases "k < length sl") (auto intro!: nth_equalityI simp: nth_list_update)

lemma set_wired_wiring [simp]: "wiring r (set_wired k b r)"
  by (simp add: wiring_def set_wired_def map_ids_wired)

lemma ensureHostNATReady_wiring: "ensureHostNATReady h r = (e, r') \<Longrightarrow> wiring r r'"
  by (auto simp: ensureHostNATReady_def wiring_def split: if_splits option.splits)

lemma setupNetwork_wiring:
  assumes "setupNetwork h slot eg r = (e, r')" and "0 \<le> slot" "slot < int (length (fc_slots r))"
  shows "wiring r r'"
  using assms wiring_trans[OF ensureHostNATReady_wiring set_wired_wiring] ensureHostNATReady_wiring
  by (auto simp: setupNetwork_def Let_def split: if_splits option.splits prod.splits)

lemma clearSlotNetwork_wiring:
  assumes "clearSlotNetwork h slot st r = (e, r')" and "0 \<le> slot" "slot < int (length (fc_slots r))"
  shows "wiring r r'"
  using assms by (auto simp: clearSlotNetwork_def Let_def split: if_splits)

text \<open>An update of the cell that keeps its id and slot.\<close>

lemma at_cell_upd:
  assumes "at_cell g a Q r0 r"
    and "\<And>s. Q s \<Longrightarrow> cell_ok g (fc_slots r) s \<Longrightarrow> fs_id (f s) = fs_id s \<and> fs_kernel (f s) = fs_kernel s \<and> fs_blockEgress (f s) = fs_blockEgress s \<and> fs_slot (f s) = fs_slot s \<and>
           cell_ok g (fc_slots r) (f s) \<and> (fs_mustColdBoot s \<longrightarrow> fs_mustColdBoot (f s)) \<and> Q' (f s)"
  shows "at_cell g a Q' r0 (fc_upd a f r)"
proof -
  note A = at_cellD[OF assms(1)]
  note F = assms(2)[OF A(3,5)]
  have "fc_dirty r a \<Longrightarrow> fs_mustColdBoot (fc_cell r a)"
    using A(1) fc_wf_cell(1)[OF A(1,2)] by (simp add: fc_wf_def)
  then have "fc_wf g (fc_upd a f r)" using F by (intro fc_wf_upd[OF A(1,2)]) auto
  then show ?thesis
    using F A(2) only_touches_trans[OF A(4) only_touches_upd[of f r a]] by (simp add: at_cell_def)
qed

lemma at_cell_dirty:
  assumes "at_cell g a Q r0 r" and "b \<Longrightarrow> fs_mustColdBoot (fc_cell r a)"
  shows "at_cell g a Q r0 (set_dirty a b r)"
proof -
  note A = at_cellD[OF assms(1)]
  show ?thesis
    using fc_wf_dirty[of g r b a] A assms(2) unfolding at_cell_def by (auto simp: only_touches_def)
qed

text \<open>Letting go of the slot.\<close>

definition let_go :: "nat \<Rightarrow> (sandboxState \<Rightarrow> sandboxState) \<Rightarrow> fc \<Rightarrow> fc" where
  "let_go a f r = fc_upd a f (r\<lparr>fc_slots := free_at (fs_slot (fc_cell r a)) (fc_slots r)\<rparr>)"

lemma at_cell_let_go:
  assumes "at_cell g a Q r0 r"
    and "\<And>s. Q s \<Longrightarrow> cell_ok g (fc_slots r) s \<Longrightarrow> fs_id (f s) = fs_id s \<and> fs_kernel (f s) = fs_kernel s \<and> fs_blockEgress (f s) = fs_blockEgress s \<and> fs_slot (f s) < 0 \<and>
           cell_ok g [] (f s) \<and> (fs_mustColdBoot s \<longrightarrow> fs_mustColdBoot (f s)) \<and> Q' (f s)"
  shows "at_cell g a Q' r0 (let_go a f r)"
proof -
  note A = at_cellD[OF assms(1)]
  note F = assms(2)[OF A(3,5)]
  have "fc_dirty r a \<Longrightarrow> fs_mustColdBoot (fc_cell r a)"
    using A(1) fc_wf_cell(1)[OF A(1,2)] by (simp add: fc_wf_def)
  then have "fc_wf g (let_go a f r)" unfolding let_go_def using F by (intro fc_wf_let_go[OF A(1,2)]) auto
  moreover have "only_touches a r (let_go a f r)" using F by (auto simp: only_touches_def let_go_def)
  ultimately show ?thesis
    using F A(2,4) only_touches_trans by (fastforce simp: at_cell_def fc_tracked_def let_go_def)
qed

lemma release_after_upd:
  assumes "cell_ok g (fc_slots r) (fc_cell r a)"
    and "fs_id (f (fc_cell r a)) = fs_id (fc_cell r a)" "fs_slot (f (fc_cell r a)) = fs_slot (fc_cell r a)"
  shows "fc_upd a f' (release_own_slot a (fc_upd a f r)) = let_go a (\<lambda>s. f' (f s)) r"
proof -
  have "release_own_slot a (fc_upd a f r) = (fc_upd a f r)\<lparr>fc_slots := free_at (fs_slot (fc_cell r a)) (fc_slots r)\<rparr>"
    using assms by (auto simp: release_own_slot_def slotOwnedByLocked_def releaseSlotLocked_def cell_ok_def Let_def free_at_def)
  then show ?thesis by (simp add: let_go_def fc_upd_def fc_cell_def)
qed

lemma park_eq:
  "cell_ok g (fc_slots r) (fc_cell r a) \<Longrightarrow>
   park a r = let_go a (\<lambda>s. s\<lparr>fs_running := False, fs_stopped := True, fs_slot := - 1, fs_process := False, fs_proxy := False\<rparr>) r"
  unfolding park_def by (subst release_after_upd) auto

lemma bury_eq:
  "cell_ok g (fc_slots r) (fc_cell r a) \<Longrightarrow>
   bury a r = let_go a (\<lambda>s. s\<lparr>fs_running := False, fs_stopped := True, fs_slot := - 1\<rparr>) r"
  unfolding bury_def by (subst release_after_upd) auto

definition is_parked :: "sandboxTransition \<Rightarrow> sandboxState \<Rightarrow> bool" where
  "is_parked t s \<longleftrightarrow> fs_stopped s \<and> \<not> fs_running s \<and> fs_slot s < 0 \<and> fs_transition s = t"

lemma at_cell_park:
  assumes "at_cell g a (\<lambda>s. fs_transition s = t) r0 r"
  shows "at_cell g a (\<lambda>s. is_parked t s \<and> \<not> fs_process s \<and> \<not> fs_proxy s) r0 (park a r)"
  unfolding park_eq[OF at_cellD(5)[OF assms]]
  by (rule at_cell_let_go[OF assms]) (auto simp: cell_ok_def is_parked_def)

lemma at_cell_bury:
  assumes "at_cell g a (\<lambda>s. fs_transition s = t \<and> P (fs_mustColdBoot s)) r0 r"
  shows "at_cell g a (\<lambda>s. is_parked t s \<and> P (fs_mustColdBoot s)) r0 (bury a r)"
  unfolding bury_eq[OF at_cellD(5)[OF assms]]
  by (rule at_cell_let_go[OF assms]) (auto simp: cell_ok_def is_parked_def)

text \<open>Reserving for a new sandbox and for a wake.\<close>

lemma reserveSlotLocked_None: "free_slot (fc_slots r) = None \<Longrightarrow> reserveSlotLocked i r = (- 1, r)"
  by (simp add: reserveSlotLocked_def)

lemma reserve_other:
  assumes wf: "fc_wf g r" and k: "free_slot (fc_slots r) = Some k" and "fc_sandboxes r j = Some b"
  shows "cell_ok g ((fc_slots r)[k := (fc_slots r ! k)\<lparr>sl_sandboxID := i\<rparr>]) (fc_cell r b)"
  using fc_wf_tracked(3)[OF wf assms(3)] free_slot_Some[OF k] by (intro cell_ok_reserve) auto

lemma reserve_locked_Inl: "reserve_locked g i eg kern d r = (Inl e, r') \<Longrightarrow> r' = r"
  by (auto simp: reserve_locked_def reserveSlotLocked_def split: if_splits option.splits)

lemma reserve_locked_Inr:
  assumes "reserve_locked g i eg kern d r = (Inr a, r')"
  obtains k where "free_slot (fc_slots r) = Some k" "fc_sandboxes r i = None" "a = fc_next r"
    "r' = r\<lparr>fc_slots := (fc_slots r)[k := (fc_slots r ! k)\<lparr>sl_sandboxID := i\<rparr>],
            fc_cells := (fc_cells r)(a := reserve_state g i eg kern (int k)), fc_dirty := (fc_dirty r)(a := False),
            fc_sandboxes := (fc_sandboxes r)(i \<mapsto> a), fc_next := Suc a\<rparr>"
  using assms by (auto simp: reserve_locked_def reserveSlotLocked_def split: if_splits option.splits)

lemma reserve_state_fields [simp]:
  "fs_id (reserve_state g i eg kern k) = i" "fs_slot (reserve_state g i eg kern k) = k"
  "fs_daemonURL (reserve_state g i eg kern k) = daemonURLOf g k"
  "fs_transition (reserve_state g i eg kern k) = transitionCreating" "\<not> fs_running (reserve_state g i eg kern k)"
  "\<not> fs_stopped (reserve_state g i eg kern k)" "\<not> fs_mustColdBoot (reserve_state g i eg kern k)"
  "fs_info (reserve_state g i eg kern k) = \<lparr>si_ID = i, si_Name = ''sandbox-'' @ fg_shortID g i, si_IP = fg_GuestIP g\<rparr>"
  "\<not> fs_process (reserve_state g i eg kern k)" "\<not> fs_proxy (reserve_state g i eg kern k)"
  "fs_generation (reserve_state g i eg kern k) = 0" "fs_blockEgress (reserve_state g i eg kern k) = eg"
  by (simp_all add: reserve_state_def Let_def)

definition activating :: "sandboxTransition \<Rightarrow> sandboxState \<Rightarrow> bool" where
  "activating t s \<longleftrightarrow> fs_transition s = t \<and> \<not> fs_running s \<and> fs_slot s \<ge> 0 \<and>
     (t = transitionCreating \<and> \<not> fs_stopped s \<or> t = transitionWaking \<and> fs_stopped s)"

text \<open>The common part: the cell \<open>a\<close> gets the free slot \<open>k\<close>.\<close>

lemma fc_wf_take_slot:
  assumes wf: "fc_wf g r" and k: "free_slot (fc_slots r) = Some k"
    and sl: "fc_slots r' = (fc_slots r)[k := (fc_slots r ! k)\<lparr>sl_sandboxID := i\<rparr>]"
    and cell: "\<And>b. fc_cell r' b = (if b = a then s' else fc_cell r b)" and m: "fc_sandboxes r' = (fc_sandboxes r)(i \<mapsto> a)"
    and own: "a < fc_next r'" "fs_id s' = i" "fs_slot s' = int k" "cell_ok g (fc_slots r') s'"
    and nx: "fc_next r \<le> fc_next r'"
    and dirty: "\<And>b. b < fc_next r' \<Longrightarrow> fc_dirty r' b \<Longrightarrow> fs_mustColdBoot (fc_cell r' b)" and "\<not> fc_panicked r'"
    and old: "\<And>j. fc_sandboxes r j = Some a \<Longrightarrow> fs_slot (fc_cell r a) < 0 \<and> j = i"
    and holder: "\<And>b. fc_sandboxes r i = Some b \<Longrightarrow> b = a"
  shows "fc_wf g r'"
proof (rule fc_wfI)
  note fk = free_slot_Some[OF k]
  show "b < fc_next r' \<and> fs_id (fc_cell r' b) = j \<and> cell_ok g (fc_slots r') (fc_cell r' b)"
    if "fc_sandboxes r' j = Some b" for j b
  proof (cases "j = i")
    case True
    then show ?thesis using that own by (simp add: m cell)
  next
    case False
    then have "fc_sandboxes r j = Some b" "b \<noteq> a" using that old[of j] by (auto simp: m)
    then show ?thesis
      using fc_wf_tracked[OF wf, of j b] reserve_other[OF wf k, of j b i] nx unfolding cell sl by auto
  qed
  show "\<exists>b. fc_sandboxes r' (sl_sandboxID (fc_slots r' ! j)) = Some b \<and> fs_slot (fc_cell r' b) = int j"
    if j: "j < length (fc_slots r')" "occupied (fc_slots r' ! j)" for j
  proof (cases "j = k")
    case True
    then show ?thesis using fk own by (simp add: sl m cell)
  next
    case False
    then have e: "fc_slots r' ! j = fc_slots r ! j" by (simp add: sl)
    then obtain b where b: "fc_sandboxes r (sl_sandboxID (fc_slots r ! j)) = Some b" "fs_slot (fc_cell r b) = int j"
      using wf j unfolding fc_wf_def by (auto simp: sl)
    then have "b \<noteq> a" using old by fastforce
    then show ?thesis using b e holder by (auto simp: m cell)
  qed
qed (use dirty assms(12) in auto)

lemma reserve_locked_at:
  assumes wf: "fc_wf g r" and "i \<noteq> []" and res: "reserve_locked g i eg kern d r = (Inr a, r')"
  shows "at_cell g a (activating transitionCreating) r' r' \<and> fc_sandboxes r i = None \<and> a = fc_next r \<and>
    fc_sandboxes r' = (fc_sandboxes r)(i \<mapsto> a) \<and> (\<forall>b < a. fc_cell r' b = fc_cell r b) \<and> fc_next r' = Suc a \<and>
    length (fc_slots r') = length (fc_slots r) \<and> fs_id (fc_cell r' a) = i \<and> fs_blockEgress (fc_cell r' a) = eg"
  using res
proof (rule reserve_locked_Inr)
  fix k assume k: "free_slot (fc_slots r) = Some k" and new: "fc_sandboxes r i = None" and a: "a = fc_next r"
    and r': "r' = r\<lparr>fc_slots := (fc_slots r)[k := (fc_slots r ! k)\<lparr>sl_sandboxID := i\<rparr>],
            fc_cells := (fc_cells r)(a := reserve_state g i eg kern (int k)), fc_dirty := (fc_dirty r)(a := False),
            fc_sandboxes := (fc_sandboxes r)(i \<mapsto> a), fc_next := Suc a\<rparr>"
  have cell: "fc_cell r' b = (if b = a then reserve_state g i eg kern (int k) else fc_cell r b)" for b
    by (simp add: r' fc_cell_def)
  have "fc_wf g r'"
  proof (rule fc_wf_take_slot[OF wf k _ cell])
    show "cell_ok g (fc_slots r') (reserve_state g i eg kern (int k))"
      using free_slot_Some[OF k] assms(2) by (simp add: r' cell_ok_def)
    show "fs_slot (fc_cell r a) < 0 \<and> j = i" if "fc_sandboxes r j = Some a" for j
      using fc_wf_tracked(1)[OF wf that] a by simp
    show "fs_mustColdBoot (fc_cell r' b)" if "b < fc_next r'" "fc_dirty r' b" for b
      using that wf a unfolding cell by (auto simp: r' fc_wf_def split: if_splits)
  qed (use new wf a in \<open>auto simp: r' fc_wf_def\<close>)
  moreover have "fc_tracked r' a" "activating transitionCreating (fc_cell r' a)" "\<forall>b < a. fc_cell r' b = fc_cell r b"
    "fs_id (fc_cell r' a) = i" "fs_blockEgress (fc_cell r' a) = eg"
    unfolding fc_tracked_def cell by (auto simp: r' activating_def)
  ultimately show ?thesis
    using new a by (auto simp: at_cell_def r')
qed

lemma reserveWakeSlot_at:
  assumes "at_cell g a (is_parked transitionWaking) r0 r" and "reserveWakeSlot g a r = (e, r')"
  shows "(e = None \<and> at_cell g a (activating transitionWaking) r0 r') \<or>
         (e \<noteq> None \<and> r' = r)"
proof (cases "free_slot (fc_slots r)")
  case None
  then show ?thesis using assms(2) by (auto simp: reserveWakeSlot_def reserveSlotLocked_def)
next
  case (Some k)
  note A = at_cellD[OF assms(1)]
  let ?i = "fs_id (fc_cell r a)"
  let ?f = "\<lambda>s. s\<lparr>fs_slot := int k, fs_netnsName := NetnsName (int k),
                 fs_socketPath := socketPathOf g (fs_vmID s), fs_daemonURL := daemonURLOf g (int k)\<rparr>"
  have r': "e = None" "r' = fc_upd a ?f (r\<lparr>fc_slots := (fc_slots r)[k := (fc_slots r ! k)\<lparr>sl_sandboxID := ?i\<rparr>]\<rparr>)"
    using assms(2) Some by (auto simp: reserveWakeSlot_def reserveSlotLocked_def)
  have cell: "fc_cell r' b = (if b = a then ?f (fc_cell r a) else fc_cell r b)" for b by (simp add: r'(2))
  have "fc_wf g r'"
  proof (rule fc_wf_take_slot[OF A(1) Some _ cell])
    show "cell_ok g (fc_slots r') (?f (fc_cell r a))"
      using A(3,5) free_slot_Some[OF Some] by (auto simp: cell_ok_def is_parked_def r'(2))
    show "fs_slot (fc_cell r a) < 0 \<and> j = ?i" if "fc_sandboxes r j = Some a" for j
      using fc_wf_tracked[OF A(1) that] A(3) by (auto simp: is_parked_def)
    show "fc_sandboxes r' = (fc_sandboxes r)(?i \<mapsto> a)" using A(2) by (auto simp: r'(2) fc_tracked_def)
    show "fs_mustColdBoot (fc_cell r' b)" if "b < fc_next r'" "fc_dirty r' b" for b
      using that A(1) by (auto simp: r'(2) fc_wf_def)
    show "\<not> fc_panicked r'" using A(1) by (simp add: r'(2) fc_wf_def)
  qed (use A(2) fc_wf_cell(1)[OF A(1,2)] in \<open>auto simp: r'(2) fc_tracked_def\<close>)
  moreover have "only_touches a r r'" by (simp add: only_touches_def r'(2))
  ultimately show ?thesis
    using A r'(1) only_touches_trans by (auto simp: at_cell_def r'(2) fc_tracked_def activating_def is_parked_def)
qed

section \<open>Whole operations keep the invariant\<close>

text \<open>What a stop, wake or delete knows of the sandbox it has just claimed.\<close>

definition claimed :: "sandboxTransition \<Rightarrow> sandboxState \<Rightarrow> bool" where
  "claimed t s \<longleftrightarrow> fs_transition s = t \<and>
     (fs_running s \<longrightarrow> \<not> fs_stopped s \<and> fs_slot s \<ge> 0 \<and> fs_mustColdBoot s \<and> fs_process s \<and> fs_proxy s) \<and>
     (fs_stopped s \<longrightarrow> fs_slot s < 0)"

lemma beginTransition_Inl: "beginTransition i t r = (Inl e, r') \<Longrightarrow> r' = r"
  by (auto simp: beginTransition_def split: option.splits if_splits)

lemma beginTransition_Inr:
  assumes "beginTransition i t r = (Inr a, r')"
  shows "fc_sandboxes r i = Some a" "fs_transition (fc_cell r a) = transitionNone"
    "r' = fc_upd a (\<lambda>s. s\<lparr>fs_transition := t\<rparr>) r"
  using assms by (auto simp: beginTransition_def split: option.splits if_splits)

lemma beginTransition_at:
  assumes "fc_wf g r" and b: "beginTransition i t r = (Inr a, r')" and "t \<noteq> transitionNone"
  shows "at_cell g a (claimed t) r r'"
proof -
  note B = beginTransition_Inr[OF b]
  have "at_cell g a (\<lambda>s. fs_transition s = transitionNone) r r"
    using assms(1) B(1,2) fc_wf_tracked(4) by (simp add: at_cell_def)
  then show ?thesis
    unfolding B(3) by (rule at_cell_upd) (use assms(3) in \<open>auto simp: cell_ok_def claimed_def\<close>)
qed

lemma endTransition_at:
  assumes "at_cell g a (\<lambda>s. Q s \<and> (fs_running s \<longrightarrow> fs_mustColdBoot s \<and> fs_process s \<and> fs_proxy s) \<and> (fs_stopped s \<longrightarrow> fs_slot s < 0)) r0 r"
    and "\<And>s. Q s \<Longrightarrow> Q' (s\<lparr>fs_transition := transitionNone\<rparr>)"
  shows "at_cell g a (\<lambda>s. Q' s \<and> fs_transition s = transitionNone) r0 (endTransition a r)"
  unfolding endTransition_def by (rule at_cell_upd[OF assms(1)]) (use assms(2) in \<open>auto simp: cell_ok_def\<close>)

lemma teardown_at:
  assumes at: "at_cell g a Q r0 r" and td: "teardownRunningVM h a r = (e, r')"
    and nz: "\<And>s. Q s \<Longrightarrow> fs_transition s \<noteq> transitionNone"
    and st: "\<And>s n. Q s \<Longrightarrow> Q' (s\<lparr>fs_generation := n, fs_proxy := False, fs_process := False\<rparr>)"
  shows "at_cell g a Q' r0 r'"
proof -
  have h: "at_cell g a Q' r0 (take_handles a r)"
    unfolding take_handles_def by (rule at_cell_upd[OF at]) (use nz st in \<open>auto simp: cell_ok_def\<close>)
  let ?slot = "fs_slot (fc_cell r a)"
  obtain ce where c: "(if ?slot \<ge> 0 then clearSlotNetwork h ?slot (Some a) (take_handles a r) else (None, take_handles a r)) = (ce, r')"
    using td by (auto simp: teardownRunningVM_def Let_def split: prod.splits if_splits)
  have "?slot < int (length (fc_slots (take_handles a r)))" if "?slot \<ge> 0"
    using at_cellD(5)[OF at] that by (simp add: cell_ok_def take_handles_def)
  then have "wiring (take_handles a r) r'"
    using c clearSlotNetwork_wiring[of h ?slot "Some a" "take_handles a r" ce r'] by (auto split: if_splits)
  then show ?thesis by (rule at_cell_wiring[OF h])
qed

lemma startGuest_at:
  assumes at: "at_cell g a (\<lambda>s. activating t s \<and> fs_process s) r0 r" and sg: "startGuest g h a r = (e, r')"
  shows "at_cell g a (\<lambda>s. activating t s \<and> fs_process s \<and> fs_mustColdBoot s) r0 r'"
proof -
  have p: "at_cell g a (\<lambda>s. activating t s \<and> fs_process s \<and> fs_mustColdBoot s) r0 (fc_upd a (\<lambda>s. s\<lparr>fs_mustColdBoot := True\<rparr>) r)"
    by (rule at_cell_upd[OF at]) (auto simp: cell_ok_def activating_def)
  have "r' = fc_upd a (\<lambda>s. s\<lparr>fs_mustColdBoot := True\<rparr>) r \<or> r' = set_dirty a True (fc_upd a (\<lambda>s. s\<lparr>fs_mustColdBoot := True\<rparr>) r)"
    using sg by (auto simp: startGuest_def pin_cold_boot_def split: if_splits option.splits)
  then show ?thesis using p at_cell_dirty[OF p, of True] by auto
qed

lemma not_abandoned:
  "fc_tracked r a \<Longrightarrow> activating t (fc_cell r a) \<Longrightarrow> \<not> activationAbandonedLocked a r"
  by (auto simp: activationAbandonedLocked_def deleting_def activating_def)

lemma activate_at:
  assumes at: "at_cell g a (activating t) r0 r" and ac: "activateSandboxVM g h a r = (e, r')"
  shows "at_cell g a (\<lambda>s. activating t s \<and> (e = None \<longrightarrow> fs_process s \<and> fs_proxy s \<and> fs_mustColdBoot s)) r0 r'"
proof (cases "ho_prepareJail h")
  case (Some x)
  then show ?thesis using at ac by (auto simp: activateSandboxVM_def at_cell_def)
next
  case jail: None
  obtain ne r1 where net: "setupNetwork h (fs_slot (fc_cell r a)) (fs_blockEgress (fc_cell r a)) r = (ne, r1)" by fastforce
  have at1: "at_cell g a (activating t) r0 r1"
    using at_cellD(3,5)[OF at] by (intro at_cell_wiring[OF at] setupNetwork_wiring[OF net]) (auto simp: activating_def cell_ok_def)
  show ?thesis
  proof (cases "ne = None \<and> ho_startJailer h = None")
    case False
    then show ?thesis using at1 ac jail net by (auto simp: activateSandboxVM_def at_cell_def split: option.splits)
  next
    case True
    let ?r2 = "fc_upd a (\<lambda>s. s\<lparr>fs_process := True\<rparr>) r1"
    have at2: "at_cell g a (\<lambda>s. activating t s \<and> fs_process s) r0 ?r2"
      by (rule at_cell_upd[OF at1]) (auto simp: cell_ok_def activating_def)
    obtain ge r3 where sg: "startGuest g h a ?r2 = (ge, r3)" by fastforce
    note at3 = startGuest_at[OF at2 sg]
    let ?r4 = "fc_upd a (\<lambda>s. s\<lparr>fs_proxy := True\<rparr>) r3"
    have at4: "at_cell g a (\<lambda>s. activating t s \<and> fs_process s \<and> fs_mustColdBoot s \<and> fs_proxy s) r0 ?r4"
      by (rule at_cell_upd[OF at3]) (auto simp: cell_ok_def activating_def)
    have "\<not> activationAbandonedLocked a ?r2" "\<not> activationAbandonedLocked a ?r4"
      using at_cellD(2,3)[OF at2] at_cellD(2,3)[OF at4] not_abandoned by blast+
    then have "(e \<noteq> None \<and> r' = ?r2) \<or> (e \<noteq> None \<and> r' = r3) \<or> r' = ?r4"
      using ac jail net True sg by (auto simp: activateSandboxVM_def Let_def split: option.splits if_splits)
    then show ?thesis
      using at2 at3 at4 by (auto elim: at_cell_weaken)
  qed
qed

text \<open>The sandbox of \<open>a\<close> is gone, everything else as in \<open>r0\<close>.\<close>

definition gone_cell :: "fc_config \<Rightarrow> nat \<Rightarrow> fc \<Rightarrow> fc \<Rightarrow> bool" where
  "gone_cell g a r0 r \<longleftrightarrow> fc_wf g r \<and> only_touches a r0 r \<and> fc_sandboxes r (fs_id (fc_cell r0 a)) = None"

lemma untrack_gone:
  assumes "at_cell g a Q r0 r"
  shows "gone_cell g a r0 (untrackSandbox a r)"
proof -
  note A = at_cellD[OF assms]
  have "only_touches a r (untrackSandbox a r)" by (simp add: untrackSandbox_eq[OF A(1,2)] only_touches_def)
  then show ?thesis
    using untrackSandbox_wf[OF A(1,2)] A(4) only_touches_trans[OF A(4)]
    by (auto simp: gone_cell_def untrackSandbox_eq[OF A(1,2)] only_touches_def)
qed

lemma deleteSandbox_at:
  assumes at: "at_cell g a (\<lambda>s. fs_transition s \<noteq> transitionWaking) r0 r" and del: "deleteSandbox h a r = (e, r')"
  shows "(e = None \<and> gone_cell g a r0 r') \<or> (e \<noteq> None \<and> at_cell g a (\<lambda>s. fs_transition s = transitionNone \<and> \<not> fs_running s) r0 r')"
proof -
  let ?Q = "\<lambda>s. fs_transition s = transitionDeleting \<and> \<not> fs_running s"
  have m: "at_cell g a ?Q r0 (mark_deleting a r)"
    using at_cell_upd[OF at, of "\<lambda>s. s\<lparr>fs_running := False, fs_transition := transitionDeleting\<rparr>" ?Q] at_cellD(2)[OF at]
    by (auto simp: mark_deleting_def cell_ok_def)
  obtain te r2 where td: "teardownRunningVM h a (mark_deleting a r) = (te, r2)" by fastforce
  have t: "at_cell g a ?Q r0 r2"
    by (rule teardown_at[OF m td]) auto
  have u: "at_cell g a (\<lambda>s. fs_transition s = transitionNone \<and> \<not> fs_running s) r0 (unmark_deleting a r2)"
    using at_cell_upd[OF t, of "\<lambda>s. s\<lparr>fs_transition := transitionNone\<rparr>"] at_cellD(2)[OF t]
    by (auto simp: unmark_deleting_def cell_ok_def)
  show ?thesis
    using del td untrack_gone[OF t] u
    by (auto simp: deleteSandbox_def Let_def split: option.splits)
qed

lemma create_cleanup_gone:
  assumes at: "at_cell g a (\<lambda>s. fs_transition s \<noteq> transitionWaking) r0 r"
  shows "gone_cell g a r0 (create_cleanup h a r)"
proof -
  obtain e r1 where d: "deleteSandbox h a r = (e, r1)" by fastforce
  show ?thesis
    using deleteSandbox_at[OF at d] untrack_gone d by (auto simp: create_cleanup_def split: option.splits)
qed

definition fc_quiet :: "fc \<Rightarrow> bool" where
  "fc_quiet r \<longleftrightarrow> (\<forall>i a. fc_sandboxes r i = Some a \<longrightarrow> fs_transition (fc_cell r a) = transitionNone)"

text \<open>The sandboxes as a client sees them: the id leads to the same state as before.\<close>

definition same_sandboxes :: "fc \<Rightarrow> fc \<Rightarrow> bool" where
  "same_sandboxes r r' \<longleftrightarrow> fc_sandboxes r' = fc_sandboxes r \<and> (\<forall>i a. fc_sandboxes r i = Some a \<longrightarrow> fc_cell r' a = fc_cell r a)"

lemma same_sandboxes_refl [simp]: "same_sandboxes r r"
  by (simp add: same_sandboxes_def)

lemma same_sandboxes_quiet: "same_sandboxes r r' \<Longrightarrow> fc_quiet r' = fc_quiet r"
  by (simp add: same_sandboxes_def fc_quiet_def)

lemma reserveSandbox_cases:
  "reserveSandbox g h i eg r = (Inl e, r') \<Longrightarrow> r' = r"
  "reserveSandbox g h i eg r = (Inr a, r') \<Longrightarrow> \<exists>kern d. reserve_locked g i eg kern d r = (Inr a, r')"
  by (auto simp: reserveSandbox_def split: option.splits sum.splits dest: reserve_locked_Inl)

lemma fc_CreateSandbox_spec:
  assumes wf: "fc_wf g r" and cr: "fc_CreateSandbox g h i eg r = (res, r')"
  shows "fc_wf g r' \<and>
    (case res of
       Inl e \<Rightarrow> same_sandboxes r r'
     | Inr info \<Rightarrow> fc_sandboxes r i = None \<and> fc_sandboxes r' = (fc_sandboxes r)(i \<mapsto> fc_next r) \<and>
         (\<forall>j a. fc_sandboxes r j = Some a \<longrightarrow> fc_cell r' a = fc_cell r a) \<and> info = fs_info (fc_cell r' (fc_next r)) \<and>
         fs_blockEgress (fc_cell r' (fc_next r)) = eg \<and> fs_running (fc_cell r' (fc_next r)) \<and> fs_transition (fc_cell r' (fc_next r)) = transitionNone)"
proof (cases "length i < 12")
  case True
  then show ?thesis using cr wf by (auto simp: fc_CreateSandbox_def)
next
  case long: False
  obtain rs r1 where rs: "reserveSandbox g h i eg r = (rs, r1)" by fastforce
  show ?thesis
  proof (cases rs)
    case (Inl e)
    then show ?thesis using cr wf long rs reserveSandbox_cases(1)[of g h i eg r e r1] by (auto simp: fc_CreateSandbox_def)
  next
    case (Inr a)
    obtain kern d where lk: "reserve_locked g i eg kern d r = (Inr a, r1)"
      using reserveSandbox_cases(2) rs Inr by blast
    have "i \<noteq> []" using long by auto
    note R = reserve_locked_at[OF wf this lk]
    have old: "b < a" if "fc_sandboxes r j = Some b" for j b using fc_wf_tracked(1)[OF wf that] R by simp
    have frame: "fc_cell r2 b = fc_cell r b" "j \<noteq> i \<Longrightarrow> fc_sandboxes r2 j = fc_sandboxes r j"
      if "only_touches a r1 r2" "b < a" for r2 b j
      using that R by (auto simp: only_touches_def)
    have gone: "fc_wf g r2 \<and> same_sandboxes r r2" if "gone_cell g a r1 r2" for r2
    proof -
      have "fc_sandboxes r2 j = fc_sandboxes r j" for j
        using that R by (cases "j = i") (auto simp: gone_cell_def only_touches_def)
      then show ?thesis using that old frame(1) by (auto simp: gone_cell_def same_sandboxes_def)
    qed
    obtain e2 r2 where ac: "activateSandboxVM g h a r1 = (e2, r2)" by fastforce
    note A = activate_at[OF conjunct1[OF R] ac]
    have A': "at_cell g a (\<lambda>s. fs_transition s \<noteq> transitionWaking) r1 r2"
      using A by (rule at_cell_weaken) (auto simp: activating_def)
    have R': "at_cell g a (\<lambda>s. fs_transition s \<noteq> transitionWaking) r1 r1"
      using conjunct1[OF R] by (rule at_cell_weaken) (auto simp: activating_def)
    show ?thesis
    proof (cases "ho_cloneRootfs h = None \<and> ho_cloneGoldenSnapshot h = None \<and> e2 = None")
      case False
      then have "isl res \<and> (r' = create_cleanup h a r1 \<or> r' = create_cleanup h a r2)"
        using cr long rs Inr ac by (auto simp: fc_CreateSandbox_def split: option.splits)
      then show ?thesis
        using gone create_cleanup_gone[OF A'] create_cleanup_gone[OF R'] by (cases res) auto
    next
      case True
      let ?f = "\<lambda>s. s\<lparr>fs_running := True, fs_transition := transitionNone\<rparr>"
      have r': "r' = fc_upd a ?f r2" "res = Inr (fs_info (fc_cell (fc_upd a ?f r2) a))"
        using cr long rs Inr ac True by (auto simp: fc_CreateSandbox_def Let_def)
      have at: "at_cell g a (\<lambda>s. fs_running s \<and> fs_transition s = transitionNone) r1 r'"
        unfolding r'(1) by (rule at_cell_upd[OF A]) (use True in \<open>auto simp: cell_ok_def activating_def\<close>)
      note O = at_cellD[OF at]
      have "fc_sandboxes r' = (fc_sandboxes r)(i \<mapsto> a)"
        using O(2,4) R frame(2)[OF O(4), of a] by (auto simp: fc_tracked_def only_touches_def)
      then show ?thesis
        using O R old frame(1)[OF O(4)] r' by (auto simp: only_touches_def)
    qed
  qed
qed

text \<open>Only the sandbox \<open>i\<close> may have changed, and it is still tracked under the same state.\<close>

definition changes_only :: "string \<Rightarrow> fc \<Rightarrow> fc \<Rightarrow> bool" where
  "changes_only i r r' \<longleftrightarrow> fc_sandboxes r' = fc_sandboxes r \<and> length (fc_slots r') = length (fc_slots r) \<and>
     (\<forall>j b. fc_sandboxes r j = Some b \<longrightarrow>
        (j \<noteq> i \<longrightarrow> fc_cell r' b = fc_cell r b) \<and> fs_kernel (fc_cell r' b) = fs_kernel (fc_cell r b) \<and>
        fs_blockEgress (fc_cell r' b) = fs_blockEgress (fc_cell r b))"

lemma changes_only_refl [simp]: "changes_only i r r"
  by (simp add: changes_only_def)

lemma at_cell_changes_only:
  assumes "at_cell g a Q r0 r" and wf: "fc_wf g r0" and i: "fc_sandboxes r0 i = Some a"
  shows "changes_only i r0 r"
proof -
  note A = at_cellD[OF assms(1)] and I = fc_wf_tracked[OF wf i]
  have "fc_sandboxes r j = fc_sandboxes r0 j" for j
    using A(2,4) I(2) i by (cases "j = i") (auto simp: only_touches_def fc_tracked_def)
  moreover have "b \<noteq> a" if "fc_sandboxes r0 j = Some b" "j \<noteq> i" for j b
    using fc_wf_tracked(2)[OF wf that(1)] I(2) that(2) by auto
  moreover have "fs_kernel (fc_cell r b) = fs_kernel (fc_cell r0 b)" "fs_blockEgress (fc_cell r b) = fs_blockEgress (fc_cell r0 b)" for b
    using A(4) by (cases "b = a"; simp add: only_touches_def)+
  ultimately show ?thesis using A(4) by (auto simp: changes_only_def only_touches_def)
qed

lemma changes_only_quiet:
  assumes "changes_only i r r'" and "fc_quiet r" and "\<And>a. fc_sandboxes r i = Some a \<Longrightarrow> fs_transition (fc_cell r' a) = transitionNone"
  shows "fc_quiet r'"
  using assms by (auto simp: changes_only_def fc_quiet_def) metis

text \<open>How a claimed operation may leave the sandbox before the claim is released.\<close>

definition releasable :: "sandboxTransition \<Rightarrow> sandboxState \<Rightarrow> bool" where
  "releasable t s \<longleftrightarrow> fs_transition s = t \<and> (fs_running s \<longrightarrow> fs_mustColdBoot s \<and> fs_process s \<and> fs_proxy s) \<and>
     (fs_stopped s \<longrightarrow> fs_slot s < 0)"

lemma claimed_releasable: "claimed t s \<Longrightarrow> releasable t s"
  by (simp add: claimed_def releasable_def)

lemma release_at:
  assumes "at_cell g a (\<lambda>s. releasable t s \<and> Q s) r0 r" and "\<And>s. Q s \<Longrightarrow> Q (s\<lparr>fs_transition := transitionNone\<rparr>)"
  shows "at_cell g a (\<lambda>s. Q s \<and> fs_transition s = transitionNone) r0 (endTransition a r)"
  by (rule endTransition_at) (use assms in \<open>auto elim!: at_cell_weaken simp: releasable_def\<close>)

lemma snapshot_at:
  assumes "at_cell g a (\<lambda>s. fs_transition s = transitionStopping) r0 r"
  shows "at_cell g a (\<lambda>s. fs_transition s = transitionStopping \<and> \<not> fs_mustColdBoot s) r0
    (fc_upd a (\<lambda>s. s\<lparr>fs_mustColdBoot := False\<rparr>) (set_dirty a False r))"
proof -
  note A = at_cellD[OF assms]
  have "fc_wf g (fc_upd a (\<lambda>s. s\<lparr>fs_mustColdBoot := False\<rparr>) (set_dirty a False r))"
    using A fc_wf_dirty[OF A(1), of False a] by (intro fc_wf_upd) (auto simp: cell_ok_def)
  then show ?thesis using A by (auto simp: at_cell_def only_touches_def)
qed

lemma park_after_teardown:
  assumes at: "at_cell g a (\<lambda>s. fs_transition s = t \<and> P (fs_mustColdBoot s)) r0 r" and "t \<noteq> transitionNone"
    and td: "teardownRunningVM h a r = (e, r1)"
  shows "at_cell g a (\<lambda>s. releasable t s \<and> fs_stopped s \<and> fs_slot s = - 1 \<and> P (fs_mustColdBoot s)) r0 (park a r1)"
proof -
  have d: "at_cell g a (\<lambda>s. fs_transition s = t \<and> P (fs_mustColdBoot s)) r0 r1"
    by (rule teardown_at[OF at td]) (use assms(2) in auto)
  show ?thesis
    unfolding park_eq[OF at_cellD(5)[OF d]]
    by (rule at_cell_let_go[OF d]) (auto simp: cell_ok_def releasable_def)
qed

lemma resume_at:
  assumes at: "at_cell g a (\<lambda>s. claimed transitionStopping s \<and> fs_running s) r0 r"
  shows "at_cell g a (releasable transitionStopping) r0 (resumeAfterFailedStop h a r)"
proof -
  obtain e r1 where td: "teardownRunningVM h a r = (e, r1)" by fastforce
  have "at_cell g a (\<lambda>s. fs_transition s = transitionStopping \<and> (\<lambda>_. True) (fs_mustColdBoot s)) r0 r"
    using at by (rule at_cell_weaken) (simp add: claimed_def)
  from park_after_teardown[OF this _ td] show ?thesis
    using at td by (auto simp: resumeAfterFailedStop_def claimed_releasable split: option.splits elim!: at_cell_weaken)
qed

definition stop_done :: "sandboxState \<Rightarrow> bool" where
  "stop_done s \<longleftrightarrow> fs_stopped s \<and> \<not> fs_running s \<and> fs_slot s < 0"

lemma stop_claimed_at:
  assumes at: "at_cell g a (claimed transitionStopping) r0 r" and st: "stop_claimed h a r = (e, r')"
  shows "at_cell g a (\<lambda>s. releasable transitionStopping s \<and>
    (e = None \<longrightarrow> stop_done s \<and> (fs_running (fc_cell r a) \<longrightarrow> \<not> fs_mustColdBoot s))) r0 r'"
proof -
  note A = at_cellD[OF at]
  show ?thesis
  proof (cases "fs_stopped (fc_cell r a) \<or> \<not> fs_running (fc_cell r a) \<or> ensureDiskSpaceForSnapshot h \<noteq> None")
    case True
    then have "r' = r \<and> (e = None \<longrightarrow> fs_stopped (fc_cell r a))"
      using st by (auto simp: stop_claimed_def split: if_splits option.splits dest: sym)
    then show ?thesis using at A(3) claimed_releasable[OF A(3)] by (auto simp: at_cell_def stop_done_def claimed_def)
  next
    case run: False
    have at1: "at_cell g a (\<lambda>s. claimed transitionStopping s \<and> fs_running s) r0 r"
      using at run by (simp add: at_cell_def)
    have at1': "at_cell g a (\<lambda>s. claimed transitionStopping s \<and> fs_running s) r0 (set_dirty a True r)"
      by (rule at_cell_dirty[OF at1]) (use at_cellD(3)[OF at1] in \<open>auto simp: claimed_def\<close>)
    show ?thesis
    proof (cases "ho_pauseVM h = None \<and> ho_createSnapshot h = None")
      case False
      then have "e \<noteq> None \<and> (r' = resumeAfterFailedStop h a r \<or> r' = resumeAfterFailedStop h a (set_dirty a True r))"
        using st run by (auto simp: stop_claimed_def split: option.splits)
      then show ?thesis using resume_at[OF at1, of h] resume_at[OF at1', of h] by (auto elim: at_cell_weaken)
    next
      case True
      have s: "at_cell g a (\<lambda>s. fs_transition s = transitionStopping \<and> \<not> fs_mustColdBoot s) r0
          (fc_upd a (\<lambda>s. s\<lparr>fs_mustColdBoot := False\<rparr>) (set_dirty a False r))"
        by (rule snapshot_at) (use at in \<open>auto elim: at_cell_weaken simp: claimed_def\<close>)
      obtain r1 where td: "teardownRunningVM h a (fc_upd a (\<lambda>s. s\<lparr>fs_mustColdBoot := False\<rparr>) (set_dirty a False r)) = (e, r1)"
        and r': "r' = park a r1"
        using st run True by (auto simp: stop_claimed_def split: option.splits prod.splits)
      show ?thesis
        unfolding r' by (rule at_cell_weaken[OF park_after_teardown[OF s _ td]]) (auto simp: stop_done_def releasable_def)
    qed
  qed
qed

lemma fc_StopSandbox_spec:
  assumes wf: "fc_wf g r" and st: "fc_StopSandbox h i r = (e, r')"
  shows "fc_wf g r' \<and> changes_only i r r' \<and> (fc_quiet r \<longrightarrow> fc_quiet r') \<and>
    (e = None \<longrightarrow> (\<exists>a. fc_sandboxes r' i = Some a \<and> stop_done (fc_cell r' a) \<and> fs_transition (fc_cell r' a) = transitionNone \<and>
       (fs_running (fc_cell r a) \<longrightarrow> \<not> fs_mustColdBoot (fc_cell r' a))))"
proof -
  obtain b r1 where b: "beginTransition i transitionStopping r = (b, r1)" by fastforce
  show ?thesis
  proof (cases b)
    case (Inl x)
    then show ?thesis using st wf b beginTransition_Inl[of i transitionStopping r x r1] by (auto simp: fc_StopSandbox_def)
  next
    case (Inr a)
    have at: "at_cell g a (claimed transitionStopping) r r1" using beginTransition_at[OF wf] b Inr by auto
    obtain e2 r2 where sc: "stop_claimed h a r1 = (e2, r2)" by fastforce
    have r': "e = e2" "r' = endTransition a r2" using st b Inr sc by (auto simp: fc_StopSandbox_def)
    have E: "at_cell g a (\<lambda>s. (e = None \<longrightarrow> stop_done s \<and> (fs_running (fc_cell r1 a) \<longrightarrow> \<not> fs_mustColdBoot s)) \<and> fs_transition s = transitionNone) r r'"
      unfolding r' by (rule release_at[OF stop_claimed_at[OF at sc]]) (simp add: stop_done_def)
    have i: "fc_sandboxes r i = Some a" using beginTransition_Inr(1) b Inr by blast
    have "fs_running (fc_cell r1 a) = fs_running (fc_cell r a)" using beginTransition_Inr(3) b Inr by fastforce
    note C = at_cell_changes_only[OF E wf i]
    show ?thesis
      using at_cellD[OF E] C i changes_only_quiet[OF C] \<open>fs_running _ = _\<close> by (auto simp: changes_only_def)
  qed
qed

lemma wake_claimed_at:
  assumes at: "at_cell g a (claimed transitionWaking) r0 r" and wk: "wake_claimed g h a r = ((rec, e), r')"
  shows "at_cell g a (\<lambda>s. releasable transitionWaking s \<and> (e = None \<longrightarrow> fs_running s)) r0 r'"
proof -
  note A = at_cellD[OF at]
  show ?thesis
  proof (cases "fs_running (fc_cell r a) \<or> \<not> fs_stopped (fc_cell r a)")
    case True
    then have "r' = r \<and> (e = None \<longrightarrow> fs_running (fc_cell r a))"
      using wk by (auto simp: wake_claimed_def Let_def split: if_splits)
    then show ?thesis using at A(3) claimed_releasable by (auto simp: at_cell_def)
  next
    case False
    have p: "at_cell g a (is_parked transitionWaking) r0 r"
      using at False by (auto simp: at_cell_def claimed_def is_parked_def)
    obtain e1 r1 where rw: "reserveWakeSlot g a r = (e1, r1)" by fastforce
    show ?thesis
    proof (cases e1)
      case (Some x)
      then have "r' = r \<and> e \<noteq> None"
        using wk rw False reserveWakeSlot_at[OF p rw] by (auto simp: wake_claimed_def Let_def)
      then show ?thesis using at A(3) claimed_releasable by (auto simp: at_cell_def)
    next
      case None
      then have a1: "at_cell g a (activating transitionWaking) r0 r1" using reserveWakeSlot_at[OF p rw] by auto
      obtain e2 r2 where ac: "activateSandboxVM g h a r1 = (e2, r2)" by fastforce
      note a2 = activate_at[OF a1 ac]
      show ?thesis
      proof (cases e2)
        case (Some x)
        obtain e3 r3 where td: "teardownRunningVM h a r2 = (e3, r3)" by fastforce
        have "at_cell g a (\<lambda>s. fs_transition s = transitionWaking \<and> (\<lambda>_. True) (fs_mustColdBoot s)) r0 r2"
          using a2 by (rule at_cell_weaken) (simp add: activating_def)
        from park_after_teardown[OF this _ td] show ?thesis
          using wk rw False None ac Some td by (auto simp: wake_claimed_def Let_def elim!: at_cell_weaken)
      next
        case ok: None
        then have r': "r' = fc_upd a (\<lambda>s. s\<lparr>fs_running := True, fs_stopped := False\<rparr>) r2"
          using wk rw False None ac by (auto simp: wake_claimed_def Let_def)
        show ?thesis
          unfolding r' by (rule at_cell_upd[OF a2]) (use ok in \<open>auto simp: cell_ok_def activating_def releasable_def\<close>)
      qed
    qed
  qed
qed

lemma fc_EnsureSandboxRunning_spec:
  assumes wf: "fc_wf g r" and wk: "fc_EnsureSandboxRunning g h i r = ((res, e), r')"
  shows "fc_wf g r' \<and> changes_only i r r' \<and> (fc_quiet r \<longrightarrow> fc_quiet r') \<and>
    (e = None \<longrightarrow> (\<exists>a. fc_sandboxes r' i = Some a \<and> fs_running (fc_cell r' a) \<and> fs_transition (fc_cell r' a) = transitionNone \<and>
       wr_Recovered res = (fs_stopped (fc_cell r a) \<and> fs_mustColdBoot (fc_cell r a))))"
proof -
  obtain b r1 where b: "beginTransition i transitionWaking r = (b, r1)" by fastforce
  show ?thesis
  proof (cases "ho_ctxErr h \<noteq> None \<or> isl b")
    case True
    then have "r' = r \<and> e \<noteq> None"
      using wk b beginTransition_Inl[of i transitionWaking r _ r1]
      by (cases b) (auto simp: fc_EnsureSandboxRunning_def ensureSandboxRunningOnce_def split: option.splits)
    then show ?thesis using wf by auto
  next
    case False
    then obtain a where a: "b = Inr a" by (cases b) auto
    have at: "at_cell g a (claimed transitionWaking) r r1" using beginTransition_at[OF wf] b a by auto
    obtain rec e2 r2 where wc: "wake_claimed g h a r1 = ((rec, e2), r2)" by (metis prod.exhaust)
    have r': "e = e2" "r' = endTransition a r2" "wr_Recovered res = rec"
      using wk b a wc False by (auto simp: fc_EnsureSandboxRunning_def ensureSandboxRunningOnce_def)
    have E: "at_cell g a (\<lambda>s. (e = None \<longrightarrow> fs_running s) \<and> fs_transition s = transitionNone) r r'"
      unfolding r' by (rule release_at[OF wake_claimed_at[OF at wc]]) simp
    note B = beginTransition_Inr[OF b[unfolded a]]
    have rec: "rec = (fs_stopped (fc_cell r a) \<and> fs_mustColdBoot (fc_cell r a))" if "e = None"
      using wc that r'(1) at_cellD(3)[OF at] B(3)
      by (auto simp: wake_claimed_def Let_def claimed_def split: if_splits option.splits prod.splits)
    note C = at_cell_changes_only[OF E wf B(1)]
    show ?thesis
      using at_cellD[OF E] C B(1) changes_only_quiet[OF C] rec r'(3) by (auto simp: changes_only_def)
  qed
qed

lemma fc_DeleteSandbox_spec:
  assumes wf: "fc_wf g r" and del: "fc_DeleteSandbox h i r = (e, r')"
  shows "fc_wf g r' \<and> (fc_quiet r \<longrightarrow> fc_quiet r') \<and>
    (e = None \<longrightarrow> fc_sandboxes r' = (fc_sandboxes r)(i := None) \<and> (\<forall>j b. fc_sandboxes r' j = Some b \<longrightarrow> fc_cell r' b = fc_cell r b)) \<and>
    (e \<noteq> None \<longrightarrow> changes_only i r r')"
proof -
  obtain b r1 where b: "beginTransition i transitionDeleting r = (b, r1)" by fastforce
  show ?thesis
  proof (cases b)
    case (Inl x)
    then show ?thesis using del wf b beginTransition_Inl[of i transitionDeleting r x r1] by (auto simp: fc_DeleteSandbox_def)
  next
    case (Inr a)
    have "at_cell g a (claimed transitionDeleting) r r1" using beginTransition_at[OF wf] b Inr by auto
    then have at: "at_cell g a (\<lambda>s. fs_transition s \<noteq> transitionWaking) r r1" by (rule at_cell_weaken) (simp add: claimed_def)
    have i: "fc_sandboxes r i = Some a" using beginTransition_Inr(1) b Inr by blast
    note I = fc_wf_tracked[OF wf i]
    have d: "deleteSandbox h a r1 = (e, r')" using del b Inr by (simp add: fc_DeleteSandbox_def)
    from deleteSandbox_at[OF at d] show ?thesis
    proof
      assume g: "e = None \<and> gone_cell g a r r'"
      have m: "fc_sandboxes r' = (fc_sandboxes r)(i := None)"
        using g I(2) by (auto simp: gone_cell_def only_touches_def)
      have c: "fc_cell r' b = fc_cell r b" if "fc_sandboxes r' j = Some b" for j b
      proof -
        have "fc_sandboxes r j = Some b" "j \<noteq> i" using that by (auto simp: m split: if_splits)
        then have "b \<noteq> a" using fc_wf_tracked(2)[OF wf] I(2) by blast
        then show ?thesis using g by (auto simp: gone_cell_def only_touches_def)
      qed
      then have "fc_quiet r \<longrightarrow> fc_quiet r'" using m by (auto simp: fc_quiet_def split: if_splits)
      then show ?thesis using g m c by (simp add: gone_cell_def)
    next
      assume f: "e \<noteq> None \<and> at_cell g a (\<lambda>s. fs_transition s = transitionNone \<and> \<not> fs_running s) r r'"
      note C = at_cell_changes_only[OF conjunct2[OF f] wf i]
      show ?thesis using f at_cellD[OF conjunct2[OF f]] C i changes_only_quiet[OF C] by auto
    qed
  qed
qed

lemma handleGuestDeath_spec:
  assumes wf: "fc_wf g r" and "fc_tracked r died"
  shows "fc_wf g (handleGuestDeath h died n r) \<and> changes_only (fs_id (fc_cell r died)) r (handleGuestDeath h died n r) \<and>
    (fc_quiet r \<longrightarrow> fc_quiet (handleGuestDeath h died n r)) \<and>
    (fs_transition (fc_cell r died) = transitionNone \<longrightarrow> fs_generation (fc_cell r died) = n \<longrightarrow>
       stop_done (fc_cell (handleGuestDeath h died n r) died) \<and> fs_transition (fc_cell (handleGuestDeath h died n r) died) = transitionNone \<and>
       fs_mustColdBoot (fc_cell (handleGuestDeath h died n r) died) = fs_mustColdBoot (fc_cell r died))"
proof (cases "recordGuestDeath died n r \<and> fs_transition (fc_cell r died) = transitionNone")
  case False
  then have "handleGuestDeath h died n r = r"
    using assms(2) by (auto simp: handleGuestDeath_def beginTransition_def fc_tracked_def split: option.splits)
  then show ?thesis using wf False by (auto simp: recordGuestDeath_def)
next
  case True
  let ?i = "fs_id (fc_cell r died)" and ?r1 = "fc_upd died (\<lambda>s. s\<lparr>fs_transition := transitionStopping\<rparr>) r"
  have i: "fc_sandboxes r ?i = Some died" using assms(2) by (simp add: fc_tracked_def)
  have b: "beginTransition ?i transitionStopping r = (Inr died, ?r1)"
    using True i by (auto simp: beginTransition_def deleting_def)
  have at: "at_cell g died (claimed transitionStopping) r ?r1" by (rule beginTransition_at[OF wf b]) simp
  obtain e r2 where td: "teardownRunningVM h died ?r1 = (e, r2)" by fastforce
  let ?P = "\<lambda>m. m = fs_mustColdBoot (fc_cell r died)"
  have at': "at_cell g died (\<lambda>s. claimed transitionStopping s \<and> ?P (fs_mustColdBoot s)) r ?r1"
    using at by (simp add: at_cell_def)
  have "at_cell g died (\<lambda>s. fs_transition s = transitionStopping \<and> ?P (fs_mustColdBoot s)) r r2"
    by (rule teardown_at[OF at' td]) (auto simp: claimed_def)
  from at_cell_bury[OF this] have d: "at_cell g died (\<lambda>s. releasable transitionStopping s \<and> stop_done s \<and> ?P (fs_mustColdBoot s)) r (bury died r2)"
    by (rule at_cell_weaken) (auto simp: is_parked_def releasable_def stop_done_def)
  have "handleGuestDeath h died n r = endTransition died (bury died r2)"
    using True b td by (auto simp: handleGuestDeath_def recordGuestDeath_def)
  then have E: "at_cell g died (\<lambda>s. (stop_done s \<and> ?P (fs_mustColdBoot s)) \<and> fs_transition s = transitionNone) r (handleGuestDeath h died n r)"
    using release_at[OF d] by (simp add: stop_done_def)
  note C = at_cell_changes_only[OF E wf i]
  show ?thesis using at_cellD[OF E] C i changes_only_quiet[OF C] by auto
qed

end
