(* ===== verification/Fc_Lifecycle.thy ===== *)
theory Fc_Lifecycle
  imports Fc_Runtime
begin

text \<open>
  What the clients of the Firecracker runtime see of it: the slots in use, the URLs that resolve,
  \<open>Shutdown\<close>, and the runtime as the interface the runner's handlers call, with the laws of that
  interface discharged.
\<close>

section \<open>What clients of the runtime see\<close>

lemma free_slot_count: "free_slot sl \<noteq> None \<longleftrightarrow> length (filter occupied sl) < length sl"
  using free_slot_None[of sl] length_filter_le[of occupied sl] by linarith

text \<open>The slots in use are exactly the slots of the tracked sandboxes.\<close>

lemma occupied_slots:
  assumes "fc_wf g r"
  shows "{k. k < length (fc_slots r) \<and> occupied (fc_slots r ! k)} =
    (\<lambda>a. nat (fs_slot (fc_cell r a))) ` {a. fc_tracked r a \<and> fs_slot (fc_cell r a) \<ge> 0}" (is "?L = ?R")
proof
  show "?L \<subseteq> ?R"
  proof
    fix k assume "k \<in> ?L"
    then obtain a where a: "fc_sandboxes r (sl_sandboxID (fc_slots r ! k)) = Some a" "fs_slot (fc_cell r a) = int k"
      using assms by (auto simp: fc_wf_def)
    then show "k \<in> ?R" using fc_wf_tracked(4)[OF assms a(1)] by (intro image_eqI[of _ _ a]) auto
  qed
  show "?R \<subseteq> ?L"
    using fc_wf_cell(2)[OF assms] by (fastforce simp: cell_ok_def occupied_def)
qed

lemma occupied_count:
  assumes "fc_wf g r"
  shows "occupiedSlotsLocked r = card {a. fc_tracked r a \<and> fs_slot (fc_cell r a) \<ge> 0}"
proof -
  have "inj_on (\<lambda>a. nat (fs_slot (fc_cell r a))) {a. fc_tracked r a \<and> fs_slot (fc_cell r a) \<ge> 0}"
    using slots_injective[OF assms] by (auto simp: inj_on_def)
  then show ?thesis
    unfolding occupiedSlotsLocked_def length_filter_conv_card occupied_slots[OF assms] by (rule card_image)
qed

lemma DaemonURL_running:
  assumes "fc_DaemonURL i r = Inr u" and "fc_wf g r"
  obtains a where "fc_sandboxes r i = Some a" "fs_running (fc_cell r a)" "fs_transition (fc_cell r a) = transitionNone"
    "fs_slot (fc_cell r a) \<ge> 0" "u = daemonURLOf g (fs_slot (fc_cell r a))"
proof -
  obtain a where a: "fc_sandboxes r i = Some a" "fs_running (fc_cell r a)" "fs_transition (fc_cell r a) = transitionNone"
    "u = fs_daemonURL (fc_cell r a)"
    using assms(1) by (auto simp: fc_DaemonURL_def Let_def split: option.splits if_splits)
  then show thesis
    using that[of a] fc_wf_tracked(3)[OF assms(2) a(1)] by (auto simp: cell_ok_def)
qed

lemma running_DaemonURL:
  assumes "fc_wf g r" and "fc_sandboxes r i = Some a" and "fs_running (fc_cell r a)" and "fs_transition (fc_cell r a) = transitionNone"
  shows "fc_DaemonURL i r = Inr (daemonURLOf g (fs_slot (fc_cell r a)))"
  using fc_wf_tracked(3)[OF assms(1,2)] assms(2-)
  by (auto simp: fc_DaemonURL_def Let_def deleting_def cell_ok_def daemonURLOf_def)

lemma stopped_DaemonURL:
  assumes "fc_sandboxes r i = Some a" and "stop_done (fc_cell r a)" and "fs_transition (fc_cell r a) = transitionNone"
  shows "fc_DaemonURL i r = Inl (sentinelErr ErrSandboxNotRunning)"
  using assms by (simp add: fc_DaemonURL_def Let_def deleting_def stop_done_def)

lemma itoa_not_minus: "itoa n \<noteq> CHR ''-'' # s"
  using itoa_digits[of n] by (auto simp: isDigit_def)

lemma itoaInt_inj: "itoaInt i = itoaInt j \<Longrightarrow> i = j"
proof -
  have inj: "m = n" if "itoa m = itoa n" for m n by (metis that itoa_value)
  assume "itoaInt i = itoaInt j"
  then show "i = j"
    using inj[of "nat i" "nat j"] inj[of "nat (- i)" "nat (- j)"] itoa_not_minus itoa_not_minus[symmetric]
    by (auto simp: itoaInt_def split: if_splits)
qed

lemma daemonURLOf_inj: "daemonURLOf g k = daemonURLOf g l \<Longrightarrow> k = l"
  by (auto simp: daemonURLOf_def JoinHostPort_def split: if_splits dest: itoaInt_inj)

text \<open>No two sandboxes are ever reached through the same URL.\<close>

lemma daemon_urls_differ:
  assumes wf: "fc_wf g r" and "fc_DaemonURL i r = Inr u" and "fc_DaemonURL j r = Inr u"
  shows "i = j"
proof -
  obtain a where a: "fc_sandboxes r i = Some a" "fs_slot (fc_cell r a) \<ge> 0" "u = daemonURLOf g (fs_slot (fc_cell r a))"
    using DaemonURL_running[OF assms(2) wf] by metis
  obtain b where b: "fc_sandboxes r j = Some b" "u = daemonURLOf g (fs_slot (fc_cell r b))"
    using DaemonURL_running[OF assms(3) wf] by metis
  have "fs_slot (fc_cell r a) = fs_slot (fc_cell r b)" using a(3) b(2) daemonURLOf_inj by metis
  then have "a = b" using slots_injective[OF wf] fc_wf_tracked(4)[OF wf] a b by blast
  then show ?thesis using fc_wf_tracked(2)[OF wf] a(1) b(1) by metis
qed

section \<open>Shutdown\<close>

lemma shutdown_mark_at:
  assumes "fc_wf g r" and "\<forall>a \<in> set as. fc_tracked r a \<and> fs_transition (fc_cell r a) \<noteq> transitionWaking"
  shows "fc_wf g (fold (\<lambda>a. fc_upd a (\<lambda>s. s\<lparr>fs_running := False, fs_transition := transitionDeleting\<rparr>)) as r) \<and>
    (\<forall>b. fc_tracked (fold (\<lambda>a. fc_upd a (\<lambda>s. s\<lparr>fs_running := False, fs_transition := transitionDeleting\<rparr>)) as r) b = fc_tracked r b) \<and>
    (\<forall>b \<in> set as. fs_transition (fc_cell (fold (\<lambda>a. fc_upd a (\<lambda>s. s\<lparr>fs_running := False, fs_transition := transitionDeleting\<rparr>)) as r) b)
       = transitionDeleting)"
  using assms
proof (induction as arbitrary: r)
  case (Cons a as)
  let ?f = "\<lambda>s. s\<lparr>fs_running := False, fs_transition := transitionDeleting\<rparr>"
  have "fc_wf g (fc_upd a ?f r)"
    using Cons.prems fc_wf_cell[OF Cons.prems(1), of a]
    by (intro fc_wf_upd[OF Cons.prems(1)]) (auto simp: cell_ok_def fc_wf_def)
  note IH = Cons.IH[OF this]
  show ?case
  proof (cases "a \<in> set as")
    case True
    then show ?thesis using IH Cons.prems by auto
  next
    case False
    have keep: "fc_cell (fold (\<lambda>a. fc_upd a ?f) as r') a = fc_cell r' a" for r'
      using False by (induction as arbitrary: r') auto
    show ?thesis using IH Cons.prems keep[of "fc_upd a ?f r"] by auto
  qed
qed simp

text \<open>A host on which every command of a teardown succeeds.\<close>

definition clean_host :: "host \<Rightarrow> bool" where
  "clean_host h \<longleftrightarrow> ho_stopProxy h = None \<and> ho_kill h = None \<and> ho_cleanupHost h = None \<and> ho_clearNetwork h = None \<and>
     ho_removeDataDir h = None"

lemma teardown_clean: "clean_host h \<Longrightarrow> fst (teardownRunningVM h a r) = None"
  by (auto simp: clean_host_def teardownRunningVM_def Let_def clearSlotNetwork_def err_if_def joinErrors_def split: prod.splits if_splits)

lemma deleteSandbox_clean: "clean_host h \<Longrightarrow> fst (deleteSandbox h a r) = None"
  using teardown_clean[of h a "mark_deleting a r"]
  by (auto simp: clean_host_def deleteSandbox_def Let_def err_if_def joinErrors_def split: prod.splits)

lemma shutdown_delete_at:
  assumes "fc_wf g r" and "distinct as" and "\<forall>a \<in> set as. fc_tracked r a \<and> fs_transition (fc_cell r a) \<noteq> transitionWaking"
  shows "fc_wf g (shutdown_delete hs as r) \<and>
    (\<forall>i. fc_sandboxes (shutdown_delete hs as r) i \<noteq> None \<longrightarrow> fc_sandboxes r i \<noteq> None \<and>
       (\<forall>a. fc_sandboxes r i = Some a \<longrightarrow> a \<in> set as \<longrightarrow> \<not> clean_host (hs a)))"
  using assms
proof (induction as arbitrary: r)
  case (Cons a as)
  obtain e r1 where d: "deleteSandbox (hs a) a r = (e, r1)" by fastforce
  have at: "at_cell g a (\<lambda>s. fs_transition s \<noteq> transitionWaking) r r" using Cons.prems by (simp add: at_cell_def)
  note D = deleteSandbox_at[OF at d]
  then have w: "fc_wf g r1" and t: "only_touches a r r1"
    by (auto simp: gone_cell_def at_cell_def)
  have "fc_tracked r1 b \<and> fs_transition (fc_cell r1 b) \<noteq> transitionWaking" if "b \<in> set as" for b
  proof -
    have b: "fc_tracked r b" "b \<noteq> a" "fs_transition (fc_cell r b) \<noteq> transitionWaking" using Cons.prems that by auto
    then have "fs_id (fc_cell r b) \<noteq> fs_id (fc_cell r a)" using Cons.prems(3) by (auto simp: fc_tracked_def)
    then show ?thesis using only_touches_tracked[OF t b(2)] b t by (simp add: only_touches_def)
  qed
  then have IH: "fc_wf g (shutdown_delete hs as r1) \<and>
    (\<forall>i. fc_sandboxes (shutdown_delete hs as r1) i \<noteq> None \<longrightarrow> fc_sandboxes r1 i \<noteq> None \<and>
       (\<forall>b. fc_sandboxes r1 i = Some b \<longrightarrow> b \<in> set as \<longrightarrow> \<not> clean_host (hs b)))"
    using Cons.IH[OF w] Cons.prems(2) by simp
  have a: "fc_sandboxes r (fs_id (fc_cell r a)) = Some a" using Cons.prems(3) by (simp add: fc_tracked_def)
  have "fc_sandboxes r1 i = fc_sandboxes r i \<and> (fc_sandboxes r i = Some a \<longrightarrow> \<not> clean_host (hs a))"
    if "fc_sandboxes r1 i \<noteq> None" for i
  proof (cases "i = fs_id (fc_cell r a)")
    case True
    then have "e \<noteq> None" using D that by (auto simp: gone_cell_def)
    then have "\<not> clean_host (hs a)" "fc_tracked r1 a" using deleteSandbox_clean[of "hs a" a r] d D by (auto simp: at_cell_def)
    then show ?thesis using True a t by (auto simp: fc_tracked_def only_touches_def)
  next
    case False
    then show ?thesis using t fc_wf_tracked(2)[OF Cons.prems(1), of i a] by (auto simp: only_touches_def)
  qed
  then show ?case using IH d by (auto; metis option.exhaust option.inject)
qed simp

lemma clearSlotNetwork_length: "length (fc_slots (snd (clearSlotNetwork h k st r))) = length (fc_slots r)"
  by (simp add: clearSlotNetwork_def Let_def set_wired_def fc_panic_def)

lemma deleteSandbox_length: "length (fc_slots (snd (deleteSandbox h a r))) = length (fc_slots r)"
proof -
  have u: "length (fc_slots (untrackSandbox a r)) = length (fc_slots r)" for r
    by (simp add: untrackSandbox_def release_own_slot_def slotOwnedByLocked_def releaseSlotLocked_def fc_panic_def Let_def
        split: option.splits)
  have "length (fc_slots (snd (teardownRunningVM h a r))) = length (fc_slots r)" for r
    using clearSlotNetwork_length[of h "fs_slot (fc_cell r a)" "Some a" "take_handles a r"]
    by (auto simp: teardownRunningVM_def Let_def take_handles_def split: prod.splits)
  note t = this[of "mark_deleting a r"]
  show ?thesis
    using t u by (auto simp: deleteSandbox_def Let_def mark_deleting_def unmark_deleting_def split: prod.splits option.splits)
qed

lemma shutdown_delete_length: "length (fc_slots (shutdown_delete hs as r)) = length (fc_slots r)"
proof (induction as arbitrary: r)
  case (Cons a as)
  then show ?case by (simp add: deleteSandbox_length)
qed simp

lemma shutdown_clear_at:
  assumes "fc_wf g r" and "\<forall>k \<in> set ks. k < length (fc_slots r)"
  shows "fc_wf g (shutdown_clear hs ks r) \<and> fc_sandboxes (shutdown_clear hs ks r) = fc_sandboxes r"
  using assms
proof (induction ks arbitrary: r)
  case (Cons k ks)
  obtain e r1 where c: "clearSlotNetwork (hs k) (int k) None r = (e, r1)" by fastforce
  have w: "wiring r r1" using clearSlotNetwork_wiring[OF c] Cons.prems(2) by simp
  show ?case
    using Cons.IH[OF wiring_wf[OF Cons.prems(1) w]] Cons.prems(2) wiring_length[OF w] w c by (simp add: wiring_def)
qed simp

lemma fc_Shutdown_spec:
  assumes wf: "fc_wf g r" and q: "fc_quiet r" and "distinct order" and all: "\<And>a. fc_tracked r a \<Longrightarrow> a \<in> set order"
    and clean: "\<And>a. clean_host (hs a)"
  shows "fc_wf g (fc_Shutdown hs ks order r) \<and> fc_sandboxes (fc_Shutdown hs ks order r) = Map.empty"
proof -
  let ?f = "\<lambda>s. s\<lparr>fs_running := False, fs_transition := transitionDeleting\<rparr>"
  define as where "as = filter (\<lambda>a. fc_tracked r a \<and> \<not> deleting (fc_cell r a)) order"
  define r1 where "r1 = fold (\<lambda>a. fc_upd a ?f) as r"
  have nq: "fs_transition (fc_cell r a) = transitionNone" if "fc_tracked r a" for a
    using q that by (simp add: fc_quiet_def fc_tracked_def)
  have "\<forall>a \<in> set as. fc_tracked r a \<and> fs_transition (fc_cell r a) \<noteq> transitionWaking"
    using nq by (auto simp: as_def)
  from shutdown_mark_at[OF wf this] have m: "fc_wf g r1" "\<And>b. fc_tracked r1 b = fc_tracked r b"
    "\<forall>b \<in> set as. fs_transition (fc_cell r1 b) = transitionDeleting" by (auto simp: r1_def)
  have in_as: "a \<in> set as" if "fc_tracked r1 a" for a
    using that m(2) all nq by (auto simp: as_def deleting_def)
  let ?r2 = "shutdown_delete hs as r1"
  have D: "fc_wf g ?r2 \<and> (\<forall>i. fc_sandboxes ?r2 i \<noteq> None \<longrightarrow> fc_sandboxes r1 i \<noteq> None \<and>
       (\<forall>a. fc_sandboxes r1 i = Some a \<longrightarrow> a \<in> set as \<longrightarrow> \<not> clean_host (hs a)))"
    by (rule shutdown_delete_at[OF m(1)]) (use m assms(3) in \<open>auto simp: as_def\<close>)
  have "fc_sandboxes ?r2 i = None" for i
  proof (rule ccontr)
    assume "fc_sandboxes ?r2 i \<noteq> None"
    then obtain a where "fc_sandboxes r1 i = Some a" "a \<notin> set as" using D clean by blast
    then show False using in_as fc_wf_tracked(4)[OF m(1)] by blast
  qed
  then have "fc_sandboxes ?r2 = Map.empty" by auto
  moreover have e: "fc_Shutdown hs ks order r = shutdown_clear ks [0..<length (fc_slots r1)] ?r2"
    by (simp add: fc_Shutdown_def shutdown_mark_def as_def r1_def Let_def)
  moreover have "length (fc_slots ?r2) = length (fc_slots r1)"
    by (rule shutdown_delete_length)
  ultimately show ?thesis using shutdown_clear_at[of g ?r2 "[0..<length (fc_slots r1)]" ks] D by auto
qed

section \<open>The runtime behind the runner's handlers\<close>

text \<open>
  The runner sees the runtime through its interface. Every call finds the host in the next of a
  sequence of conditions. \<open>keys\<close> and \<open>paths\<close> are the orders in which the loops over maps run.
\<close>

record fc_world =
  fw_state :: fc
  fw_hosts :: "nat \<Rightarrow> host"
  fw_calls :: nat

definition fw_step :: "fc_world \<Rightarrow> fc \<Rightarrow> fc_world" where
  "fw_step w r = w\<lparr>fw_state := r, fw_calls := Suc (fw_calls w)\<rparr>"

definition fw_host :: "fc_world \<Rightarrow> host" where
  "fw_host w = fw_hosts w (fw_calls w)"

definition fc_rt :: "fc_config \<Rightarrow> (fc \<Rightarrow> string list) \<Rightarrow> (string \<times> string) list \<Rightarrow> fc_world runtime" where
  "fc_rt g keys paths =
     \<lparr>rt_Ready = (\<lambda>w. (fc_Ready paths (fw_host w) (fw_state w), fw_step w (fw_state w))),
      rt_Capacity = (\<lambda>w. (Inr (fc_Capacity (keys (fw_state w)) (fw_state w)), fw_step w (fw_state w))),
      rt_CreateSandbox = (\<lambda>i egress w.
        case BlockEgress (Some egress) of
          None \<Rightarrow> (Inl (textErr (''unvalidated egress '' @ goQuote egress)), fw_step w (fc_panic (fw_state w)))
        | Some eg \<Rightarrow> (case fc_CreateSandbox g (fw_host w) i eg (fw_state w) of (res, r) \<Rightarrow> (res, fw_step w r))),
      rt_GetSandboxInfo = (\<lambda>i w. (fc_GetSandboxInfo i (fw_state w), fw_step w (fw_state w))),
      rt_DeleteSandbox = (\<lambda>i w. case fc_DeleteSandbox (fw_host w) i (fw_state w) of (e, r) \<Rightarrow> (e, fw_step w r)),
      rt_StopSandbox = (\<lambda>i w. case fc_StopSandbox (fw_host w) i (fw_state w) of (e, r) \<Rightarrow> (e, fw_step w r)),
      rt_EnsureSandboxRunning = (\<lambda>i w. case fc_EnsureSandboxRunning g (fw_host w) i (fw_state w) of (res, r) \<Rightarrow> (res, fw_step w r)),
      rt_DaemonURL = (\<lambda>i w. (fc_DaemonURL i (fw_state w), fw_step w (fw_state w)))\<rparr>"

definition fc_visible :: "fc_world \<Rightarrow> string \<Rightarrow> bool" where
  "fc_visible w i \<longleftrightarrow> (case fc_sandboxes (fw_state w) i of None \<Rightarrow> False | Some a \<Rightarrow> \<not> deleting (fc_cell (fw_state w) a))"

lemma fw_step_simps [simp]: "fw_state (fw_step w r) = r"
  by (simp add: fw_step_def)

lemma er_is_simps [simp]: "er_is (textErr t) = []" "er_is (wrapErr m e) = er_is e" "er_is (sentinelErr x) = [x]"
  by (simp_all add: textErr_def wrapErr_def sentinelErr_def)

lemma setupNetwork_err: "setupNetwork h k eg r = (Some e, r') \<Longrightarrow> er_is e = []"
  by (auto simp: setupNetwork_def ensureHostNATReady_def Let_def split: if_splits option.splits prod.splits)

lemma activate_err: "activateSandboxVM g h a r = (Some e, r') \<Longrightarrow> er_is e = []"
  by (auto simp: activateSandboxVM_def startGuest_def verifyKernelPin_def pin_cold_boot_def errActivationAbandoned_def Let_def
      split: if_splits option.splits prod.splits sum.splits dest: setupNetwork_err)

lemma create_refused:
  assumes "fc_CreateSandbox g h i eg r = (Inl e, r')" and "errors_Is e ErrCapacityExhausted"
  shows "r' = r"
  using assms reserveSandbox_cases(1)[of g h i eg r]
  by (auto simp: fc_CreateSandbox_def errors_Is_def Let_def split: if_splits option.splits prod.splits sum.splits dest: activate_err)

lemma wake_not_found_unchanged:
  assumes "fc_EnsureSandboxRunning g h i r = ((res, Some e), r')" and "errors_Is e ErrSandboxNotFound"
  shows "r' = r \<and> (\<forall>a. fc_sandboxes r i = Some a \<longrightarrow> deleting (fc_cell r a))"
proof -
  have "reserveWakeSlot g a r1 = (Some e1, r2) \<Longrightarrow> er_is e1 = []" for a r1 e1 r2
    by (auto simp: reserveWakeSlot_def split: if_splits prod.splits)
  then have "\<not> errors_Is e ErrSandboxNotFound" if "wake_claimed g h a r1 = ((rec, Some e), r2)" for a r1 rec r2
    using that by (auto simp: wake_claimed_def Let_def errors_Is_def split: if_splits option.splits prod.splits dest: activate_err)
  then show ?thesis
    using assms
    by (auto simp: fc_EnsureSandboxRunning_def ensureSandboxRunningOnce_def errors_Is_def beginTransition_def
        split: option.splits prod.splits if_splits sum.splits)
qed

interpretation fcrt: sandbox_runtime "fc_rt g keys paths" fc_visible
proof
  show "\<not> fc_visible w' i" if "rt_DaemonURL (fc_rt g keys paths) i w = (Inl e, w')" "errors_Is e ErrSandboxNotFound" for i w e w'
    using that by (auto simp: fc_rt_def fc_DaemonURL_def fc_visible_def errors_Is_def Let_def split: option.splits if_splits)
  show "\<not> fc_visible w' i" if "rt_GetSandboxInfo (fc_rt g keys paths) i w = (Inl e, w')" "errors_Is e ErrSandboxNotFound" for i w e w'
    using that by (auto simp: fc_rt_def fc_GetSandboxInfo_def fc_visible_def errors_Is_def Let_def split: option.splits if_splits)
  show "\<not> fc_visible w' i"
    if "rt_EnsureSandboxRunning (fc_rt g keys paths) i w = ((res, Some e), w')" "errors_Is e ErrSandboxNotFound" for i w res e w'
    using that wake_not_found_unchanged by (fastforce simp: fc_rt_def fc_visible_def split: option.splits prod.splits)
  show "fc_visible w' = fc_visible w"
    if "rt_CreateSandbox (fc_rt g keys paths) i opts w = (Inl e, w')" "errors_Is e ErrCapacityExhausted" for i opts w e w'
    using that create_refused
    by (fastforce simp: fc_rt_def fc_visible_def fc_panic_def fun_eq_iff errors_Is_def split: option.splits prod.splits)
qed

section \<open>Properties of single operations\<close>

lemma same_sandboxes_tracked:
  assumes "fc_wf g r" "fc_wf g r'" "same_sandboxes r r'"
  shows "fc_tracked r' a \<longleftrightarrow> fc_tracked r a" and "fc_tracked r a \<Longrightarrow> fc_cell r' a = fc_cell r a"
proof -
  have same: "fc_cell r' a = fc_cell r a" if "fc_sandboxes r i = Some a" for i using assms(3) that by (auto simp: same_sandboxes_def)
  have m: "fc_sandboxes r' = fc_sandboxes r" using assms(3) by (simp add: same_sandboxes_def)
  show "fc_cell r' a = fc_cell r a" if "fc_tracked r a" using that same by (auto simp: fc_tracked_def)
  show "fc_tracked r' a \<longleftrightarrow> fc_tracked r a" using same m unfolding fc_tracked_def by metis
qed

lemma same_sandboxes_DaemonURL: "same_sandboxes r r' \<Longrightarrow> fc_DaemonURL j r' = fc_DaemonURL j r"
  by (auto simp: same_sandboxes_def fc_DaemonURL_def Let_def split: option.splits)

lemma same_sandboxes_occupied:
  assumes "fc_wf g r" "fc_wf g r'" "same_sandboxes r r'"
  shows "occupiedSlotsLocked r' = occupiedSlotsLocked r"
  unfolding occupied_count[OF assms(1)] occupied_count[OF assms(2)]
  using same_sandboxes_tracked[OF assms] by (metis (mono_tags, lifting))

lemma create_occupies_one:
  assumes wf: "fc_wf g r" "fc_wf g r'" and new: "fc_sandboxes r i = None" and m: "fc_sandboxes r' = (fc_sandboxes r)(i \<mapsto> n)"
    and old: "\<And>j a. fc_sandboxes r j = Some a \<Longrightarrow> fc_cell r' a = fc_cell r a" and run: "fs_running (fc_cell r' n)"
  shows "occupiedSlotsLocked r' = Suc (occupiedSlotsLocked r)"
proof -
  let ?S = "\<lambda>r. {a. fc_tracked r a \<and> fs_slot (fc_cell r a) \<ge> 0}"
  have i: "fc_sandboxes r' i = Some n" by (simp add: m)
  note N = fc_wf_tracked[OF wf(2) i]
  have same: "fc_cell r' a = fc_cell r a" if "fc_tracked r a" for a
    using old[of "fs_id (fc_cell r a)" a] that by (simp add: fc_tracked_def)
  have fresh: "\<not> fc_tracked r n"
  proof
    assume t: "fc_tracked r n"
    then have "fc_sandboxes r i = Some n" using same[OF t] N(2) by (simp add: fc_tracked_def)
    then show False using new by simp
  qed
  have tr: "fc_tracked r' a \<longleftrightarrow> a = n \<or> fc_tracked r a" for a
  proof
    assume t: "fc_tracked r' a"
    then have "fs_id (fc_cell r' a) = i \<Longrightarrow> a = n" "fs_id (fc_cell r' a) \<noteq> i \<Longrightarrow> fc_sandboxes r (fs_id (fc_cell r' a)) = Some a"
      by (auto simp: fc_tracked_def m)
    then show "a = n \<or> fc_tracked r a" using fc_wf_tracked(4)[OF wf(1), of "fs_id (fc_cell r' a)" a] by argo
  next
    assume "a = n \<or> fc_tracked r a"
    then show "fc_tracked r' a"
    proof
      assume t: "fc_tracked r a"
      then have "fs_id (fc_cell r a) \<noteq> i" using new by (auto simp: fc_tracked_def)
      then show ?thesis using t same[OF t] by (simp add: fc_tracked_def m)
    qed (use N(4) in simp)
  qed
  have n: "fs_slot (fc_cell r' n) \<ge> 0" using N(3) run by (auto simp: cell_ok_def)
  have "?S r' = insert n (?S r)"
  proof (rule set_eqI)
    show "a \<in> ?S r' \<longleftrightarrow> a \<in> insert n (?S r)" for a
      using tr[of a] same[of a] n by (cases "a = n") auto
  qed
  moreover have "finite (?S r)"
    by (rule finite_subset[of _ "{..<fc_next r}"]) (use fc_wf_cell(1)[OF wf(1)] in blast, simp)
  ultimately show ?thesis unfolding occupied_count[OF wf(1)] occupied_count[OF wf(2)] using fresh by simp
qed

text \<open>
  Claim C18. Creating a Firecracker sandbox is all or nothing. Whatever step fails and whatever the
  cleanup manages to do, after an error every other sandbox resolves as before, the new one is not
  known and no slot is lost; after a success the new sandbox resolves to a URL, exactly one more slot
  is in use, and all others resolve as before. The invariant of the runtime holds either way.
\<close>

theorem fc_create_all_or_nothing:
  assumes "fc_wf g r" and "fc_CreateSandbox g h i eg r = (res, r')"
  shows "fc_wf g r' \<and> (\<forall>j. j \<noteq> i \<or> isl res \<longrightarrow> fc_DaemonURL j r' = fc_DaemonURL j r) \<and>
    occupiedSlotsLocked r' = occupiedSlotsLocked r + (if isl res then 0 else 1) \<and>
    (\<not> isl res \<longrightarrow> fc_DaemonURL i r = Inl (sentinelErr ErrSandboxNotFound) \<and> (\<exists>u. fc_DaemonURL i r' = Inr u))"
proof (cases res)
  case (Inl e)
  then show ?thesis
    using fc_CreateSandbox_spec[OF assms] same_sandboxes_DaemonURL[of r r'] same_sandboxes_occupied[OF assms(1), of r'] by auto
next
  case (Inr info)
  then have S: "fc_wf g r'" "fc_sandboxes r i = None" "fc_sandboxes r' = (fc_sandboxes r)(i \<mapsto> fc_next r)"
    "\<And>j a. fc_sandboxes r j = Some a \<Longrightarrow> fc_cell r' a = fc_cell r a"
    "fs_running (fc_cell r' (fc_next r))" "fs_transition (fc_cell r' (fc_next r)) = transitionNone"
    using fc_CreateSandbox_spec[OF assms] by auto
  have "fc_DaemonURL j r' = fc_DaemonURL j r" if "j \<noteq> i" for j
    using S(3,4) that by (auto simp: fc_DaemonURL_def split: option.splits)
  moreover have "fc_DaemonURL i r' = Inr (daemonURLOf g (fs_slot (fc_cell r' (fc_next r))))"
    by (rule running_DaemonURL[OF S(1)]) (use S in simp_all)
  moreover have "fc_DaemonURL i r = Inl (sentinelErr ErrSandboxNotFound)" using S(2) by (simp add: fc_DaemonURL_def)
  ultimately show ?thesis
    using Inr create_occupies_one[OF assms(1) S(1,2,3,4,5)] S(1) by auto
qed

text \<open>
  Claim C19. A client learns that the memory of its sandbox is lost exactly when it is. From a running
  sandbox, a stop that succeeds followed by a wake that succeeds is an ordinary wake, and a guest that
  dies followed by a wake that succeeds is reported as a recovery. In both cases the sandbox does not
  resolve in between and resolves again afterwards.
\<close>

theorem fc_memory_loss_reported:
  assumes wf: "fc_wf g r" and run: "fc_DaemonURL i r = Inr u" and a: "fc_sandboxes r i = Some a"
    and down: "(fc_StopSandbox h i r = (None, r1) \<and> \<not> died) \<or>
               (r1 = handleGuestDeath h a (fs_generation (fc_cell r a)) r \<and> died)"
    and up: "fc_EnsureSandboxRunning g h' i r1 = ((res, None), r2)"
  shows "fc_DaemonURL i r1 = Inl (sentinelErr ErrSandboxNotRunning) \<and> wr_Recovered res = died \<and> (\<exists>u. fc_DaemonURL i r2 = Inr u)"
proof -
  have A: "fs_running (fc_cell r a)" "fs_transition (fc_cell r a) = transitionNone"
    using DaemonURL_running[OF run wf] a by auto
  have m: "fs_mustColdBoot (fc_cell r a)" using fc_wf_tracked(3)[OF wf a] A by (auto simp: cell_ok_def)
  have "fc_wf g r1 \<and> fc_sandboxes r1 i = Some a \<and> stop_done (fc_cell r1 a) \<and> fs_transition (fc_cell r1 a) = transitionNone \<and>
    fs_mustColdBoot (fc_cell r1 a) = died"
    using down
  proof
    assume d: "fc_StopSandbox h i r = (None, r1) \<and> \<not> died"
    then show ?thesis using fc_StopSandbox_spec[OF wf, of h i None r1] a A by (auto simp: changes_only_def)
  next
    assume d: "r1 = handleGuestDeath h a (fs_generation (fc_cell r a)) r \<and> died"
    have t: "fc_tracked r a" using fc_wf_tracked(4)[OF wf a] .
    show ?thesis
      using handleGuestDeath_spec[OF wf t, of h "fs_generation (fc_cell r a)"] d a A m
      by (auto simp: changes_only_def)
  qed
  note D = this
  have "fc_DaemonURL i r1 = Inl (sentinelErr ErrSandboxNotRunning)" using stopped_DaemonURL D by blast
  moreover obtain b where b: "fc_wf g r2" "changes_only i r1 r2" "fc_sandboxes r2 i = Some b" "fs_running (fc_cell r2 b)"
    "fs_transition (fc_cell r2 b) = transitionNone" "wr_Recovered res = (fs_stopped (fc_cell r1 b) \<and> fs_mustColdBoot (fc_cell r1 b))"
    using fc_EnsureSandboxRunning_spec[OF conjunct1[OF D] up] by blast
  moreover have "b = a" using b(2,3) D by (simp add: changes_only_def)
  ultimately show ?thesis using D running_DaemonURL[OF b(1,3-5)] by (simp add: stop_done_def)
qed

section \<open>A wake succeeds when the host does\<close>

definition able_host :: "host \<Rightarrow> bool" where
  "able_host h \<longleftrightarrow> ho_ctxErr h = None \<and> ho_prepareJail h = None \<and> ho_hostNAT h = None \<and> ho_setupScript h = None \<and>
     ho_blockEgress h = None \<and> ho_startJailer h = None \<and> ho_waitForSocket h = None \<and> ho_coldBoot h = None \<and>
     ho_loadSnapshot h = None \<and> ho_newProxy h = None \<and> ho_probeDaemon h = None"

lemma setupNetwork_able: "able_host h \<Longrightarrow> fst (setupNetwork h k eg r) = None"
  by (auto simp: able_host_def setupNetwork_def ensureHostNATReady_def Let_def split: prod.splits if_splits)

lemma setupNetwork_cell: "setupNetwork h k eg r = (e, r') \<Longrightarrow> fc_cell r' = fc_cell r \<and> fc_sandboxes r' = fc_sandboxes r"
  by (auto simp: setupNetwork_def ensureHostNATReady_def set_wired_def fc_panic_def Let_def fc_cell_def
      split: prod.splits if_splits option.splits)

lemma activate_able:
  assumes h: "able_host h" and at: "at_cell g a (activating t) r0 r" and k: "verifyKernelPin g h (fs_kernel (fc_cell r a)) = None"
  shows "fst (activateSandboxVM g h a r) = None"
proof -
  obtain r1 where net: "setupNetwork h (fs_slot (fc_cell r a)) (fs_blockEgress (fc_cell r a)) r = (None, r1)"
    using setupNetwork_able[OF h] by (metis prod.collapse)
  note c = setupNetwork_cell[OF net]
  have "\<not> activationAbandonedLocked a r'" if "fs_transition (fc_cell r' a) = t" "fc_sandboxes r' = fc_sandboxes r"
    "fs_id (fc_cell r' a) = fs_id (fc_cell r a)" for r'
    using that at_cellD(2,3)[OF at] by (auto simp: activationAbandonedLocked_def deleting_def activating_def fc_tracked_def)
  then show ?thesis
    using h net c k at_cellD(3)[OF at]
    by (auto simp: able_host_def activateSandboxVM_def startGuest_def pin_cold_boot_def Let_def activating_def)
qed

lemma fc_wake_live:
  assumes h: "able_host h" and wf: "fc_wf g r" and i: "fc_sandboxes r i = Some a" and "fs_transition (fc_cell r a) = transitionNone"
    and st: "fs_stopped (fc_cell r a)" and room: "occupiedSlotsLocked r < length (fc_slots r)"
    and k: "verifyKernelPin g h (fs_kernel (fc_cell r a)) = None"
  shows "snd (fst (fc_EnsureSandboxRunning g h i r)) = None"
proof -
  obtain r1 where b: "beginTransition i transitionWaking r = (Inr a, r1)" and r1: "r1 = fc_upd a (\<lambda>s. s\<lparr>fs_transition := transitionWaking\<rparr>) r"
    using i assms(4) by (auto simp: beginTransition_def deleting_def)
  have at: "at_cell g a (claimed transitionWaking) r r1" by (rule beginTransition_at[OF wf b]) simp
  have p: "at_cell g a (is_parked transitionWaking) r r1"
    using at st by (auto simp: at_cell_def claimed_def is_parked_def r1)
  have f: "free_slot (fc_slots r1) \<noteq> None" using room free_slot_count[of "fc_slots r"] by (simp add: occupiedSlotsLocked_def r1)
  obtain r2 where rw: "reserveWakeSlot g a r1 = (None, r2)" and kern: "fs_kernel (fc_cell r2 a) = fs_kernel (fc_cell r a)"
    using f by (auto simp: reserveWakeSlot_def reserveSlotLocked_def r1)
  have a2: "at_cell g a (activating transitionWaking) r r2" using reserveWakeSlot_at[OF p rw] by simp
  obtain r3 where "activateSandboxVM g h a r2 = (None, r3)"
    using activate_able[OF h a2] k kern by (metis prod.collapse)
  then show ?thesis
    using h b rw st at_cellD(3)[OF p]
    by (auto simp: able_host_def fc_EnsureSandboxRunning_def ensureSandboxRunningOnce_def wake_claimed_def Let_def is_parked_def)
qed

section \<open>Concrete runs\<close>

definition example_fc_config :: fc_config where
  "example_fc_config =
     \<lparr>fg_DataDir = ''/d'', fg_JailerBaseDir = ''/j'', fg_TemplateDir = ''/t'', fg_ProxyListenIP = ''h'',
      fg_ProxyPortStart = 8, fg_GuestIP = ''g'', fg_shortID = take 1,
      fg_pinText = (\<lambda>p. itoaInt (kn_size p)), fg_JailerBin = ''/jailer'', fg_FirecrackerBin = ''/fc'',
      fg_SnapshotMemPath = ''/mem'', fg_SnapshotStatePath = ''/st''\<rparr>"

definition example_host :: host where
  "example_host =
     \<lparr>ho_pathExists = (\<lambda>_. True), ho_ctxErr = None, ho_bootParams = None, ho_kernel = Inr \<lparr>kn_size = 7, kn_modTime = 1\<rparr>,
      ho_volume = Inr (80000000, 90000000), ho_memSize = Inr 4096, ho_cloneRootfs = None, ho_cloneGoldenSnapshot = None,
      ho_prepareJail = None, ho_hostNAT = None, ho_setupScript = None, ho_blockEgress = None, ho_startJailer = None,
      ho_waitForSocket = None, ho_coldBoot = None, ho_loadSnapshot = None, ho_newProxy = None, ho_probeDaemon = None,
      ho_pauseVM = None, ho_createSnapshot = None, ho_resumeVM = None, ho_stopProxy = None, ho_kill = None,
      ho_cleanupHost = None, ho_clearNetwork = None, ho_removeDataDir = None\<rparr>"

definition example_fc_id :: string where
  "example_fc_id = ''sandbox-0001''"

definition example_created :: "(rt_error + SandboxInfo) \<times> fc" where
  "example_created = fc_CreateSandbox example_fc_config example_host example_fc_id True (fc_New 2)"

lemma fc_New_wf: "fc_wf g (fc_New n)"
  by (simp add: fc_New_def fc_wf_def occupied_def)

lemma example_created_eval:
  "\<not> isl (fst example_created) \<and> fc_DaemonURL example_fc_id (snd example_created) = Inr ''http://h:8'' \<and>
   fs_kernel (fc_cell (snd example_created) 0) = \<lparr>kn_size = 7, kn_modTime = 1\<rparr> \<and>
   length (fc_slots (snd example_created)) = 2"
  by code_simp

lemma example_created_facts:
  "\<not> isl (fst example_created)" "fc_DaemonURL example_fc_id (snd example_created) = Inr ''http://h:8''"
  "fs_kernel (fc_cell (snd example_created) 0) = \<lparr>kn_size = 7, kn_modTime = 1\<rparr>"
  "length (fc_slots (snd example_created)) = 2"
  using example_created_eval by blast+

lemma example_created_pair:
  "fc_CreateSandbox example_fc_config example_host example_fc_id True (fc_New 2) = (fst example_created, snd example_created)"
  by (simp add: example_created_def)

lemma example_created_wf: "fc_wf example_fc_config (snd example_created)"
  using fc_CreateSandbox_spec[OF fc_New_wf example_created_pair] by simp

lemma example_created_map:
  "fc_sandboxes (snd example_created) = [example_fc_id \<mapsto> 0]" "fs_running (fc_cell (snd example_created) 0)"
  "fs_transition (fc_cell (snd example_created) 0) = transitionNone"
  using fc_CreateSandbox_spec[OF fc_New_wf example_created_pair] example_created_facts(1)
  by (auto simp: fc_New_def split: sum.splits)

theorem fc_create_all_or_nothing_witness:
  "fc_wf example_fc_config (snd example_created) \<and> occupiedSlotsLocked (snd example_created) = 1 \<and>
   fc_DaemonURL example_fc_id (fc_New 2) = Inl (sentinelErr ErrSandboxNotFound)"
proof -
  have "occupiedSlotsLocked (fc_New 2) = 0" by (simp add: fc_New_def occupiedSlotsLocked_def occupied_def)
  then show ?thesis
    using fc_create_all_or_nothing[OF fc_New_wf example_created_pair] example_created_facts(1) by auto
qed

definition example_stopped :: fc where
  "example_stopped = snd (fc_StopSandbox example_host example_fc_id (snd example_created))"

definition example_crashed :: fc where
  "example_crashed = handleGuestDeath example_host 0 (fs_generation (fc_cell (snd example_created) 0)) (snd example_created)"

lemma example_stop_ok: "fst (fc_StopSandbox example_host example_fc_id (snd example_created)) = None"
  by code_simp

definition example_parked :: "fc \<Rightarrow> bool" where
  "example_parked r \<longleftrightarrow> fc_wf example_fc_config r \<and> changes_only example_fc_id (snd example_created) r \<and>
     stop_done (fc_cell r 0) \<and> fs_transition (fc_cell r 0) = transitionNone"

lemma example_down_facts: "example_parked example_stopped" "example_parked example_crashed"
proof -
  have "fc_StopSandbox example_host example_fc_id (snd example_created) = (None, example_stopped)"
    using example_stop_ok by (metis example_stopped_def prod.collapse)
  from fc_StopSandbox_spec[OF example_created_wf this] show "example_parked example_stopped"
    by (auto simp: example_parked_def changes_only_def example_created_map(1))
  have t: "fc_tracked (snd example_created) 0"
    using fc_wf_tracked(4)[OF example_created_wf, of example_fc_id 0] by (simp add: example_created_map(1))
  have i: "fs_id (fc_cell (snd example_created) 0) = example_fc_id"
    using fc_wf_tracked(2)[OF example_created_wf, of example_fc_id 0] by (simp add: example_created_map(1))
  show "example_parked example_crashed"
    using handleGuestDeath_spec[OF example_created_wf t, of example_host "fs_generation (fc_cell (snd example_created) 0)"] i
    by (simp add: example_parked_def example_crashed_def example_created_map(3))
qed

lemma example_parked_wakes:
  assumes "example_parked r"
  shows "snd (fst (fc_EnsureSandboxRunning example_fc_config example_host example_fc_id r)) = None"
proof -
  have P: "fc_wf example_fc_config r" "fc_sandboxes r = [example_fc_id \<mapsto> 0]" "stop_done (fc_cell r 0)"
    "fs_transition (fc_cell r 0) = transitionNone" "length (fc_slots r) = 2"
    "fs_kernel (fc_cell r 0) = \<lparr>kn_size = 7, kn_modTime = 1\<rparr>"
    using assms example_created_map(1) example_created_facts(3,4) by (auto simp: example_parked_def changes_only_def)
  have "{a. fc_tracked r a \<and> fs_slot (fc_cell r a) \<ge> 0} = {}"
    using P(2,3) by (auto simp: fc_tracked_def stop_done_def split: if_splits)
  then have "occupiedSlotsLocked r = 0" unfolding occupied_count[OF P(1)] by (simp only: card.empty)
  moreover have "able_host example_host" by (simp add: able_host_def example_host_def)
  moreover have "verifyKernelPin example_fc_config example_host \<lparr>kn_size = 7, kn_modTime = 1\<rparr> = None"
    by (simp add: verifyKernelPin_def example_host_def)
  ultimately show ?thesis
    using P by (intro fc_wake_live[where a = 0]) (auto simp: stop_done_def)
qed

theorem fc_memory_loss_reported_witness:
  "\<not> wr_Recovered (fst (fst (fc_EnsureSandboxRunning example_fc_config example_host example_fc_id example_stopped))) \<and>
   wr_Recovered (fst (fst (fc_EnsureSandboxRunning example_fc_config example_host example_fc_id example_crashed)))"
proof -
  let ?up = "fc_EnsureSandboxRunning example_fc_config example_host example_fc_id"
  have up: "?up r = ((fst (fst (?up r)), None), snd (?up r))" if "example_parked r" for r
    using example_parked_wakes[OF that] by (metis prod.collapse)
  have i: "fc_sandboxes (snd example_created) example_fc_id = Some 0" by (simp add: example_created_map(1))
  have "fc_StopSandbox example_host example_fc_id (snd example_created) = (None, example_stopped) \<and> \<not> False"
    using example_stop_ok by (metis example_stopped_def prod.collapse)
  note s = fc_memory_loss_reported[OF example_created_wf example_created_facts(2) i disjI1[OF this] up[OF example_down_facts(1)]]
  have "example_crashed = handleGuestDeath example_host 0 (fs_generation (fc_cell (snd example_created) 0)) (snd example_created) \<and> True"
    by (simp add: example_crashed_def)
  note c = fc_memory_loss_reported[OF example_created_wf example_created_facts(2) i disjI2[OF this] up[OF example_down_facts(2)]]
  show ?thesis using s c by blast
qed

end
