(* ===== verification/Fc_Interleaving.thy ===== *)
theory Fc_Interleaving
  imports Fc_Lifecycle
begin

text \<open>
  The lifecycle operations of the Firecracker runtime running concurrently. Every goroutine is a
  thread with a program point; a step is one block under the runtime's lock or one call to the host,
  so blocks of different operations interleave in any order. \<open>started\<close> collects the microVM
  processes ever started, as pairs of a state and the generation their exit callback captured: these
  are the deaths that can be reported, at any time after.
\<close>

section \<open>Threads\<close>

datatype fc_pc =
    Idle
  | ActJail sandboxTransition nat
  | ActStart sandboxTransition nat
  | ActGuest sandboxTransition nat
  | ActBoot sandboxTransition nat bool
  | ActProxy sandboxTransition nat
  | ActProbe sandboxTransition nat
  | StopRead nat
  | StopSnap nat
  | StopPin nat
  | WakeRead nat
  | WakeSlot nat
  | Tear nat bool
  | TearNet nat bool int
  | Parking nat bool
  | Release nat
  | DelMark nat bool
  | DelTake nat bool
  | DelNet nat bool int
  | DelFinish nat bool
  | DelUntrack nat
  | DeathNote nat nat
  | DeathCheck nat nat nat

type_synonym started = "(nat \<times> nat) set"

text \<open>Where an activation that fails continues: a create deletes, a wake tears down and parks.\<close>

definition act_failed :: "sandboxTransition \<Rightarrow> nat \<Rightarrow> fc_pc" where
  "act_failed t a = (if t = transitionCreating then DelMark a True else Tear a False)"

inductive fc_local :: "fc_config \<Rightarrow> fc_pc \<times> fc \<times> started \<Rightarrow> fc_pc \<times> fc \<times> started \<Rightarrow> bool" for g where
  create: "length i \<ge> 12 \<Longrightarrow> reserve_locked g i eg kern d r = (Inr a, r') \<Longrightarrow>
    fc_local g (Idle, r, S) (ActJail transitionCreating a, r', S)"
| stop: "beginTransition i transitionStopping r = (Inr a, r') \<Longrightarrow> fc_local g (Idle, r, S) (StopRead a, r', S)"
| wake: "beginTransition i transitionWaking r = (Inr a, r') \<Longrightarrow> fc_local g (Idle, r, S) (WakeRead a, r', S)"
| delete: "beginTransition i transitionDeleting r = (Inr a, r') \<Longrightarrow> fc_local g (Idle, r, S) (DelMark a False, r', S)"
| death: "(a, n) \<in> S \<Longrightarrow> recordGuestDeath a n r \<Longrightarrow> fc_local g (Idle, r, S) (DeathNote a n, r, S)"
| act_network: "setupNetwork h (fs_slot (fc_cell r a)) (fs_blockEgress (fc_cell r a)) r = (e, r') \<Longrightarrow>
    fc_local g (ActJail t a, r, S)
      (if e = None then (ActStart t a, r', insert (a, fs_generation (fc_cell r a)) S) else (act_failed t a, r', S))"
| act_jail_fails: "fc_local g (ActJail t a, r, S) (act_failed t a, r, S)"
| act_process: "r' = fc_upd a (\<lambda>s. s\<lparr>fs_process := True\<rparr>) r \<Longrightarrow>
    fc_local g (ActStart t a, r, S) (if activationAbandonedLocked a r' then act_failed t a else ActGuest t a, r', S)"
| act_socket_fails: "fc_local g (ActGuest t a, r, S) (act_failed t a, r, S)"
| act_pin: "pin_cold_boot a r = (cold, r') \<Longrightarrow> fc_local g (ActGuest t a, r, S) (ActBoot t a cold, r', S)"
| act_kernel_refused: "fc_local g (ActBoot t a True, r, S) (act_failed t a, r, S)"
| act_boot: "p = ActProxy t a \<or> p = act_failed t a \<Longrightarrow> fc_local g (ActBoot t a cold, r, S) (p, set_dirty a True r, S)"
| act_proxy_fails: "fc_local g (ActProxy t a, r, S) (act_failed t a, r, S)"
| act_proxy: "r' = fc_upd a (\<lambda>s. s\<lparr>fs_proxy := True\<rparr>) r \<Longrightarrow>
    fc_local g (ActProxy t a, r, S) (if activationAbandonedLocked a r' then act_failed t a else ActProbe t a, r', S)"
| act_probe_fails: "fc_local g (ActProbe t a, r, S) (act_failed t a, r, S)"
| create_done: "fc_local g (ActProbe transitionCreating a, r, S)
    (Idle, fc_upd a (\<lambda>s. s\<lparr>fs_running := True, fs_transition := transitionNone\<rparr>) r, S)"
| wake_done: "fc_local g (ActProbe transitionWaking a, r, S)
    (Release a, fc_upd a (\<lambda>s. s\<lparr>fs_running := True, fs_stopped := False\<rparr>) r, S)"
| stop_read: "fc_local g (StopRead a, r, S)
    (if fs_stopped (fc_cell r a) \<or> \<not> fs_running (fc_cell r a) then Release a else StopSnap a, r, S)"
| stop_refused: "fc_local g (StopSnap a, r, S) (Release a, r, S)"
| stop_pause_fails: "p = Release a \<or> p = Tear a False \<Longrightarrow> fc_local g (StopSnap a, r, S) (p, r, S)"
| stop_snapshot_fails: "p = Release a \<or> p = Tear a False \<Longrightarrow> fc_local g (StopSnap a, r, S) (p, set_dirty a True r, S)"
| stop_snapshot: "fc_local g (StopSnap a, r, S) (StopPin a, set_dirty a False r, S)"
| stop_unpin: "fc_local g (StopPin a, r, S) (Tear a False, fc_upd a (\<lambda>s. s\<lparr>fs_mustColdBoot := False\<rparr>) r, S)"
| wake_read: "fc_local g (WakeRead a, r, S)
    (if fs_running (fc_cell r a) \<or> \<not> fs_stopped (fc_cell r a) then Release a else WakeSlot a, r, S)"
| wake_slot: "reserveWakeSlot g a r = (e, r') \<Longrightarrow>
    fc_local g (WakeSlot a, r, S) (if e = None then ActJail transitionWaking a else Release a, r', S)"
| tear: "fc_local g (Tear a k, r, S) (TearNet a k (fs_slot (fc_cell r a)), take_handles a r, S)"
| tear_net: "(if slot \<ge> 0 then clearSlotNetwork h slot (Some a) r else (None, r)) = (e, r') \<Longrightarrow>
    fc_local g (TearNet a k slot, r, S) (Parking a k, r', S)"
| park: "fc_local g (Parking a k, r, S) (Release a, if k then bury a r else park a r, S)"
| release: "fc_local g (Release a, r, S) (Idle, endTransition a r, S)"
| del_mark: "fc_local g (DelMark a c, r, S) (DelTake a c, mark_deleting a r, S)"
| del_take: "fc_local g (DelTake a c, r, S) (DelNet a c (fs_slot (fc_cell r a)), take_handles a r, S)"
| del_net: "(if slot \<ge> 0 then clearSlotNetwork h slot (Some a) r else (None, r)) = (e, r') \<Longrightarrow>
    fc_local g (DelNet a c slot, r, S) (DelFinish a c, r', S)"
| del_done: "fc_local g (DelFinish a c, r, S) (Idle, untrackSandbox a r, S)"
| del_failed: "fc_local g (DelFinish a c, r, S) (if c then DelUntrack a else Idle, unmark_deleting a r, S)"
| del_untrack: "fc_local g (DelUntrack a, r, S) (Idle, untrackSandbox a r, S)"
| death_claim: "beginTransition (fs_id (fc_cell r d)) transitionStopping r = (Inr a, r') \<Longrightarrow>
    fc_local g (DeathNote d n, r, S) (DeathCheck a d n, r', S)"
| death_lost: "beginTransition (fs_id (fc_cell r d)) transitionStopping r = (Inl e, r') \<Longrightarrow>
    fc_local g (DeathNote d n, r, S) (Idle, r', S)"
| death_check: "fc_local g (DeathCheck a d n, r, S)
    (if a \<noteq> d \<or> fs_generation (fc_cell r a) \<noteq> n then Release a else Tear a True, r, S)"

text \<open>
  The background wirer runs beside them. It reads whether a slot is free before it builds, but a
  create may reserve the slot in between, so it may build any slot.
\<close>

record fc_system =
  sy_r :: fc
  sy_started :: started
  sy_pc :: "nat \<Rightarrow> fc_pc"

inductive fc_step :: "fc_config \<Rightarrow> fc_system \<Rightarrow> fc_system \<Rightarrow> bool" for g where
  thread: "fc_local g (sy_pc x t, sy_r x, sy_started x) (p, r, S) \<Longrightarrow>
    fc_step g x \<lparr>sy_r = r, sy_started = S, sy_pc = (sy_pc x)(t := p)\<rparr>"
| wirer: "k < length (fc_slots (sy_r x)) \<Longrightarrow>
    fc_step g x (x\<lparr>sy_r := snd (setupNetwork h (int k) False (sy_r x))\<rparr>)"

definition fc_init :: "int \<Rightarrow> fc_system" where
  "fc_init capacity = \<lparr>sy_r = fc_New capacity, sy_started = {}, sy_pc = (\<lambda>_. Idle)\<rparr>"

abbreviation fc_reachable :: "fc_config \<Rightarrow> int \<Rightarrow> fc_system \<Rightarrow> bool" where
  "fc_reachable g capacity x \<equiv> (fc_step g)\<^sup>*\<^sup>* (fc_init capacity) x"

section \<open>The invariant of the interleavings\<close>

text \<open>The state whose claim a thread holds.\<close>

fun holder :: "fc_pc \<Rightarrow> nat option" where
  "holder Idle = None" | "holder (ActJail t a) = Some a" | "holder (ActStart t a) = Some a" | "holder (ActGuest t a) = Some a"
| "holder (ActBoot t a c) = Some a" | "holder (ActProxy t a) = Some a" | "holder (ActProbe t a) = Some a"
| "holder (StopRead a) = Some a" | "holder (StopSnap a) = Some a" | "holder (StopPin a) = Some a" | "holder (WakeRead a) = Some a"
| "holder (WakeSlot a) = Some a" | "holder (Tear a k) = Some a" | "holder (TearNet a k s) = Some a"
| "holder (Parking a k) = Some a" | "holder (Release a) = Some a" | "holder (DelMark a c) = Some a" | "holder (DelTake a c) = Some a"
| "holder (DelNet a c s) = Some a" | "holder (DelFinish a c) = Some a" | "holder (DelUntrack a) = None"
| "holder (DeathNote a n) = None" | "holder (DeathCheck a d n) = Some a"

text \<open>The process of the current generation was started.\<close>

definition live :: "fc \<Rightarrow> started \<Rightarrow> nat \<Rightarrow> bool" where
  "live r S a \<longleftrightarrow> (a, fs_generation (fc_cell r a)) \<in> S"

definition on_cell :: "fc \<Rightarrow> nat \<Rightarrow> (sandboxState \<Rightarrow> bool) \<Rightarrow> bool" where
  "on_cell r a Q \<longleftrightarrow> fc_tracked r a \<and> Q (fc_cell r a)"

definition cell_inv :: "fc \<Rightarrow> started \<Rightarrow> nat \<Rightarrow> bool" where
  "cell_inv r S a \<longleftrightarrow>
     (live r S a \<and> (fs_transition (fc_cell r a) = transitionNone \<or> fs_transition (fc_cell r a) = transitionStopping) \<longrightarrow>
        fs_running (fc_cell r a)) \<and>
     (\<forall>n. (a, n) \<in> S \<longrightarrow> n \<le> fs_generation (fc_cell r a))"

text \<open>A state whose create has failed and given up the cleanup, before and after it is untracked.\<close>

definition pending :: "fc \<Rightarrow> started \<Rightarrow> nat \<Rightarrow> bool" where
  "pending r S a \<longleftrightarrow> a < fc_next r \<and> \<not> fs_running (fc_cell r a) \<and> \<not> fs_stopped (fc_cell r a) \<and> \<not> live r S a \<and>
     fs_transition (fc_cell r a) \<noteq> transitionCreating \<and> fs_slot (fc_cell r a) < int (length (fc_slots r))"

definition orphan :: "fc \<Rightarrow> started \<Rightarrow> nat \<Rightarrow> bool" where
  "orphan r S a \<longleftrightarrow> pending r S a \<and> \<not> fc_tracked r a"

definition clm :: "sandboxTransition \<Rightarrow> fc \<Rightarrow> started \<Rightarrow> nat \<Rightarrow> bool" where
  "clm t r S a \<longleftrightarrow> orphan r S a \<or> on_cell r a (claimed t) \<and> (live r S a \<longrightarrow> fs_running (fc_cell r a))"

definition tearing :: "sandboxState \<Rightarrow> bool" where
  "tearing s \<longleftrightarrow> (fs_transition s = transitionStopping \<or> fs_transition s = transitionWaking) \<and> (fs_running s \<or> fs_stopped s)"

definition vanishing :: "bool \<Rightarrow> sandboxState \<Rightarrow> bool" where
  "vanishing c s \<longleftrightarrow> fs_transition s = transitionDeleting \<and> \<not> fs_running s \<and> (c \<longrightarrow> \<not> fs_stopped s)"

fun pc_ok :: "fc \<Rightarrow> started \<Rightarrow> fc_pc \<Rightarrow> bool" where
  "pc_ok r S Idle = True"
| "pc_ok r S (ActJail t a) = on_cell r a (activating t)"
| "pc_ok r S (ActStart t a) = on_cell r a (activating t)"
| "pc_ok r S (ActGuest t a) = on_cell r a (\<lambda>s. activating t s \<and> fs_process s)"
| "pc_ok r S (ActBoot t a cold) =
     (on_cell r a (\<lambda>s. activating t s \<and> fs_process s \<and> fs_mustColdBoot s) \<and> (cold \<or> \<not> fc_dirty r a))"
| "pc_ok r S (ActProxy t a) = on_cell r a (\<lambda>s. activating t s \<and> fs_process s \<and> fs_mustColdBoot s)"
| "pc_ok r S (ActProbe t a) = on_cell r a (\<lambda>s. activating t s \<and> fs_process s \<and> fs_mustColdBoot s \<and> fs_proxy s)"
| "pc_ok r S (StopRead a) = clm transitionStopping r S a"
| "pc_ok r S (StopSnap a) = on_cell r a (\<lambda>s. claimed transitionStopping s \<and> fs_running s)"
| "pc_ok r S (StopPin a) = (on_cell r a (\<lambda>s. claimed transitionStopping s \<and> fs_running s) \<and> \<not> fc_dirty r a)"
| "pc_ok r S (WakeRead a) = clm transitionWaking r S a"
| "pc_ok r S (WakeSlot a) = (on_cell r a (is_parked transitionWaking) \<and> \<not> live r S a)"
| "pc_ok r S (Tear a k) = on_cell r a tearing"
| "pc_ok r S (TearNet a k slot) =
     (on_cell r a (\<lambda>s. tearing s \<and> slot = fs_slot s \<and> \<not> fs_process s \<and> \<not> fs_proxy s) \<and> \<not> live r S a)"
| "pc_ok r S (Parking a k) = (on_cell r a (\<lambda>s. tearing s \<and> \<not> fs_process s \<and> \<not> fs_proxy s) \<and> \<not> live r S a)"
| "pc_ok r S (Release a) =
     (orphan r S a \<or> on_cell r a (\<lambda>s. releasable (fs_transition s) s \<and> fs_transition s \<noteq> transitionDeleting) \<and>
        (live r S a \<longrightarrow> fs_running (fc_cell r a)))"
| "pc_ok r S (DelMark a c) =
     (if c then on_cell r a (\<lambda>s. fs_transition s = transitionCreating \<and> \<not> fs_stopped s) else clm transitionDeleting r S a)"
| "pc_ok r S (DelTake a c) = (on_cell r a (vanishing c) \<or> \<not> c \<and> orphan r S a)"
| "pc_ok r S (DelNet a c slot) =
     ((on_cell r a (vanishing c) \<or> \<not> c \<and> orphan r S a) \<and> \<not> live r S a \<and> slot = fs_slot (fc_cell r a))"
| "pc_ok r S (DelFinish a c) = ((on_cell r a (vanishing c) \<or> \<not> c \<and> orphan r S a) \<and> \<not> live r S a)"
| "pc_ok r S (DelUntrack a) = pending r S a"
| "pc_ok r S (DeathNote a n) = (a < fc_next r \<and> (a, n) \<in> S)"
| "pc_ok r S (DeathCheck a d n) = (clm transitionStopping r S a \<and> d < fc_next r \<and> (d, n) \<in> S)"

definition fc_inv :: "fc_config \<Rightarrow> fc_system \<Rightarrow> bool" where
  "fc_inv g x \<longleftrightarrow> fc_wf g (sy_r x) \<and> (\<forall>a < fc_next (sy_r x). cell_inv (sy_r x) (sy_started x) a) \<and>
     (\<forall>a n. (a, n) \<in> sy_started x \<longrightarrow> a < fc_next (sy_r x)) \<and>
     (\<forall>t. pc_ok (sy_r x) (sy_started x) (sy_pc x t)) \<and>
     (\<forall>t a. holder (sy_pc x t) = Some a \<longrightarrow> fs_transition (fc_cell (sy_r x) a) \<noteq> transitionNone) \<and>
     (\<forall>t t' a. holder (sy_pc x t) = Some a \<longrightarrow> holder (sy_pc x t') = Some a \<longrightarrow> t = t')"

text \<open>A step of one thread touches one cell.\<close>

definition frame :: "nat \<Rightarrow> fc \<Rightarrow> fc \<Rightarrow> bool" where
  "frame a r r' \<longleftrightarrow> (\<forall>b < fc_next r. b \<noteq> a \<longrightarrow> fc_cell r' b = fc_cell r b \<and> fc_dirty r' b = fc_dirty r b \<and> fc_tracked r' b = fc_tracked r b) \<and>
     fc_next r \<le> fc_next r' \<and> length (fc_slots r') = length (fc_slots r)"

lemma frame_refl [simp]: "frame a r r"
  by (simp add: frame_def)

lemma at_cell_frame:
  assumes at: "at_cell g a Q r r'" and tr: "fc_tracked r a"
  shows "frame a r r'"
proof -
  note A = at_cellD[OF at]
  have i: "fs_id (fc_cell r' a) = fs_id (fc_cell r a)" using A(4) by (simp add: only_touches_def)
  have "fc_tracked r' b = fc_tracked r b" if "b \<noteq> a" for b
  proof (cases "fs_id (fc_cell r b) = fs_id (fc_cell r a)")
    case True
    moreover have "fc_cell r' b = fc_cell r b" using A(4) that by (simp add: only_touches_def)
    ultimately show ?thesis using A(2) tr i that by (simp add: fc_tracked_def)
  next
    case False
    then show ?thesis using only_touches_tracked[OF A(4) that] by simp
  qed
  then show ?thesis using A(4) by (simp add: frame_def only_touches_def)
qed

lemma gone_frame:
  assumes "gone_cell g a r r'" and tr: "fc_tracked r a"
  shows "frame a r r'"
proof -
  have o: "only_touches a r r'" and n: "fc_sandboxes r' (fs_id (fc_cell r a)) = None" using assms by (auto simp: gone_cell_def)
  have "fc_tracked r' b = fc_tracked r b" if "b \<noteq> a" for b
  proof (cases "fs_id (fc_cell r b) = fs_id (fc_cell r a)")
    case True
    moreover have "fc_cell r' b = fc_cell r b" using o that by (simp add: only_touches_def)
    ultimately show ?thesis using tr n that by (simp add: fc_tracked_def)
  next
    case False
    then show ?thesis using only_touches_tracked[OF o that] by simp
  qed
  then show ?thesis using o by (simp add: frame_def only_touches_def)
qed

text \<open>What a step owes to the rest of the system.\<close>

definition step_ok :: "fc_config \<Rightarrow> nat \<Rightarrow> fc \<Rightarrow> started \<Rightarrow> fc_pc \<Rightarrow> fc \<Rightarrow> started \<Rightarrow> bool" where
  "step_ok g a r S p' r' S' \<longleftrightarrow> fc_wf g r' \<and> frame a r r' \<and> a < fc_next r' \<and> (\<forall>b < fc_next r'. b < fc_next r \<or> b = a) \<and>
     cell_inv r' S' a \<and> pc_ok r' S' p' \<and>
     (holder p' = None \<or> holder p' = Some a \<and> fs_transition (fc_cell r' a) \<noteq> transitionNone) \<and>
     (a < fc_next r \<longrightarrow> pending r S a \<longrightarrow> pending r' S' a) \<and>
     S \<subseteq> S' \<and> (\<forall>b n. (b, n) \<in> S' \<longrightarrow> b \<noteq> a \<longrightarrow> (b, n) \<in> S)"

fun pc_cell :: "fc_pc \<Rightarrow> nat option" where
  "pc_cell (DelUntrack a) = Some a"
| "pc_cell p = holder p"

lemma frame_live:
  assumes "frame a r r'" "b \<noteq> a" "b < fc_next r" "\<And>n. (b, n) \<in> S' \<longleftrightarrow> (b, n) \<in> S"
  shows "live r' S' b = live r S b" "pending r' S' b = pending r S b" "orphan r' S' b = orphan r S b"
    "on_cell r' b Q = on_cell r b Q" "clm t r' S' b = clm t r S b"
  using assms by (auto simp: frame_def live_def pending_def orphan_def on_cell_def clm_def)

lemma pc_cell_bound:
  assumes "fc_wf g r" "pc_ok r S q" "pc_cell q = Some b"
  shows "b < fc_next r"
  using assms fc_wf_cell(1)[OF assms(1)]
  by (cases q) (auto simp: on_cell_def clm_def orphan_def pending_def split: if_splits)

lemma pc_ok_frame:
  assumes wf: "fc_wf g r" and fr: "frame a r r'" and ok: "pc_ok r S q" and ne: "pc_cell q \<noteq> Some a"
    and S: "S \<subseteq> S'" "\<forall>b n. (b, n) \<in> S' \<longrightarrow> b \<noteq> a \<longrightarrow> (b, n) \<in> S"
  shows "pc_ok r' S' q"
proof (cases "pc_cell q")
  case None
  then show ?thesis using ok S fr by (cases q) (auto simp: frame_def)
next
  case (Some b)
  have b: "b \<noteq> a" "b < fc_next r" using ne Some pc_cell_bound[OF wf ok Some] by auto
  have "(b, n) \<in> S' \<longleftrightarrow> (b, n) \<in> S" for n using S b by auto
  note F = frame_live[OF fr b this]
  have c: "fc_cell r' b = fc_cell r b" "fc_dirty r' b = fc_dirty r b" "fc_next r \<le> fc_next r'" using fr b by (auto simp: frame_def)
  show ?thesis using ok Some F c S by (cases q) auto
qed

lemma step_ok_inv:
  assumes inv: "fc_inv g x" and ok: "step_ok g a (sy_r x) (sy_started x) p' r' S'"
    and others: "\<And>t'. t' \<noteq> t \<Longrightarrow> holder (sy_pc x t') = Some a \<Longrightarrow>
      pc_ok r' S' (sy_pc x t') \<and> fs_transition (fc_cell r' a) \<noteq> transitionNone \<and> holder p' \<noteq> Some a"
  shows "fc_inv g \<lparr>sy_r = r', sy_started = S', sy_pc = (sy_pc x)(t := p')\<rparr>"
proof -
  let ?r = "sy_r x" and ?S = "sy_started x" and ?T = "sy_pc x"
  have I: "fc_wf g ?r" "\<forall>b < fc_next ?r. cell_inv ?r ?S b" "\<forall>b n. (b, n) \<in> ?S \<longrightarrow> b < fc_next ?r" "\<And>t. pc_ok ?r ?S (?T t)"
    "\<And>t b. holder (?T t) = Some b \<Longrightarrow> fs_transition (fc_cell ?r b) \<noteq> transitionNone"
    "\<And>t t' b. holder (?T t) = Some b \<Longrightarrow> holder (?T t') = Some b \<Longrightarrow> t = t'"
    using inv by (auto simp: fc_inv_def)
  have K: "fc_wf g r'" "frame a ?r r'" "a < fc_next r'" "\<forall>b < fc_next r'. b < fc_next ?r \<or> b = a" "cell_inv r' S' a" "pc_ok r' S' p'"
    "holder p' = None \<or> holder p' = Some a \<and> fs_transition (fc_cell r' a) \<noteq> transitionNone"
    "a < fc_next ?r \<longrightarrow> pending ?r ?S a \<longrightarrow> pending r' S' a" "?S \<subseteq> S'" "\<forall>b n. (b, n) \<in> S' \<longrightarrow> b \<noteq> a \<longrightarrow> (b, n) \<in> ?S"
    using ok unfolding step_ok_def by blast+
  have cells: "cell_inv r' S' b" if "b < fc_next r'" for b
  proof (cases "b = a")
    case False
    then have b: "b < fc_next ?r" using K(4) that by blast
    have "(b, n) \<in> S' \<longleftrightarrow> (b, n) \<in> ?S" for n using K(9,10) False by auto
    then show ?thesis using I(2) b False K(2) frame_live(1)[OF K(2) False b, of S' ?S]
      by (auto simp: cell_inv_def frame_def)
  qed (use K(5) in simp)
  have started: "b < fc_next r'" if "(b, n) \<in> S'" for b n
  proof (cases "b = a")
    case False
    then have "b < fc_next ?r" using that K(10) I(3) by blast
    then show ?thesis using K(2) by (simp add: frame_def)
  qed (use K(3) in simp)
  have pcs: "pc_ok r' S' (?T t')" if "t' \<noteq> t" for t'
  proof (cases "pc_cell (?T t') = Some a")
    case True
    show ?thesis
    proof (cases "holder (?T t') = Some a")
      case False
      then have "?T t' = DelUntrack a" using True by (cases "?T t'") auto
      then show ?thesis using I(4)[of t'] K(8) by (auto simp: pending_def)
    qed (use others that in blast)
  qed (rule pc_ok_frame[OF I(1) K(2) I(4) _ K(9,10)])
  have trans: "fs_transition (fc_cell r' b) \<noteq> transitionNone" if "t' \<noteq> t" "holder (?T t') = Some b" for t' b
  proof (cases "b = a")
    case False
    have "pc_cell (?T t') = Some b" using that(2) by (cases "?T t'") auto
    then have "b < fc_next ?r" using pc_cell_bound[OF I(1) I(4)] by blast
    then show ?thesis using K(2) False I(5)[OF that(2)] by (auto simp: frame_def)
  qed (use others that in blast)
  have dist: "holder (?T t') \<noteq> Some b" if "t' \<noteq> t" "holder p' = Some b" for t' b
    using others[OF that(1)] K(7) that(2) by auto
  show ?thesis
    unfolding fc_inv_def using K(1,6,7) cells started pcs trans dist I(6) by (auto split: if_splits)
qed

lemma cell_inv_same:
  assumes "cell_inv r S a" "fs_generation (fc_cell r' a) = fs_generation (fc_cell r a)"
    "fs_transition (fc_cell r' a) = fs_transition (fc_cell r a)" "fs_running (fc_cell r a) \<Longrightarrow> fs_running (fc_cell r' a)"
  shows "cell_inv r' S a"
  using assms by (auto simp: cell_inv_def live_def)

lemma act_failed_ok: "on_cell r a (activating t) \<Longrightarrow> pc_ok r S (act_failed t a)"
  by (auto simp: act_failed_def on_cell_def activating_def tearing_def)

lemma act_failed_holder [simp]: "holder (act_failed t a) = Some a"
  by (simp add: act_failed_def)

lemma on_at_cell: "fc_wf g r \<Longrightarrow> on_cell r a Q \<Longrightarrow> at_cell g a Q r r"
  by (simp add: at_cell_def on_cell_def)

lemma at_cell_on: "at_cell g a Q r0 r \<Longrightarrow> on_cell r a Q"
  by (simp add: at_cell_def on_cell_def)

text \<open>A step that changes nothing but the program point.\<close>

lemma step_ok_idle:
  assumes "fc_wf g r" "a < fc_next r" "cell_inv r S a" "pc_ok r S p'"
    "holder p' = None \<or> holder p' = Some a \<and> fs_transition (fc_cell r a) \<noteq> transitionNone"
  shows "step_ok g a r S p' r S"
  using assms by (simp add: step_ok_def)

text \<open>A step on a tracked state that leaves it tracked.\<close>

lemma step_ok_at:
  assumes at: "at_cell g a Q r r'" and tr: "fc_tracked r a" and wf: "fc_wf g r"
    and "cell_inv r' S' a" "pc_ok r' S' p'" "holder p' = None \<or> holder p' = Some a \<and> fs_transition (fc_cell r' a) \<noteq> transitionNone"
    and "pending r S a \<Longrightarrow> pending r' S' a" and "S' = S \<or> (\<exists>n. S' = insert (a, n) S)"
  shows "step_ok g a r S p' r' S'"
  using at_cellD[OF at] at_cell_frame[OF at tr] fc_wf_cell(1)[OF wf tr] assms(4-8)
  by (auto simp: step_ok_def only_touches_def)

lemma not_pending:
  "pending r S a \<Longrightarrow> fs_running (fc_cell r a) \<or> fs_stopped (fc_cell r a) \<or> live r S a \<Longrightarrow> False"
  by (auto simp: pending_def)

section \<open>Every step keeps the invariant\<close>

lemma on_cellD: "on_cell r a Q \<Longrightarrow> fc_tracked r a" "on_cell r a Q \<Longrightarrow> Q (fc_cell r a)"
  by (simp_all add: on_cell_def)

lemma on_cell_weaken: "on_cell r a Q \<Longrightarrow> (\<And>s. Q s \<Longrightarrow> Q' s) \<Longrightarrow> on_cell r a Q'"
  by (simp add: on_cell_def)

text \<open>A step that keeps generation, transition and the running flag of a tracked state.\<close>

lemma step_ok_keep:
  assumes at: "at_cell g a Q r r'" and tr: "fc_tracked r a" and wf: "fc_wf g r" and ci: "cell_inv r S a"
    and same: "fs_generation (fc_cell r' a) = fs_generation (fc_cell r a)" "fs_transition (fc_cell r' a) = fs_transition (fc_cell r a)"
      "fs_running (fc_cell r' a) = fs_running (fc_cell r a)" "fs_stopped (fc_cell r' a) = fs_stopped (fc_cell r a)"
      "fs_slot (fc_cell r' a) = fs_slot (fc_cell r a)"
    and "pc_ok r' S p'" "holder p' = Some a" "fs_transition (fc_cell r a) \<noteq> transitionNone"
  shows "step_ok g a r S p' r' S"
proof (rule step_ok_at[OF at tr wf])
  show "cell_inv r' S a" using ci same by (auto intro: cell_inv_same)
  show "pending r S a \<Longrightarrow> pending r' S a"
    using same at_cellD(4)[OF at] by (auto simp: pending_def live_def only_touches_def)
qed (use assms in auto)

lemma step_ok_wiring:
  assumes on: "on_cell r a Q" and wf: "fc_wf g r" and ci: "cell_inv r S a" and w: "wiring r r'"
    and "pc_ok r' S p'" "holder p' = Some a" "fs_transition (fc_cell r a) \<noteq> transitionNone"
  shows "step_ok g a r S p' r' S"
  by (rule step_ok_keep[OF at_cell_wiring[OF on_at_cell[OF wf on] w] on_cellD(1)[OF on] wf ci])
     (use assms wiring_cell[OF w] in auto)

lemma wiring_live:
  assumes "wiring r r'"
  shows "live r' S a = live r S a" "on_cell r' a Q = on_cell r a Q" "orphan r' S a = orphan r S a" "pending r' S a = pending r S a"
  using wiring_cell[OF assms] wiring_length[OF assms] assms
  by (auto simp: live_def on_cell_def orphan_def pending_def wiring_def fc_tracked_def)

text \<open>Updates of a state nobody tracks.\<close>

lemma fc_wf_upd_orphan:
  assumes wf: "fc_wf g r" and "\<not> fc_tracked r a" and "fs_id (f (fc_cell r a)) = fs_id (fc_cell r a)"
    and "fs_mustColdBoot (f (fc_cell r a)) = fs_mustColdBoot (fc_cell r a)"
  shows "fc_wf g (fc_upd a f r)"
proof -
  have no: "fc_sandboxes r i \<noteq> Some a" for i using fc_wf_tracked(4)[OF wf] assms(2) by blast
  show ?thesis
  proof (rule fc_wfI)
    show "\<exists>b. fc_sandboxes (fc_upd a f r) (sl_sandboxID (fc_slots (fc_upd a f r) ! k)) = Some b \<and>
        fs_slot (fc_cell (fc_upd a f r) b) = int k"
      if k: "k < length (fc_slots (fc_upd a f r))" "occupied (fc_slots (fc_upd a f r) ! k)" for k
    proof -
      obtain b where "fc_sandboxes r (sl_sandboxID (fc_slots r ! k)) = Some b" "fs_slot (fc_cell r b) = int k"
        using wf k by (auto simp: fc_wf_def)
      then show ?thesis using no by auto
    qed
    show "b < fc_next (fc_upd a f r) \<and> fs_id (fc_cell (fc_upd a f r) b) = i \<and> cell_ok g (fc_slots (fc_upd a f r)) (fc_cell (fc_upd a f r) b)"
      if "fc_sandboxes (fc_upd a f r) i = Some b" for i b
      using fc_wf_tracked[OF wf, of i b] that no[of i] by auto
  qed (use wf assms(4) in \<open>auto simp: fc_wf_def\<close>)
qed

lemma frame_upd: "fs_id (f (fc_cell r a)) = fs_id (fc_cell r a) \<Longrightarrow> frame a r (fc_upd a f r)"
  by (simp add: frame_def)

lemma step_ok_orphan:
  assumes wf: "fc_wf g r" and o: "orphan r S a"
    and f: "fs_id (f (fc_cell r a)) = fs_id (fc_cell r a)" "fs_mustColdBoot (f (fc_cell r a)) = fs_mustColdBoot (fc_cell r a)"
      "\<not> fs_running (f (fc_cell r a))" "\<not> fs_stopped (f (fc_cell r a))" "fs_slot (f (fc_cell r a)) = fs_slot (fc_cell r a)"
      "(a, fs_generation (f (fc_cell r a))) \<notin> S" "fs_generation (fc_cell r a) \<le> fs_generation (f (fc_cell r a))"
      "fs_transition (f (fc_cell r a)) \<noteq> transitionCreating"
    and ci: "cell_inv r S a" and pc: "pc_ok (fc_upd a f r) S p'"
    and h: "holder p' = None \<or> holder p' = Some a \<and> fs_transition (f (fc_cell r a)) \<noteq> transitionNone"
  shows "step_ok g a r S p' (fc_upd a f r) S"
proof -
  have "fc_wf g (fc_upd a f r)" using fc_wf_upd_orphan[of g r a f] wf f(1,2) o by (simp add: orphan_def)
  moreover have "cell_inv (fc_upd a f r) S a" using ci f(6,7) by (force simp: cell_inv_def live_def)
  moreover have "pending (fc_upd a f r) S a" using o f by (simp add: orphan_def pending_def live_def)
  ultimately show ?thesis using frame_upd[of f r a] f(1) pc h o by (auto simp: step_ok_def orphan_def pending_def)
qed

lemma orphan_upd:
  assumes "orphan r S a" "fs_id (f (fc_cell r a)) = fs_id (fc_cell r a)" "\<not> fs_running (f (fc_cell r a))"
    "\<not> fs_stopped (f (fc_cell r a))" "fs_slot (f (fc_cell r a)) = fs_slot (fc_cell r a)" "(a, fs_generation (f (fc_cell r a))) \<notin> S"
    "fs_transition (f (fc_cell r a)) \<noteq> transitionCreating"
  shows "orphan (fc_upd a f r) S a"
  using assms by (simp add: orphan_def pending_def live_def)

text \<open>Bumping the generation makes the state dead: no process of the new generation was started.\<close>

lemma next_generation: "cell_inv r S a \<Longrightarrow> (a, Suc (fs_generation (fc_cell r a))) \<notin> S"
  by (fastforce simp: cell_inv_def)

inductive_cases ActJailE: "fc_local g (ActJail t a, r, S) (p', r', S')"
inductive_cases ActStartE: "fc_local g (ActStart t a, r, S) (p', r', S')"
inductive_cases ActGuestE: "fc_local g (ActGuest t a, r, S) (p', r', S')"
inductive_cases ActBootE: "fc_local g (ActBoot t a cold, r, S) (p', r', S')"
inductive_cases ActProxyE: "fc_local g (ActProxy t a, r, S) (p', r', S')"
inductive_cases ActProbeE: "fc_local g (ActProbe t a, r, S) (p', r', S')"
inductive_cases StopReadE: "fc_local g (StopRead a, r, S) (p', r', S')"
inductive_cases StopSnapE: "fc_local g (StopSnap a, r, S) (p', r', S')"
inductive_cases StopPinE: "fc_local g (StopPin a, r, S) (p', r', S')"
inductive_cases WakeReadE: "fc_local g (WakeRead a, r, S) (p', r', S')"
inductive_cases WakeSlotE: "fc_local g (WakeSlot a, r, S) (p', r', S')"
inductive_cases TearE: "fc_local g (Tear a k, r, S) (p', r', S')"
inductive_cases TearNetE: "fc_local g (TearNet a k slot, r, S) (p', r', S')"
inductive_cases ParkingE: "fc_local g (Parking a k, r, S) (p', r', S')"
inductive_cases ReleaseE: "fc_local g (Release a, r, S) (p', r', S')"
inductive_cases DelMarkE: "fc_local g (DelMark a c, r, S) (p', r', S')"
inductive_cases DelTakeE: "fc_local g (DelTake a c, r, S) (p', r', S')"
inductive_cases DelNetE: "fc_local g (DelNet a c slot, r, S) (p', r', S')"
inductive_cases DelFinishE: "fc_local g (DelFinish a c, r, S) (p', r', S')"
inductive_cases DelUntrackE: "fc_local g (DelUntrack a, r, S) (p', r', S')"
inductive_cases DeathNoteE: "fc_local g (DeathNote d n, r, S) (p', r', S')"
inductive_cases DeathCheckE: "fc_local g (DeathCheck a d n, r, S) (p', r', S')"
inductive_cases IdleE: "fc_local g (Idle, r, S) (p', r', S')"

subsection \<open>Activation\<close>

lemma activating_claim: "activating t s \<Longrightarrow> fs_transition s \<noteq> transitionNone"
  by (auto simp: activating_def)

lemma act_fails:
  assumes "fc_wf g r" "on_cell r a Q" "\<And>s. Q s \<Longrightarrow> activating t s" "cell_inv r S a"
  shows "step_ok g a r S (act_failed t a) r S"
  using assms on_cellD[OF assms(2)] fc_wf_cell(1)[OF assms(1)] activating_claim[of t "fc_cell r a"]
  by (intro step_ok_idle act_failed_ok on_cell_weaken[OF assms(2)]) auto

lemma local_ActJail:
  assumes st: "fc_local g (ActJail t a, r, S) (p', r', S')" and wf: "fc_wf g r" and on: "on_cell r a (activating t)" and ci: "cell_inv r S a"
  shows "step_ok g a r S p' r' S'"
  using st
proof (rule ActJailE)
  fix h e r'' assume n: "setupNetwork h (fs_slot (fc_cell r a)) (fs_blockEgress (fc_cell r a)) r = (e, r'')"
    and p: "(p', r', S') = (if e = None then (ActStart t a, r'', insert (a, fs_generation (fc_cell r a)) S) else (act_failed t a, r'', S))"
  note C = on_cellD[OF on]
  have w: "wiring r r''"
    using C fc_wf_cell(2)[OF wf C(1)] by (intro setupNetwork_wiring[OF n]) (auto simp: activating_def cell_ok_def)
  note at = at_cell_wiring[OF on_at_cell[OF wf on] w]
  show ?thesis
  proof (cases e)
    case None
    have "step_ok g a r S (ActStart t a) r'' (insert (a, fs_generation (fc_cell r a)) S)"
    proof (rule step_ok_at[OF at C(1) wf])
      show "cell_inv r'' (insert (a, fs_generation (fc_cell r a)) S) a"
        using ci C(2) wiring_cell[OF w] by (auto simp: cell_inv_def activating_def)
      show "pending r'' (insert (a, fs_generation (fc_cell r a)) S) a" if "pending r S a"
        using that C(2) by (auto simp: pending_def activating_def)
    qed (use at_cell_on[OF at] C(2) wiring_cell[OF w] in \<open>auto simp: activating_def\<close>)
    then show ?thesis using p None by simp
  next
    case (Some x)
    then show ?thesis
      using step_ok_wiring[OF on wf ci w act_failed_ok[OF at_cell_on[OF at]] act_failed_holder activating_claim[OF C(2)]] p by simp
  qed
next
  assume "p' = act_failed t a" "r' = r" "S' = S"
  then show ?thesis using act_fails[OF wf on _ ci] by simp
qed

lemma upd_step:
  assumes wf: "fc_wf g r" and on: "on_cell r a Q" and ci: "cell_inv r S a"
    and f: "\<And>s. Q s \<Longrightarrow> cell_ok g (fc_slots r) s \<Longrightarrow> fs_id (f s) = fs_id s \<and> fs_kernel (f s) = fs_kernel s \<and> fs_blockEgress (f s) = fs_blockEgress s \<and> fs_slot (f s) = fs_slot s \<and>
           cell_ok g (fc_slots r) (f s) \<and> (fs_mustColdBoot s \<longrightarrow> fs_mustColdBoot (f s)) \<and> Q' (f s)"
    and keep: "\<And>s. fs_generation (f s) = fs_generation s \<and> fs_transition (f s) = fs_transition s \<and> fs_running (f s) = fs_running s \<and>
           fs_stopped (f s) = fs_stopped s"
    and pc: "on_cell (fc_upd a f r) a Q' \<Longrightarrow> pc_ok (fc_upd a f r) S p'" and h: "holder p' = Some a"
    and tr: "fs_transition (fc_cell r a) \<noteq> transitionNone"
  shows "step_ok g a r S p' (fc_upd a f r) S"
proof -
  note C = on_cellD[OF on]
  have at: "at_cell g a Q' r (fc_upd a f r)" by (rule at_cell_upd[OF on_at_cell[OF wf on] f])
  show ?thesis
    by (rule step_ok_keep[OF at C(1) wf ci]) (use keep pc[OF at_cell_on[OF at]] h tr f[OF C(2) fc_wf_cell(2)[OF wf C(1)]] in auto)
qed

lemma local_ActStart:
  assumes st: "fc_local g (ActStart t a, r, S) (p', r', S')" and wf: "fc_wf g r" and on: "on_cell r a (activating t)" and ci: "cell_inv r S a"
  shows "step_ok g a r S p' r' S'"
proof -
  let ?f = "\<lambda>s. s\<lparr>fs_process := True\<rparr>"
  have e: "S' = S" "r' = fc_upd a ?f r" "p' = (if activationAbandonedLocked a r' then act_failed t a else ActGuest t a)"
    using st by (auto elim: ActStartE)
  have "\<not> activationAbandonedLocked a r'"
    using on unfolding e(2) by (intro not_abandoned[of _ _ t]) (auto simp: on_cell_def activating_def)
  then have p: "p' = ActGuest t a" using e(3) by simp
  show ?thesis
    unfolding e(1,2) p
    by (rule upd_step[OF wf on ci, where Q' = "\<lambda>s. activating t s \<and> fs_process s"])
       (use activating_claim[OF on_cellD(2)[OF on]] in \<open>auto simp: cell_ok_def activating_def\<close>)
qed

text \<open>The pin: what a restore reads is clean, and from here on the snapshot counts as used up.\<close>

lemma local_ActGuest:
  assumes st: "fc_local g (ActGuest t a, r, S) (p', r', S')" and wf: "fc_wf g r"
    and on: "on_cell r a (\<lambda>s. activating t s \<and> fs_process s)" and ci: "cell_inv r S a"
  shows "step_ok g a r S p' r' S'"
  using st
proof (rule ActGuestE)
  assume "p' = act_failed t a" "r' = r" "S' = S"
  then show ?thesis using act_fails[OF wf on _ ci] by simp
next
  fix cold assume "pin_cold_boot a r = (cold, r')" and p: "p' = ActBoot t a cold" "S' = S"
  then have e: "cold = fs_mustColdBoot (fc_cell r a)" "r' = fc_upd a (\<lambda>s. s\<lparr>fs_mustColdBoot := True\<rparr>) r"
    by (auto simp: pin_cold_boot_def)
  have "cold \<or> \<not> fc_dirty r a"
    using wf fc_wf_cell(1)[OF wf on_cellD(1)[OF on]] e(1) by (auto simp: fc_wf_def)
  then show ?thesis
    unfolding p e(2)
    by (intro upd_step[OF wf on ci, where Q' = "\<lambda>s. activating t s \<and> fs_process s \<and> fs_mustColdBoot s"])
       (use on_cellD(2)[OF on] in \<open>auto simp: cell_ok_def activating_def\<close>)
qed

lemma dirty_step:
  assumes wf: "fc_wf g r" and on: "on_cell r a Q" and ci: "cell_inv r S a" and "b \<Longrightarrow> fs_mustColdBoot (fc_cell r a)"
    and "pc_ok (set_dirty a b r) S p'" "holder p' = Some a" "fs_transition (fc_cell r a) \<noteq> transitionNone"
  shows "step_ok g a r S p' (set_dirty a b r) S"
  by (rule step_ok_keep[OF at_cell_dirty[OF on_at_cell[OF wf on]] on_cellD(1)[OF on] wf ci]) (use assms in auto)

lemma on_cell_dirty [simp]: "on_cell (set_dirty a b r) c Q = on_cell r c Q"
  by (simp add: on_cell_def)

lemma local_ActBoot:
  assumes st: "fc_local g (ActBoot t a cold, r, S) (p', r', S')" and wf: "fc_wf g r"
    and on: "on_cell r a (\<lambda>s. activating t s \<and> fs_process s \<and> fs_mustColdBoot s)" and ci: "cell_inv r S a"
  shows "step_ok g a r S p' r' S'"
  using st
proof (rule ActBootE)
  assume "p' = act_failed t a" "r' = r" "S' = S"
  then show ?thesis using act_fails[OF wf on _ ci] by simp
next
  assume p: "p' = ActProxy t a \<or> p' = act_failed t a" and e: "r' = set_dirty a True r" "S' = S"
  have on': "on_cell (set_dirty a True r) a (activating t)" using on by (simp add: on_cell_def)
  show ?thesis
    unfolding e
    by (rule dirty_step[OF wf on ci])
       (use p on on_cellD(2)[OF on] act_failed_ok[OF on'] in \<open>auto dest: activating_claim\<close>)
qed

lemma local_ActProxy:
  assumes st: "fc_local g (ActProxy t a, r, S) (p', r', S')" and wf: "fc_wf g r"
    and on: "on_cell r a (\<lambda>s. activating t s \<and> fs_process s \<and> fs_mustColdBoot s)" and ci: "cell_inv r S a"
  shows "step_ok g a r S p' r' S'"
  using st
proof (rule ActProxyE)
  assume "p' = act_failed t a" "r' = r" "S' = S"
  then show ?thesis using act_fails[OF wf on _ ci] by simp
next
  assume e: "r' = fc_upd a (\<lambda>s. s\<lparr>fs_proxy := True\<rparr>) r" "S' = S"
    and p: "p' = (if activationAbandonedLocked a (fc_upd a (\<lambda>s. s\<lparr>fs_proxy := True\<rparr>) r) then act_failed t a else ActProbe t a)"
  have "\<not> activationAbandonedLocked a r'"
    using on unfolding e by (intro not_abandoned[of _ _ t]) (auto simp: on_cell_def activating_def)
  then have p: "p' = ActProbe t a" using p e by simp
  show ?thesis
    unfolding e p
    by (rule upd_step[OF wf on ci, where Q' = "\<lambda>s. activating t s \<and> fs_process s \<and> fs_mustColdBoot s \<and> fs_proxy s"])
       (use activating_claim on_cellD(2)[OF on] in \<open>auto simp: cell_ok_def activating_def\<close>)
qed

lemma local_ActProbe:
  assumes st: "fc_local g (ActProbe t a, r, S) (p', r', S')" and wf: "fc_wf g r"
    and on: "on_cell r a (\<lambda>s. activating t s \<and> fs_process s \<and> fs_mustColdBoot s \<and> fs_proxy s)" and ci: "cell_inv r S a"
  shows "step_ok g a r S p' r' S'"
  using st
proof (rule ActProbeE)
  assume "p' = act_failed t a" "r' = r" "S' = S"
  then show ?thesis using act_fails[OF wf on _ ci] by simp
next
  assume e: "t = transitionCreating" "p' = Idle" "r' = fc_upd a (\<lambda>s. s\<lparr>fs_running := True, fs_transition := transitionNone\<rparr>) r" "S' = S"
  have at: "at_cell g a (\<lambda>s. fs_running s) r r'"
    unfolding e by (rule at_cell_upd[OF on_at_cell[OF wf on]]) (use e(1) in \<open>auto simp: cell_ok_def activating_def\<close>)
  show ?thesis
    unfolding e(2,4)
    by (rule step_ok_at[OF at on_cellD(1)[OF on] wf])
       (use ci on_cellD(2)[OF on] e in \<open>auto simp: cell_inv_def pending_def activating_def\<close>)
next
  assume e: "t = transitionWaking" "p' = Release a" "r' = fc_upd a (\<lambda>s. s\<lparr>fs_running := True, fs_stopped := False\<rparr>) r" "S' = S"
  have at: "at_cell g a (\<lambda>s. fs_running s \<and> releasable (fs_transition s) s \<and> fs_transition s = transitionWaking) r r'"
    unfolding e by (rule at_cell_upd[OF on_at_cell[OF wf on]]) (use e(1) in \<open>auto simp: cell_ok_def activating_def releasable_def\<close>)
  show ?thesis
    unfolding e(2,4)
    by (rule step_ok_at[OF at on_cellD(1)[OF on] wf])
       (use ci on_cellD(2)[OF on] at_cell_on[OF at] e in \<open>auto simp: cell_inv_def live_def pending_def activating_def on_cell_def\<close>)
qed

subsection \<open>Stop, wake and guest death\<close>

lemma clm_cases:
  assumes "clm t r S a" "fc_wf g r" "t \<noteq> transitionNone" "t \<noteq> transitionDeleting"
  shows "a < fc_next r" "pc_ok r S (Release a)"
proof -
  show "a < fc_next r" using assms(1) fc_wf_cell(1)[OF assms(2)] by (auto simp: clm_def orphan_def pending_def on_cell_def)
  show "pc_ok r S (Release a)"
    using assms(1,4) by (auto simp: clm_def on_cell_def dest: claimed_releasable) (auto simp: claimed_def releasable_def)
qed

lemma claimed_not_pending: "fs_running (fc_cell r a) \<or> fs_stopped (fc_cell r a) \<Longrightarrow> \<not> orphan r S a"
  by (auto simp: orphan_def pending_def)

lemma local_StopRead:
  assumes st: "fc_local g (StopRead a, r, S) (p', r', S')" and wf: "fc_wf g r" and c: "clm transitionStopping r S a" and ci: "cell_inv r S a"
    and held: "fs_transition (fc_cell r a) \<noteq> transitionNone"
  shows "step_ok g a r S p' r' S'"
proof -
  have e: "S' = S" "r' = r" "p' = (if fs_stopped (fc_cell r a) \<or> \<not> fs_running (fc_cell r a) then Release a else StopSnap a)"
    using st by (auto elim: StopReadE)
  have "pc_ok r S (StopSnap a)" if "fs_running (fc_cell r a)"
    using c that by (auto simp: clm_def on_cell_def orphan_def pending_def)
  then have "pc_ok r S p'" using e(3) clm_cases(2)[OF c wf] by simp
  then show ?thesis unfolding e(1,2) using clm_cases(1)[OF c wf] wf ci held e(3) by (intro step_ok_idle) auto
qed

lemma local_WakeRead:
  assumes st: "fc_local g (WakeRead a, r, S) (p', r', S')" and wf: "fc_wf g r" and c: "clm transitionWaking r S a" and ci: "cell_inv r S a"
    and held: "fs_transition (fc_cell r a) \<noteq> transitionNone"
  shows "step_ok g a r S p' r' S'"
proof -
  have e: "S' = S" "r' = r" "p' = (if fs_running (fc_cell r a) \<or> \<not> fs_stopped (fc_cell r a) then Release a else WakeSlot a)"
    using st by (auto elim: WakeReadE)
  have "pc_ok r S (WakeSlot a)" if "\<not> fs_running (fc_cell r a)" "fs_stopped (fc_cell r a)"
    using c that by (auto simp: clm_def on_cell_def orphan_def pending_def claimed_def is_parked_def)
  then have "pc_ok r S p'" using e(3) clm_cases(2)[OF c wf] by simp
  then show ?thesis unfolding e(1,2) using clm_cases(1)[OF c wf] wf ci held e(3) by (intro step_ok_idle) auto
qed

lemma local_DeathCheck:
  assumes st: "fc_local g (DeathCheck a d n, r, S) (p', r', S')" and wf: "fc_wf g r" and c: "clm transitionStopping r S a"
    and d: "(d, n) \<in> S" and ci: "cell_inv r S a" and held: "fs_transition (fc_cell r a) \<noteq> transitionNone"
  shows "step_ok g a r S p' r' S'"
proof -
  have e: "S' = S" "r' = r" "p' = (if a \<noteq> d \<or> fs_generation (fc_cell r a) \<noteq> n then Release a else Tear a True)"
    using st by (auto elim: DeathCheckE)
  have "pc_ok r S (Tear a True)" if "a = d" "fs_generation (fc_cell r a) = n"
    using c d that by (auto simp: clm_def on_cell_def orphan_def pending_def claimed_def tearing_def live_def)
  then have "pc_ok r S p'" using e(3) clm_cases(2)[OF c wf] by auto
  then show ?thesis unfolding e(1,2) using clm_cases(1)[OF c wf] wf ci held e(3) by (intro step_ok_idle) auto
qed

lemma stopping_next:
  assumes "on_cell r a (\<lambda>s. claimed transitionStopping s \<and> fs_running s)" and "p' = Release a \<or> p' = Tear a False"
  shows "pc_ok r S p'" "holder p' = Some a"
  using assms claimed_releasable by (auto simp: on_cell_def claimed_def releasable_def tearing_def)

lemma local_StopSnap:
  assumes st: "fc_local g (StopSnap a, r, S) (p', r', S')" and wf: "fc_wf g r"
    and on: "on_cell r a (\<lambda>s. claimed transitionStopping s \<and> fs_running s)" and ci: "cell_inv r S a"
  shows "step_ok g a r S p' r' S'"
proof -
  note C = on_cellD[OF on]
  have tr: "fs_transition (fc_cell r a) \<noteq> transitionNone" using C(2) by (simp add: claimed_def)
  have "(p' = Release a \<or> p' = Tear a False) \<and> (r' = r \<or> r' = set_dirty a True r) \<or> p' = StopPin a \<and> r' = set_dirty a False r" "S' = S"
    using st by (auto elim: StopSnapE)
  then consider "p' = Release a \<or> p' = Tear a False" "r' = r" | "p' = Release a \<or> p' = Tear a False" "r' = set_dirty a True r"
    | "p' = StopPin a" "r' = set_dirty a False r" by blast
  then show ?thesis
  proof cases
    case 1
    then show ?thesis using stopping_next[OF on 1(1)] \<open>S' = S\<close> wf fc_wf_cell(1)[OF wf C(1)] ci tr by (auto intro: step_ok_idle)
  next
    case 2
    have on': "on_cell (set_dirty a True r) a (\<lambda>s. claimed transitionStopping s \<and> fs_running s)" using on by simp
    show ?thesis
      unfolding 2(2) \<open>S' = S\<close> using C(2) stopping_next[OF on' 2(1)] tr
      by (intro dirty_step[OF wf on ci]) (auto simp: claimed_def)
  next
    case 3
    show ?thesis unfolding 3 \<open>S' = S\<close> using on tr by (intro dirty_step[OF wf on ci]) auto
  qed
qed

lemma local_StopPin:
  assumes st: "fc_local g (StopPin a, r, S) (p', r', S')" and wf: "fc_wf g r"
    and on: "on_cell r a (\<lambda>s. claimed transitionStopping s \<and> fs_running s)" and clean: "\<not> fc_dirty r a" and ci: "cell_inv r S a"
  shows "step_ok g a r S p' r' S'"
proof -
  let ?f = "\<lambda>s. s\<lparr>fs_mustColdBoot := False\<rparr>"
  note C = on_cellD[OF on]
  have e: "p' = Tear a False" "r' = fc_upd a ?f r" "S' = S" using st by (auto elim: StopPinE)
  have "fc_wf g (fc_upd a ?f r)"
    using C clean fc_wf_cell(2)[OF wf C(1)] by (intro fc_wf_upd[OF wf C(1)]) (auto simp: cell_ok_def claimed_def)
  then have at: "at_cell g a tearing r (fc_upd a ?f r)"
    using C by (auto simp: at_cell_def tearing_def claimed_def only_touches_def)
  show ?thesis
    unfolding e by (rule step_ok_keep[OF at C(1) wf ci]) (use C at_cell_on[OF at] in \<open>auto simp: claimed_def\<close>)
qed

lemma local_WakeSlot:
  assumes st: "fc_local g (WakeSlot a, r, S) (p', r', S')" and wf: "fc_wf g r"
    and on: "on_cell r a (is_parked transitionWaking)" and dead: "\<not> live r S a" and ci: "cell_inv r S a"
  shows "step_ok g a r S p' r' S'"
proof -
  note C = on_cellD[OF on]
  obtain e where rw: "reserveWakeSlot g a r = (e, r')" and p: "p' = (if e = None then ActJail transitionWaking a else Release a)" "S' = S"
    using st by (auto elim: WakeSlotE)
  from reserveWakeSlot_at[OF on_at_cell[OF wf on] rw] show ?thesis
  proof
    assume k: "e = None \<and> at_cell g a (activating transitionWaking) r r'"
    then have at: "at_cell g a (activating transitionWaking) r r'" by blast
    have gen: "fs_generation (fc_cell r' a) = fs_generation (fc_cell r a)"
      using rw by (auto simp: reserveWakeSlot_def reserveSlotLocked_def split: option.splits)
    show ?thesis
      unfolding p(2) by (rule step_ok_at[OF at C(1) wf])
         (use k p(1) ci C(2) at_cell_on[OF at] gen dead in \<open>auto simp: cell_inv_def live_def pending_def is_parked_def on_cell_def activating_def\<close>)
  next
    assume k: "e \<noteq> None \<and> r' = r"
    have "pc_ok r S (Release a)" using C on dead by (auto simp: on_cell_def is_parked_def releasable_def)
    then show ?thesis
      using k p wf fc_wf_cell(1)[OF wf C(1)] ci C(2) by (auto intro!: step_ok_idle simp: is_parked_def)
  qed
qed

subsection \<open>Teardown and release of the claim\<close>

lemma take_handles_at:
  assumes at: "at_cell g a Q r0 r" and nz: "\<And>s. Q s \<Longrightarrow> fs_transition s \<noteq> transitionNone"
    and st: "\<And>s n. Q s \<Longrightarrow> Q' (s\<lparr>fs_generation := n, fs_proxy := False, fs_process := False\<rparr>)"
  shows "at_cell g a Q' r0 (take_handles a r)"
  unfolding take_handles_def by (rule at_cell_upd[OF at]) (use nz st in \<open>auto simp: cell_ok_def\<close>)

lemma take_handles_cell:
  "fc_cell (take_handles a r) a = (fc_cell r a)\<lparr>fs_generation := Suc (fs_generation (fc_cell r a)), fs_proxy := False, fs_process := False\<rparr>"
  by (simp add: take_handles_def)

lemma take_handles_inv:
  assumes "cell_inv r S a"
  shows "\<not> live (take_handles a r) S a" "cell_inv (take_handles a r) S a"
  using assms next_generation[OF assms] by (fastforce simp: live_def cell_inv_def take_handles_cell)+

lemma local_Tear:
  assumes st: "fc_local g (Tear a k, r, S) (p', r', S')" and wf: "fc_wf g r" and on: "on_cell r a tearing" and ci: "cell_inv r S a"
  shows "step_ok g a r S p' r' S'"
proof -
  let ?Q = "\<lambda>s. tearing s \<and> \<not> fs_process s \<and> \<not> fs_proxy s"
  note C = on_cellD[OF on]
  have e: "p' = TearNet a k (fs_slot (fc_cell r a))" "r' = take_handles a r" "S' = S" using st by (auto elim: TearE)
  have at: "at_cell g a ?Q r (take_handles a r)"
    by (rule take_handles_at[OF on_at_cell[OF wf on]]) (auto simp: tearing_def)
  show ?thesis
    unfolding e by (rule step_ok_at[OF at C(1) wf])
      (use take_handles_inv[OF ci] at_cell_on[OF at] C(2) in \<open>auto simp: on_cell_def take_handles_cell pending_def tearing_def\<close>)
qed

lemma clear_wiring:
  assumes "(if slot \<ge> 0 then clearSlotNetwork h slot (Some a) r else (None, r)) = (e, r')" "slot < int (length (fc_slots r))"
  shows "wiring r r'"
  using assms clearSlotNetwork_wiring[of h slot "Some a" r e r'] by (auto split: if_splits)

lemma local_TearNet:
  assumes st: "fc_local g (TearNet a k slot, r, S) (p', r', S')" and wf: "fc_wf g r" and ci: "cell_inv r S a"
    and on: "on_cell r a (\<lambda>s. tearing s \<and> slot = fs_slot s \<and> \<not> fs_process s \<and> \<not> fs_proxy s)" and dead: "\<not> live r S a"
  shows "step_ok g a r S p' r' S'"
proof -
  note C = on_cellD[OF on]
  obtain h e where c: "(if slot \<ge> 0 then clearSlotNetwork h slot (Some a) r else (None, r)) = (e, r')" and p: "p' = Parking a k" "S' = S"
    using st by (auto elim: TearNetE)
  have "slot < int (length (fc_slots r))" using C fc_wf_cell(2)[OF wf C(1)] by (auto simp: cell_ok_def)
  note w = clear_wiring[OF c this]
  show ?thesis
    unfolding p by (rule step_ok_wiring[OF on wf ci w])
      (use on dead wiring_live[OF w] C(2) in \<open>auto simp: tearing_def elim: on_cell_weaken\<close>)
qed

lemma let_go_cell: "fc_cell (let_go a f r) a = f (fc_cell r a)"
  by (simp add: let_go_def)

lemma local_Parking:
  assumes st: "fc_local g (Parking a k, r, S) (p', r', S')" and wf: "fc_wf g r" and ci: "cell_inv r S a"
    and on: "on_cell r a (\<lambda>s. tearing s \<and> \<not> fs_process s \<and> \<not> fs_proxy s)" and dead: "\<not> live r S a"
  shows "step_ok g a r S p' r' S'"
proof -
  note C = on_cellD[OF on]
  have e: "p' = Release a" "r' = (if k then bury a r else park a r)" "S' = S" using st by (auto elim: ParkingE)
  define t where "t = fs_transition (fc_cell r a)"
  have t: "t = transitionStopping \<or> t = transitionWaking" using C(2) by (simp add: tearing_def t_def)
  have "on_cell r a (\<lambda>s. fs_transition s = t)" using C by (simp add: on_cell_def t_def)
  note at0 = on_at_cell[OF wf this]
  have at: "at_cell g a (is_parked t) r r'"
    using at_cell_park[OF at0] at_cell_bury[where P = "\<lambda>_. True", of g a t r r] at0 unfolding e(2) by (auto elim: at_cell_weaken)
  have gen: "fs_generation (fc_cell r' a) = fs_generation (fc_cell r a)"
    unfolding e(2) using park_eq[OF at_cellD(5)[OF at0]] bury_eq[OF at_cellD(5)[OF at0]] by (auto simp: let_go_cell)
  have rel: "releasable (fs_transition s) s \<and> fs_transition s \<noteq> transitionDeleting" if "is_parked t s" for s
    using that t by (auto simp: is_parked_def releasable_def)
  show ?thesis
    unfolding e(1,3) by (rule step_ok_at[OF at C(1) wf])
      (use at_cell_on[OF at] rel gen dead ci t C(2) in \<open>auto simp: on_cell_def is_parked_def cell_inv_def live_def pending_def tearing_def\<close>)
qed

lemma local_Release:
  assumes st: "fc_local g (Release a, r, S) (p', r', S')" and wf: "fc_wf g r" and ci: "cell_inv r S a" and ok: "pc_ok r S (Release a)"
  shows "step_ok g a r S p' r' S'"
proof -
  let ?f = "\<lambda>s. s\<lparr>fs_transition := transitionNone\<rparr>"
  have e: "p' = Idle" "r' = fc_upd a ?f r" "S' = S" using st by (auto elim: ReleaseE simp: endTransition_def)
  show ?thesis
  proof (cases "orphan r S a")
    case True
    show ?thesis
      unfolding e by (rule step_ok_orphan[OF wf True]) (use True ci in \<open>auto simp: orphan_def pending_def live_def\<close>)
  next
    case False
    then have on: "on_cell r a (\<lambda>s. releasable (fs_transition s) s)" and lv: "live r S a \<longrightarrow> fs_running (fc_cell r a)"
      using ok by (auto elim: on_cell_weaken)
    have at: "at_cell g a (\<lambda>_. True) r (fc_upd a ?f r)"
      by (rule at_cell_upd[OF on_at_cell[OF wf on]]) (auto simp: cell_ok_def releasable_def)
    show ?thesis
      unfolding e by (rule step_ok_at[OF at on_cellD(1)[OF on] wf])
        (use ci lv in \<open>auto simp: cell_inv_def live_def pending_def\<close>)
  qed
qed

subsection \<open>Delete\<close>

lemma vanishing_claim: "vanishing c s \<Longrightarrow> fs_transition s \<noteq> transitionNone"
  by (simp add: vanishing_def)

lemma local_DelMark:
  assumes st: "fc_local g (DelMark a c, r, S) (p', r', S')" and wf: "fc_wf g r" and ci: "cell_inv r S a"
    and ok: "pc_ok r S (DelMark a c)" and held: "fs_transition (fc_cell r a) \<noteq> transitionNone"
  shows "step_ok g a r S p' r' S'"
proof -
  have e: "p' = DelTake a c" "r' = mark_deleting a r" "S' = S" using st by (auto elim: DelMarkE)
  show ?thesis
  proof (cases "fc_tracked r a")
    case True
    let ?f = "\<lambda>s. s\<lparr>fs_running := False, fs_transition := transitionDeleting\<rparr>"
    have r': "r' = fc_upd a ?f r" using True e(2) by (simp add: mark_deleting_def)
    have on: "on_cell r a (\<lambda>s. fs_transition s \<noteq> transitionWaking \<and> (c \<longrightarrow> \<not> fs_stopped s))"
      using ok True by (auto simp: clm_def on_cell_def orphan_def claimed_def split: if_splits)
    have at: "at_cell g a (vanishing c) r (fc_upd a ?f r)"
      by (rule at_cell_upd[OF on_at_cell[OF wf on]]) (auto simp: cell_ok_def vanishing_def)
    show ?thesis
      unfolding e(1,3) r' by (rule step_ok_at[OF at True wf])
        (use at_cell_on[OF at] ci in \<open>auto simp: cell_inv_def live_def pending_def\<close>)
  next
    case False
    then have "r' = r" "orphan r S a" "\<not> c"
      using e(2) ok by (auto simp: mark_deleting_def clm_def on_cell_def split: if_splits)
    then show ?thesis
      unfolding e(1,3) using wf ci held by (auto intro!: step_ok_idle simp: orphan_def pending_def)
  qed
qed

lemma local_DelTake:
  assumes st: "fc_local g (DelTake a c, r, S) (p', r', S')" and wf: "fc_wf g r" and ci: "cell_inv r S a"
    and ok: "pc_ok r S (DelTake a c)" and held: "fs_transition (fc_cell r a) \<noteq> transitionNone"
  shows "step_ok g a r S p' r' S'"
proof -
  let ?f = "\<lambda>s. s\<lparr>fs_generation := Suc (fs_generation s), fs_proxy := False, fs_process := False\<rparr>"
  have e: "p' = DelNet a c (fs_slot (fc_cell r a))" "r' = fc_upd a ?f r" "S' = S"
    using st by (auto elim: DelTakeE simp: take_handles_def)
  note dead = take_handles_inv[OF ci, unfolded take_handles_def] and fresh = next_generation[OF ci]
  show ?thesis
  proof (cases "on_cell r a (vanishing c)")
    case True
    note C = on_cellD[OF True]
    have at: "at_cell g a (vanishing c) r (fc_upd a ?f r)"
      by (rule take_handles_at[OF on_at_cell[OF wf True], unfolded take_handles_def]) (auto simp: vanishing_def)
    show ?thesis
      unfolding e by (rule step_ok_at[OF at C(1) wf])
        (use at_cell_on[OF at] dead held fresh in \<open>auto simp: pending_def live_def\<close>)
  next
    case False
    then have o: "orphan r S a" "\<not> c" using ok by auto
    have "orphan (fc_upd a ?f r) S a"
      by (rule orphan_upd[OF o(1)]) (use o fresh in \<open>auto simp: orphan_def pending_def\<close>)
    then show ?thesis
      unfolding e using o fresh held ci dead
      by (intro step_ok_orphan[OF wf o(1)]) (auto simp: orphan_def pending_def)
  qed
qed

lemma step_ok_wiring_orphan:
  assumes o: "orphan r S a" and wf: "fc_wf g r" and ci: "cell_inv r S a" and w: "wiring r r'"
    and "pc_ok r' S p'" "holder p' = Some a" "fs_transition (fc_cell r a) \<noteq> transitionNone"
  shows "step_ok g a r S p' r' S"
proof -
  have "frame a r r'"
    using w wiring_cell[OF w] wiring_length[OF w] by (simp add: frame_def wiring_def fc_tracked_def)
  moreover have "cell_inv r' S a" using ci wiring_cell[OF w] wiring_live(1)[OF w] by (simp add: cell_inv_def)
  moreover have "fc_next r' = fc_next r" "a < fc_next r" using w o by (auto simp: wiring_def orphan_def pending_def)
  ultimately show ?thesis
    using assms(5-7) wiring_wf[OF wf w] wiring_cell[OF w] wiring_live(4)[OF w] by (simp add: step_ok_def)
qed

lemma local_DelNet:
  assumes st: "fc_local g (DelNet a c slot, r, S) (p', r', S')" and wf: "fc_wf g r" and ci: "cell_inv r S a"
    and ok: "pc_ok r S (DelNet a c slot)" and held: "fs_transition (fc_cell r a) \<noteq> transitionNone"
  shows "step_ok g a r S p' r' S'"
proof -
  obtain h e where cl: "(if slot \<ge> 0 then clearSlotNetwork h slot (Some a) r else (None, r)) = (e, r')" and p: "p' = DelFinish a c" "S' = S"
    using st by (auto elim: DelNetE)
  have "slot < int (length (fc_slots r))"
    using ok fc_wf_cell(2)[OF wf, of a] by (auto simp: on_cell_def cell_ok_def orphan_def pending_def)
  note w = clear_wiring[OF cl this]
  have q: "pc_ok r' S p'" using ok wiring_live[OF w] by (auto simp: p)
  show ?thesis
  proof (cases "on_cell r a (vanishing c)")
    case True
    then show ?thesis unfolding p(2) using step_ok_wiring[OF True wf ci w q _ held] p(1) by simp
  next
    case False
    then have "orphan r S a" using ok by auto
    then show ?thesis unfolding p(2) using step_ok_wiring_orphan[OF _ wf ci w q _ held] p(1) by simp
  qed
qed

lemma untrack_step:
  assumes wf: "fc_wf g r" and ci: "cell_inv r S a" and "a < fc_next r"
  shows "step_ok g a r S Idle (untrackSandbox a r) S"
proof (cases "fc_tracked r a")
  case True
  have "gone_cell g a r (untrackSandbox a r)" using untrack_gone[of g a "\<lambda>_. True" r r] wf True by (simp add: at_cell_def)
  then have "frame a r (untrackSandbox a r)" "fc_wf g (untrackSandbox a r)" using gone_frame True by (auto simp: gone_cell_def)
  then show ?thesis
    using ci assms(3) by (simp add: step_ok_def untrackSandbox_eq[OF wf True] cell_inv_def live_def pending_def)
next
  case False
  then have "untrackSandbox a r = r" by (simp add: untrackSandbox_def)
  then show ?thesis using step_ok_idle[OF wf assms(3) ci, of Idle] by simp
qed

lemma local_DelFinish:
  assumes st: "fc_local g (DelFinish a c, r, S) (p', r', S')" and wf: "fc_wf g r" and ci: "cell_inv r S a"
    and ok: "pc_ok r S (DelFinish a c)"
  shows "step_ok g a r S p' r' S'"
  using st
proof (rule DelFinishE)
  assume "p' = Idle" "r' = untrackSandbox a r" "S' = S"
  then show ?thesis using untrack_step[OF wf ci] pc_cell_bound[OF wf ok] by simp
next
  assume e: "p' = (if c then DelUntrack a else Idle)" "r' = unmark_deleting a r" "S' = S"
  have dead: "\<not> live r S a" using ok by simp
  show ?thesis
  proof (cases "on_cell r a (vanishing c)")
    case True
    let ?f = "\<lambda>s. s\<lparr>fs_transition := transitionNone\<rparr>"
    note C = on_cellD[OF True]
    have r': "r' = fc_upd a ?f r" using C(1) e(2) by (simp add: unmark_deleting_def)
    have at: "at_cell g a (\<lambda>_. True) r (fc_upd a ?f r)"
      by (rule at_cell_upd[OF on_at_cell[OF wf True]]) (auto simp: cell_ok_def vanishing_def)
    have "fs_slot (fc_cell r a) < int (length (fc_slots r))" using fc_wf_cell(2)[OF wf C(1)] by (auto simp: cell_ok_def)
    then show ?thesis
      unfolding e(3) r' by (intro step_ok_at[OF at C(1) wf])
        (use C(2) dead ci e(1) fc_wf_cell(1)[OF wf C(1)] in \<open>auto simp: cell_inv_def live_def pending_def vanishing_def\<close>)
  next
    case False
    then have "orphan r S a" "\<not> c" using ok by auto
    then show ?thesis
      using e wf ci by (auto intro!: step_ok_idle simp: unmark_deleting_def orphan_def pending_def)
  qed
qed

subsection \<open>Claims and new sandboxes\<close>

lemma claim_step:
  assumes b: "beginTransition i t r = (Inr a, r')" and wf: "fc_wf g r" and ci: "\<forall>a < fc_next r. cell_inv r S a"
    and t: "t \<noteq> transitionNone" "t \<noteq> transitionCreating"
  shows "clm t r' S a" "fs_transition (fc_cell r a) = transitionNone"
    "holder p' = Some a \<Longrightarrow> pc_ok r' S p' \<Longrightarrow> step_ok g a r S p' r' S"
proof -
  note B = beginTransition_Inr[OF b]
  note tr = fc_wf_tracked[OF wf B(1)]
  have at: "at_cell g a (claimed t) r r'" by (rule beginTransition_at[OF wf b t(1)])
  have c: "cell_inv r S a" using ci tr(1) by blast
  have lv: "live r S a \<Longrightarrow> fs_running (fc_cell r a)" using c B(2) by (auto simp: cell_inv_def)
  have same: "live r' S a = live r S a" "fs_running (fc_cell r' a) = fs_running (fc_cell r a)" using B(3) by (auto simp: live_def)
  show "clm t r' S a" using at_cell_on[OF at] lv same by (simp add: clm_def)
  show "fs_transition (fc_cell r a) = transitionNone" by (rule B(2))
  assume h: "holder p' = Some a" "pc_ok r' S p'"
  show "step_ok g a r S p' r' S"
    by (rule step_ok_at[OF at tr(4) wf])
       (use h c lv B(3) t same in \<open>auto simp: cell_inv_def live_def pending_def\<close>)
qed

lemma local_Idle:
  assumes st: "fc_local g (Idle, r, S) (p', r', S')" and wf: "fc_wf g r" and ci: "\<forall>a < fc_next r. cell_inv r S a"
    and sb: "\<forall>a n. (a, n) \<in> S \<longrightarrow> a < fc_next r"
  shows "\<exists>a. step_ok g a r S p' r' S' \<and> (fc_next r \<le> a \<or> fs_transition (fc_cell r a) = transitionNone \<or> r' = r \<and> S' = S \<and> holder p' = None)"
  using st
proof (rule IdleE)
  fix i eg kern d a assume i: "12 \<le> length i" and rl: "reserve_locked g i eg kern d r = (Inr a, r')"
    and p: "p' = ActJail transitionCreating a" "S' = S"
  have "i \<noteq> []" using i by auto
  note R = reserve_locked_at[OF wf this rl]
  have fresh: "(a, n) \<notin> S" for n using sb R by fastforce
  have tr: "fc_tracked r' b = fc_tracked r b" if "b < a" for b
  proof -
    have "fs_id (fc_cell r b) = i \<Longrightarrow> \<not> fc_tracked r b" using R by (simp add: fc_tracked_def)
    then show ?thesis using R that by (auto simp: fc_tracked_def)
  qed
  have dr: "fc_dirty r' b = fc_dirty r b" if "b < a" for b
    using that by (rule_tac reserve_locked_Inr[OF rl]) auto
  have "step_ok g a r S p' r' S"
    unfolding p step_ok_def frame_def
    using R at_cellD(1)[of g a _ r' r'] at_cell_on[OF conjunct1[OF R]] tr dr fresh on_cellD(2)[OF at_cell_on[OF conjunct1[OF R]]]
    by (auto simp: cell_inv_def live_def activating_def less_Suc_eq)
  then show ?thesis using p(2) R by auto
next
  fix i a assume b: "beginTransition i transitionStopping r = (Inr a, r')" and "p' = StopRead a" "S' = S"
  then show ?thesis using claim_step[OF b wf ci] by (intro exI[of _ a]) auto
next
  fix i a assume b: "beginTransition i transitionWaking r = (Inr a, r')" and "p' = WakeRead a" "S' = S"
  then show ?thesis using claim_step[OF b wf ci] by (intro exI[of _ a]) auto
next
  fix i a assume b: "beginTransition i transitionDeleting r = (Inr a, r')" and "p' = DelMark a False" "S' = S"
  then show ?thesis using claim_step[OF b wf ci] by (intro exI[of _ a]) auto
next
  fix a n assume "(a, n) \<in> S" "p' = DeathNote a n" "r' = r" "S' = S"
  then show ?thesis using wf ci sb by (intro exI[of _ a]) (auto intro!: step_ok_idle)
qed

lemma local_DeathNote:
  assumes st: "fc_local g (DeathNote d n, r, S) (p', r', S')" and wf: "fc_wf g r" and ci: "\<forall>a < fc_next r. cell_inv r S a"
    and ok: "d < fc_next r" "(d, n) \<in> S"
  shows "\<exists>a. step_ok g a r S p' r' S' \<and> (fc_next r \<le> a \<or> fs_transition (fc_cell r a) = transitionNone \<or> r' = r \<and> S' = S \<and> holder p' = None)"
  using st
proof (rule DeathNoteE)
  fix a assume b: "beginTransition (fs_id (fc_cell r d)) transitionStopping r = (Inr a, r')" and p: "p' = DeathCheck a d n" "S' = S"
  have "fc_next r' = fc_next r" using beginTransition_Inr(3)[OF b] by simp
  then show ?thesis using claim_step[OF b wf ci] p ok by (intro exI[of _ a]) auto
next
  fix e assume b: "beginTransition (fs_id (fc_cell r d)) transitionStopping r = (Inl e, r')" and p: "p' = Idle" "S' = S"
  then show ?thesis using beginTransition_Inl[OF b] wf ci ok by (intro exI[of _ d]) (auto intro!: step_ok_idle)
qed

section \<open>Reachable states\<close>

lemma local_holder:
  assumes st: "fc_local g (p, r, S) (p', r', S')" and wf: "fc_wf g r" and ok: "pc_ok r S p" and h: "holder p = Some a"
    and ci: "cell_inv r S a" and held: "fs_transition (fc_cell r a) \<noteq> transitionNone"
  shows "step_ok g a r S p' r' S'"
proof (cases p)
  case (DelMark b c)
  then show ?thesis using local_DelMark[of g b c r S p' r' S'] assms by simp
next
  case (DelTake b c)
  then show ?thesis using local_DelTake[of g b c r S p' r' S'] assms by simp
next
  case (DelNet b c s)
  then show ?thesis using local_DelNet[of g b c s r S p' r' S'] assms by simp
next
  case (DelFinish b c)
  then show ?thesis using local_DelFinish[of g b c r S p' r' S'] assms by simp
next
  case (Release b)
  then show ?thesis using local_Release[of g b r S p' r' S'] assms by simp
qed (use assms in \<open>auto intro: local_ActJail[OF _ wf] local_ActStart[OF _ wf] local_ActGuest[OF _ wf]
        local_ActBoot[OF _ wf] local_ActProxy[OF _ wf] local_ActProbe[OF _ wf] local_StopRead[OF _ wf]
        local_StopSnap[OF _ wf] local_StopPin[OF _ wf] local_WakeRead[OF _ wf] local_WakeSlot[OF _ wf]
        local_Tear[OF _ wf] local_TearNet[OF _ wf] local_Parking[OF _ wf] local_DeathCheck[OF _ wf]\<close>)

text \<open>The thread that created a state is the only one to run its create and the cleanup of that create.\<close>

fun creator :: "fc_pc \<Rightarrow> nat option" where
  "creator (ActJail t a) = (if t = transitionCreating then Some a else None)"
| "creator (ActStart t a) = (if t = transitionCreating then Some a else None)"
| "creator (ActGuest t a) = (if t = transitionCreating then Some a else None)"
| "creator (ActBoot t a c) = (if t = transitionCreating then Some a else None)"
| "creator (ActProxy t a) = (if t = transitionCreating then Some a else None)"
| "creator (ActProbe t a) = (if t = transitionCreating then Some a else None)"
| "creator (DelMark a c) = (if c then Some a else None)"
| "creator (DelTake a c) = (if c then Some a else None)"
| "creator (DelNet a c s) = (if c then Some a else None)"
| "creator (DelFinish a c) = (if c then Some a else None)"
| "creator (DelUntrack a) = Some a"
| "creator p = None"

lemma creator_step:
  assumes "fc_local g (p, r, S) (p', r', S')"
  shows "creator p' = None \<or> creator p' = creator p \<or> creator p' = Some (fc_next r)"
proof -
  have c: "creator (act_failed t a) = (if t = transitionCreating then Some a else None)" for t a by (simp add: act_failed_def)
  show ?thesis
    using assms by (cases rule: fc_local.cases) (auto simp: c split: if_splits elim: reserve_locked_Inr)
qed

lemma creator_cell: "creator p = Some a \<Longrightarrow> pc_cell p = Some a"
  by (cases p) (auto split: if_splits)

lemma pending_untrack:
  assumes wf: "fc_wf g r" and tr: "fc_tracked r a" and pn: "pending r S a" and ok: "pc_ok r S q" and h: "holder q = Some a"
    and nc: "creator q \<noteq> Some a"
  shows "pc_ok (untrackSandbox a r) S q"
proof -
  let ?r = "untrackSandbox a r"
  note e = untrackSandbox_eq[OF wf tr]
  have c: "fc_cell ?r = fc_cell r" "length (fc_slots ?r) = length (fc_slots r)" "fc_next ?r = fc_next r"
    by (auto simp: e fun_eq_iff)
  have o: "orphan ?r S a" using pn c by (auto simp: orphan_def pending_def live_def fc_tracked_def e)
  have n: "\<not> fs_running (fc_cell r a)" "\<not> fs_stopped (fc_cell r a)" "\<not> live r S a" "fs_transition (fc_cell r a) \<noteq> transitionCreating"
    using pn by (auto simp: pending_def)
  have "live ?r S a = live r S a" by (simp add: live_def c)
  then show ?thesis
    using ok h o n c tr nc
    by (cases q) (auto simp: on_cell_def activating_def claimed_def is_parked_def tearing_def clm_def orphan_def split: if_splits)
qed

definition creators_ok :: "fc_system \<Rightarrow> bool" where
  "creators_ok x \<longleftrightarrow> (\<forall>t t' a. creator (sy_pc x t) = Some a \<longrightarrow> creator (sy_pc x t') = Some a \<longrightarrow> t = t')"

lemma fc_invD:
  assumes "fc_inv g x"
  shows "fc_wf g (sy_r x)" "\<forall>b < fc_next (sy_r x). cell_inv (sy_r x) (sy_started x) b"
    "\<forall>b n. (b, n) \<in> sy_started x \<longrightarrow> b < fc_next (sy_r x)" "pc_ok (sy_r x) (sy_started x) (sy_pc x t)"
    "holder (sy_pc x t) = Some b \<Longrightarrow> fs_transition (fc_cell (sy_r x) b) \<noteq> transitionNone"
    "holder (sy_pc x t) = Some b \<Longrightarrow> holder (sy_pc x t') = Some b \<Longrightarrow> t = t'"
  using assms by (auto simp: fc_inv_def)

text \<open>
  A step is taken under the claim of its cell, or by a create that gives up its cleanup, or it takes a
  claim (a fresh cell, or one that nobody holds), or it changes nothing.
\<close>

lemma local_step_cases:
  assumes inv: "fc_inv g x" and st: "fc_local g (sy_pc x t, sy_r x, sy_started x) (p', r', S')"
  obtains (held) a where "holder (sy_pc x t) = Some a" "step_ok g a (sy_r x) (sy_started x) p' r' S'"
  | (cleanup) a where "sy_pc x t = DelUntrack a" "p' = Idle" "r' = untrackSandbox a (sy_r x)" "S' = sy_started x"
      "step_ok g a (sy_r x) (sy_started x) p' r' S'"
  | (claims) a where "holder (sy_pc x t) = None" "step_ok g a (sy_r x) (sy_started x) p' r' S'"
      "fc_next (sy_r x) \<le> a \<or> fs_transition (fc_cell (sy_r x) a) = transitionNone \<or> r' = sy_r x \<and> S' = sy_started x \<and> holder p' = None"
      "r' = sy_r x \<or> holder p' = Some a"
proof -
  let ?r = "sy_r x" and ?S = "sy_started x" and ?p = "sy_pc x t"
  note I = fc_invD[OF inv]
  show thesis
  proof (cases "holder ?p")
    case (Some a)
    have "pc_cell ?p = Some a" using Some by (cases ?p) auto
    then have "a < fc_next ?r" using pc_cell_bound[OF I(1,4)] by blast
    then show thesis using held local_holder[OF st I(1,4) Some] I(2) I(5)[OF Some] Some by blast
  next
    case None
    then consider a where "?p = DelUntrack a" | "?p = Idle" | d n where "?p = DeathNote d n" by (cases ?p) auto
    then show thesis
    proof cases
      case (1 a)
      then have e: "p' = Idle" "r' = untrackSandbox a ?r" "S' = ?S" using st by (auto elim: DelUntrackE)
      have "pending ?r ?S a" using I(4)[of t] 1 by simp
      then have "step_ok g a ?r ?S p' r' S'" unfolding e using untrack_step[OF I(1)] I(2) by (simp add: pending_def)
      then show thesis using cleanup 1 e by blast
    next
      case 2
      then have st': "fc_local g (Idle, ?r, ?S) (p', r', S')" using st by simp
      then have "r' = ?r \<or> holder p' \<noteq> None" by (auto elim: IdleE)
      then show thesis using local_Idle[OF st' I(1,2,3)] claims None by (auto simp: step_ok_def)
    next
      case (3 d n)
      then have st': "fc_local g (DeathNote d n, ?r, ?S) (p', r', S')" and "d < fc_next ?r" "(d, n) \<in> ?S"
        using st I(4)[of t] by auto
      moreover from st' have "r' = ?r \<or> holder p' \<noteq> None" by (auto elim: DeathNoteE dest: beginTransition_Inl)
      ultimately show thesis using local_DeathNote[OF st' I(1,2)] claims None by (auto simp: step_ok_def)
    qed
  qed
qed

lemma local_step_inv:
  assumes inv: "fc_inv g x" "creators_ok x" and st: "fc_local g (sy_pc x t, sy_r x, sy_started x) (p', r', S')"
  shows "fc_inv g \<lparr>sy_r = r', sy_started = S', sy_pc = (sy_pc x)(t := p')\<rparr>"
proof -
  let ?r = "sy_r x" and ?S = "sy_started x"
  note I = fc_invD[OF inv(1)]
  from inv(1) st show ?thesis
  proof (cases rule: local_step_cases)
    case (held a)
    show ?thesis by (rule step_ok_inv[OF inv(1) held(2)]) (use I(6)[OF held(1)] in blast)
  next
    case (cleanup a)
    have pn: "pending ?r ?S a" using I(4)[of t] cleanup(1) by simp
    have "pc_ok r' S' (sy_pc x t') \<and> fs_transition (fc_cell r' a) \<noteq> transitionNone \<and> holder p' \<noteq> Some a"
      if h: "t' \<noteq> t" "holder (sy_pc x t') = Some a" for t'
    proof (cases "fc_tracked ?r a")
      case True
      have "creator (sy_pc x t') \<noteq> Some a" using inv(2) h(1) cleanup(1) by (force simp: creators_ok_def)
      then show ?thesis
        using pending_untrack[OF I(1) True pn I(4) h(2)] I(5)[OF h(2)] cleanup(2-4) by (simp add: untrackSandbox_eq[OF I(1) True])
    next
      case False
      then show ?thesis using cleanup(2-4) I(4)[of t'] I(5)[OF h(2)] by (simp add: untrackSandbox_def)
    qed
    then show ?thesis by (rule step_ok_inv[OF inv(1) cleanup(5)])
  next
    case (claims a)
    have "r' = ?r \<and> S' = ?S \<and> holder p' = None" if h: "holder (sy_pc x t') = Some a" for t'
    proof -
      have "pc_cell (sy_pc x t') = Some a" using h by (cases "sy_pc x t'") auto
      then show ?thesis using pc_cell_bound[OF I(1) I(4)] I(5)[OF h] claims(3) by (meson not_le)
    qed
    note same = this
    show ?thesis
    proof (rule step_ok_inv[OF inv(1) claims(2)])
      fix t' assume "holder (sy_pc x t') = Some a"
      then show "pc_ok r' S' (sy_pc x t') \<and> fs_transition (fc_cell r' a) \<noteq> transitionNone \<and> holder p' \<noteq> Some a"
        using same[of t'] I(4)[of t'] I(5)[of t' a] by simp
    qed
  qed
qed

lemma creators_step:
  assumes "fc_inv g x" "creators_ok x" and st: "fc_local g (sy_pc x t, sy_r x, sy_started x) (p', r', S')"
  shows "creators_ok \<lparr>sy_r = r', sy_started = S', sy_pc = (sy_pc x)(t := p')\<rparr>"
proof -
  have "creator (sy_pc x t') \<noteq> Some (fc_next (sy_r x))" for t'
    using pc_cell_bound[of g "sy_r x" "sy_started x" "sy_pc x t'"] creator_cell assms(1) by (fastforce simp: fc_inv_def)
  then show ?thesis
    using creator_step[OF st] assms(2) unfolding creators_ok_def by (auto split: if_splits; metis)
qed

text \<open>No claim is ever left behind: a tracked state that is in a transition has a thread working on it.\<close>

definition claims_held :: "fc_system \<Rightarrow> bool" where
  "claims_held x \<longleftrightarrow> (\<forall>a. fc_tracked (sy_r x) a \<and> fs_transition (fc_cell (sy_r x) a) \<noteq> transitionNone \<longrightarrow>
     (\<exists>t. holder (sy_pc x t) = Some a))"

lemma claim_released:
  assumes st: "fc_local g (p, r, S) (p', r', S')" and "holder p = Some a" "holder p' = None" and wf: "fc_wf g r"
  shows "\<not> fc_tracked r' a \<or> fs_transition (fc_cell r' a) = transitionNone"
proof -
  have u: "\<not> fc_tracked (untrackSandbox a r) a"
  proof (cases "fc_tracked r a")
    case True
    then show ?thesis by (simp add: untrackSandbox_eq[OF wf True] fc_tracked_def)
  qed (simp add: untrackSandbox_def)
  show ?thesis
    using st assms(2,3)
    by (cases rule: fc_local.cases) (auto simp: u endTransition_def unmark_deleting_def split: if_splits)
qed

lemma claims_step:
  assumes inv: "fc_inv g x" "claims_held x" and st: "fc_local g (sy_pc x t, sy_r x, sy_started x) (p', r', S')"
  shows "claims_held \<lparr>sy_r = r', sy_started = S', sy_pc = (sy_pc x)(t := p')\<rparr>"
  unfolding claims_held_def
proof (clarsimp)
  let ?r = "sy_r x"
  note I = fc_invD[OF inv(1)]
  fix b assume b: "fc_tracked r' b" "fs_transition (fc_cell r' b) \<noteq> transitionNone"
  have other: "\<exists>u. holder (sy_pc x u) = Some b" if s: "step_ok g a ?r (sy_started x) p' r' S'" and "b \<noteq> a" for a
  proof -
    have "b < fc_next r'" using b(1) s fc_wf_cell(1)[of g r' b] by (simp add: step_ok_def)
    then have "b < fc_next ?r" using s \<open>b \<noteq> a\<close> by (auto simp: step_ok_def)
    then show ?thesis using b s \<open>b \<noteq> a\<close> inv(2) by (auto simp: claims_held_def step_ok_def frame_def)
  qed
  from inv(1) st show "\<exists>u. (u = t \<longrightarrow> holder p' = Some b) \<and> (u \<noteq> t \<longrightarrow> holder (sy_pc x u) = Some b)"
  proof (cases rule: local_step_cases)
    case (held a)
    show ?thesis
    proof (cases "b = a")
      case True
      then have "holder p' = Some b" using claim_released[OF st held(1) _ I(1)] b held(2) by (auto simp: step_ok_def)
      then show ?thesis by (intro exI[of _ t]) simp
    next
      case False
      then obtain u where "holder (sy_pc x u) = Some b" using other[OF held(2)] by blast
      then show ?thesis using held(1) False by (intro exI[of _ u]) auto
    qed
  next
    case (cleanup a)
    show ?thesis
    proof (cases "fc_tracked ?r a")
      case True
      have "b \<noteq> a" using b(1) cleanup(3) by (auto simp: untrackSandbox_eq[OF I(1) True] fc_tracked_def)
      then obtain u where "holder (sy_pc x u) = Some b" using other[OF cleanup(5)] by blast
      then show ?thesis using cleanup(1) by (intro exI[of _ u]) auto
    next
      case False
      then have "r' = ?r" using cleanup(3) by (simp add: untrackSandbox_def)
      then obtain u where "holder (sy_pc x u) = Some b" using b inv(2) by (auto simp: claims_held_def)
      then show ?thesis using cleanup(1) by (intro exI[of _ u]) auto
    qed
  next
    case (claims a)
    show ?thesis
    proof (cases "b = a \<and> holder p' = Some a")
      case True
      then show ?thesis by (intro exI[of _ t]) simp
    next
      case False
      then have "\<exists>u. holder (sy_pc x u) = Some b"
        using claims(4) other[OF claims(2)] b inv(2) by (auto simp: claims_held_def)
      then obtain u where "holder (sy_pc x u) = Some b" by blast
      then show ?thesis using claims(1) by (intro exI[of _ u]) auto
    qed
  qed
qed

lemma wirer_inv:
  assumes "fc_inv g x" and k: "k < length (fc_slots (sy_r x))"
  shows "fc_inv g (x\<lparr>sy_r := snd (setupNetwork h (int k) False (sy_r x))\<rparr>)"
proof -
  obtain e r' where s: "setupNetwork h (int k) False (sy_r x) = (e, r')" by fastforce
  have w: "wiring (sy_r x) r'" by (rule setupNetwork_wiring[OF s]) (use k in auto)
  note L = wiring_live[OF w]
  have "clm t r' S a = clm t (sy_r x) S a" for t S a using L wiring_cell[OF w] by (simp add: clm_def)
  then have p: "pc_ok r' S q = pc_ok (sy_r x) S q" for S q
    using L wiring_cell[OF w] w by (cases q) (auto simp: wiring_def)
  show ?thesis
    using assms(1) wiring_wf[OF _ w] wiring_cell[OF w] L w unfolding fc_inv_def
    by (auto simp: s p wiring_def cell_inv_def)
qed

definition fc_good :: "fc_config \<Rightarrow> fc_system \<Rightarrow> bool" where
  "fc_good g x \<longleftrightarrow> fc_inv g x \<and> creators_ok x \<and> claims_held x"

lemma fc_init_good: "fc_good g (fc_init n)"
  by (simp add: fc_good_def fc_inv_def fc_init_def fc_New_wf creators_ok_def claims_held_def fc_tracked_def)
     (simp add: fc_New_def)

lemma fc_step_good: "fc_step g x y \<Longrightarrow> fc_good g x \<Longrightarrow> fc_good g y"
proof (induction rule: fc_step.induct)
  case (thread x t p r S)
  then show ?case using local_step_inv creators_step claims_step unfolding fc_good_def by blast
next
  case (wirer k x h)
  obtain e r' where s: "setupNetwork h (int k) False (sy_r x) = (e, r')" by fastforce
  have w: "wiring (sy_r x) r'" by (rule setupNetwork_wiring[OF s]) (use wirer in auto)
  then have "claims_held (x\<lparr>sy_r := r'\<rparr>)"
    using wirer.prems wiring_cell[OF w] by (auto simp: fc_good_def claims_held_def fc_tracked_def wiring_def)
  moreover have "fc_inv g (x\<lparr>sy_r := r'\<rparr>)" using wirer_inv[of g x k h] wirer s by (simp add: fc_good_def)
  moreover have "creators_ok (x\<lparr>sy_r := r'\<rparr>)" using wirer.prems by (simp add: fc_good_def creators_ok_def)
  ultimately show ?case by (simp add: fc_good_def s)
qed

lemma fc_reachable_good: "fc_reachable g n x \<Longrightarrow> fc_good g x"
  by (induction rule: rtranclp_induct) (auto simp: fc_init_good dest: fc_step_good)

section \<open>Operations finish\<close>

text \<open>How many steps of its own a thread has left at most.\<close>

fun pc_rank :: "fc_pc \<Rightarrow> nat" where
  "pc_rank Idle = 0" | "pc_rank (Release a) = 1" | "pc_rank (Parking a k) = 2" | "pc_rank (TearNet a k s) = 3" | "pc_rank (Tear a k) = 4"
| "pc_rank (DeathCheck a d n) = 5" | "pc_rank (DeathNote d n) = 6" | "pc_rank (DelUntrack a) = 1" | "pc_rank (DelFinish a c) = 2"
| "pc_rank (DelNet a c s) = 3" | "pc_rank (DelTake a c) = 4" | "pc_rank (DelMark a c) = 5" | "pc_rank (ActProbe t a) = 6"
| "pc_rank (ActProxy t a) = 7" | "pc_rank (ActBoot t a c) = 8" | "pc_rank (ActGuest t a) = 9" | "pc_rank (ActStart t a) = 10"
| "pc_rank (ActJail t a) = 11" | "pc_rank (WakeSlot a) = 12" | "pc_rank (WakeRead a) = 13" | "pc_rank (StopPin a) = 5"
| "pc_rank (StopSnap a) = 6" | "pc_rank (StopRead a) = 7"

lemma rank_decreases:
  assumes "fc_local g (p, r, S) (p', r', S')" and "p \<noteq> Idle"
  shows "pc_rank p' < pc_rank p"
proof -
  have f: "pc_rank (act_failed t a) \<le> 5" for t a by (simp add: act_failed_def)
  show ?thesis
    using assms by (cases rule: fc_local.cases) (auto split: if_splits intro: le_less_trans[OF f])
qed

lemma thread_enabled:
  assumes "p \<noteq> Idle"
  shows "\<exists>c. fc_local g (p, r, S) c"
proof (cases p)
  case (WakeSlot a)
  then show ?thesis by (metis fc_local.wake_slot prod.collapse)
next
  case (TearNet a k s)
  then show ?thesis by (metis fc_local.tear_net prod.collapse)
next
  case (DelNet a c s)
  then show ?thesis by (metis fc_local.del_net prod.collapse)
next
  case (DeathNote d n)
  then show ?thesis by (metis fc_local.death_claim fc_local.death_lost prod.collapse sum.exhaust)
qed (metis assms fc_local.act_jail_fails fc_local.act_process fc_local.act_socket_fails fc_local.act_boot fc_local.act_proxy_fails
    fc_local.act_probe_fails fc_local.stop_read fc_local.stop_refused fc_local.stop_unpin fc_local.wake_read fc_local.tear
    fc_local.park fc_local.release fc_local.del_mark fc_local.del_take fc_local.del_done fc_local.del_untrack fc_local.death_check)+

text \<open>
  Claim C17. Lifecycle operations finish and no claim is stranded. In every state that any interleaving of
  creates, stops, wakes, deletes and guest deaths can reach, a tracked sandbox that is in a transition has
  a thread working under that claim; a thread that has begun can always take its next step, whatever the
  other threads do and whatever the host answers; and each step brings it closer to its end, which is at most
  thirteen steps away.
\<close>

theorem fc_operations_finish:
  assumes "fc_reachable g n x"
  shows "(\<forall>a. fc_tracked (sy_r x) a \<and> fs_transition (fc_cell (sy_r x) a) \<noteq> transitionNone \<longrightarrow> (\<exists>t. holder (sy_pc x t) = Some a)) \<and>
    (\<forall>t. sy_pc x t \<noteq> Idle \<longrightarrow> (\<exists>c. fc_local g (sy_pc x t, sy_r x, sy_started x) c)) \<and>
    (\<forall>t p r S. sy_pc x t \<noteq> Idle \<longrightarrow> fc_local g (sy_pc x t, sy_r x, sy_started x) (p, r, S) \<longrightarrow> pc_rank p < pc_rank (sy_pc x t)) \<and>
    (\<forall>t. pc_rank (sy_pc x t) \<le> 13)"
proof -
  have "pc_rank p \<le> 13" for p by (cases p) auto
  then show ?thesis
    using fc_reachable_good[OF assms] rank_decreases thread_enabled unfolding fc_good_def claims_held_def by blast
qed

text \<open>
  Claim C2. However creates, stops, wakes, deletes and guest deaths interleave, while the runtime is not shut
  down, sandboxes never share what a slot stands for: in no reachable state do two sandboxes resolve to the
  same daemon URL; the slots in use are exactly as many as the tracked sandboxes that hold one, so none leaks
  and none is used twice; and no slot index is ever out of range. (Over time a slot and its URL pass from a
  stopped sandbox to the next: a URL speaks for its sandbox only as long as the sandbox still resolves to it.)
\<close>

theorem fc_slots_exclusive:
  assumes "fc_reachable g n x"
  shows "\<not> fc_panicked (sy_r x) \<and>
    (\<forall>i j u. fc_DaemonURL i (sy_r x) = Inr u \<and> fc_DaemonURL j (sy_r x) = Inr u \<longrightarrow> i = j) \<and>
    (\<forall>a b. fc_tracked (sy_r x) a \<and> fc_tracked (sy_r x) b \<and> fs_slot (fc_cell (sy_r x) a) \<ge> 0 \<and>
       fs_slot (fc_cell (sy_r x) a) = fs_slot (fc_cell (sy_r x) b) \<longrightarrow> a = b) \<and>
    occupiedSlotsLocked (sy_r x) = card {a. fc_tracked (sy_r x) a \<and> fs_slot (fc_cell (sy_r x) a) \<ge> 0}"
proof -
  have wf: "fc_wf g (sy_r x)" using fc_reachable_good[OF assms] by (simp add: fc_good_def fc_inv_def)
  then have "\<not> fc_panicked (sy_r x)" by (simp add: fc_wf_def)
  then show ?thesis using daemon_urls_differ[OF wf] slots_injective[OF wf] occupied_count[OF wf] by blast
qed

text \<open>
  Claim C5. A memory snapshot is restored only onto the disk it was taken with. Whenever a thread is about
  to restore, in any interleaving with other creates, stops, wakes, deletes and guest deaths and after any
  failures before it, no guest has run on that root file system since the snapshot was taken and the snapshot
  was written completely. (A guest whose kill reported an error is taken to be gone, as the code takes it.)
\<close>

theorem fc_restore_is_clean:
  assumes "fc_reachable g n x" and "sy_pc x t = ActBoot tr a False"
  shows "\<not> fc_dirty (sy_r x) a"
  using fc_reachable_good[OF assms(1)] assms(2) fc_invD(4)[of g x t] by (simp add: fc_good_def)

section \<open>A run\<close>

definition example_sys :: fc_system where
  "example_sys = \<lparr>sy_r = snd (reserve_locked example_fc_config example_fc_id False \<lparr>kn_size = 7, kn_modTime = 1\<rparr> None (fc_New 2)),
     sy_started = {}, sy_pc = (\<lambda>_. Idle)(0 := ActJail transitionCreating 0)\<rparr>"

lemma example_reserved:
  "reserve_locked example_fc_config example_fc_id False \<lparr>kn_size = 7, kn_modTime = 1\<rparr> None (fc_New 2) = (Inr 0, sy_r example_sys)"
proof -
  have "free_slot (fc_slots (fc_New 2)) = Some 0" by (simp add: fc_New_def occupied_def numeral_2_eq_2)
  then show ?thesis by (simp add: example_sys_def reserve_locked_def reserveSlotLocked_def) (simp add: fc_New_def)
qed

lemma example_sys_reachable: "fc_reachable example_fc_config 2 example_sys"
proof -
  have "length example_fc_id \<ge> 12" by (simp add: example_fc_id_def)
  from fc_local.create[OF this example_reserved, of "{}"]
  have "fc_step example_fc_config (fc_init 2) example_sys"
    using fc_step.thread[of example_fc_config "fc_init 2" 0 "ActJail transitionCreating 0" "sy_r example_sys" "{}"]
    by (simp add: fc_init_def example_sys_def)
  then show ?thesis by blast
qed

theorem fc_operations_finish_witness:
  "fc_reachable example_fc_config 2 example_sys \<and> pc_rank (sy_pc example_sys 0) = 11 \<and>
   (\<exists>c. fc_local example_fc_config (sy_pc example_sys 0, sy_r example_sys, sy_started example_sys) c)"
proof -
  have "sy_pc example_sys 0 \<noteq> Idle" "pc_rank (sy_pc example_sys 0) = 11" by (simp_all add: example_sys_def)
  then show ?thesis using example_sys_reachable fc_operations_finish[OF example_sys_reachable] by blast
qed

theorem fc_slots_exclusive_witness:
  "fc_reachable example_fc_config 2 example_sys \<and> \<not> fc_panicked (sy_r example_sys)"
  using example_sys_reachable fc_slots_exclusive[OF example_sys_reachable] by blast

lemma example_boot:
  obtains x where "fc_reachable example_fc_config 2 x" "sy_pc x 0 = ActBoot transitionCreating 0 False"
proof -
  let ?g = example_fc_config and ?r = "sy_r example_sys" and ?C = transitionCreating
  have at: "at_cell ?g 0 (activating ?C) ?r ?r"
    using reserve_locked_at[OF fc_New_wf _ example_reserved] by (simp add: example_fc_id_def)
  have c: "\<not> fs_mustColdBoot (fc_cell ?r 0)"
    by (rule reserve_locked_Inr[OF example_reserved]) (simp add: fc_cell_def)
  have "able_host example_host" by (simp add: able_host_def example_host_def)
  from setupNetwork_able[OF this]
  obtain r1 where n: "setupNetwork example_host (fs_slot (fc_cell ?r 0)) (fs_blockEgress (fc_cell ?r 0)) ?r = (None, r1)"
    by (metis prod.collapse)
  let ?S = "insert (0, fs_generation (fc_cell ?r 0)) {}"
  let ?r2 = "fc_upd 0 (\<lambda>s. s\<lparr>fs_process := True\<rparr>) r1" and ?r3 = "fc_upd 0 (\<lambda>s. s\<lparr>fs_mustColdBoot := True\<rparr>) (fc_upd 0 (\<lambda>s. s\<lparr>fs_process := True\<rparr>) r1)"
  have 1: "fc_local ?g (ActJail ?C 0, ?r, {}) (ActStart ?C 0, r1, ?S)" using fc_local.act_network[OF n] by simp
  have cell1: "fc_cell r1 = fc_cell ?r" "fc_sandboxes r1 = fc_sandboxes ?r" using setupNetwork_cell[OF n] by auto
  have "\<not> activationAbandonedLocked 0 ?r2"
    by (rule not_abandoned[where t = ?C]) (use at_cellD(2,3)[OF at] cell1 in \<open>auto simp: fc_tracked_def activating_def\<close>)
  then have 2: "fc_local ?g (ActStart ?C 0, r1, ?S) (ActGuest ?C 0, ?r2, ?S)" using fc_local.act_process[OF refl, where r = r1 and a = 0 and t = ?C] by presburger
  have "pin_cold_boot 0 ?r2 = (False, ?r3)" using c by (simp add: pin_cold_boot_def cell1)
  from fc_local.act_pin[OF this] have 3: "fc_local ?g (ActGuest ?C 0, ?r2, ?S) (ActBoot ?C 0 False, ?r3, ?S)" .
  have go: "fc_reachable ?g 2 \<lparr>sy_r = r', sy_started = S', sy_pc = (\<lambda>_. Idle)(0 := p')\<rparr>"
    if "fc_reachable ?g 2 \<lparr>sy_r = r, sy_started = S, sy_pc = (\<lambda>_. Idle)(0 := p)\<rparr>" "fc_local ?g (p, r, S) (p', r', S')" for p r S p' r' S'
  proof (rule rtranclp.rtrancl_into_rtrancl[OF that(1)])
    show "fc_step ?g \<lparr>sy_r = r, sy_started = S, sy_pc = (\<lambda>_. Idle)(0 := p)\<rparr> \<lparr>sy_r = r', sy_started = S', sy_pc = (\<lambda>_. Idle)(0 := p')\<rparr>"
      using fc_step.thread[of ?g "\<lparr>sy_r = r, sy_started = S, sy_pc = (\<lambda>_. Idle)(0 := p)\<rparr>" 0 p' r' S'] that(2) by simp
  qed
  have "fc_reachable ?g 2 \<lparr>sy_r = ?r, sy_started = {}, sy_pc = (\<lambda>_. Idle)(0 := ActJail ?C 0)\<rparr>"
    using example_sys_reachable by (simp add: example_sys_def)
  from go[OF go[OF go[OF this 1] 2] 3] show thesis using that by simp
qed

theorem fc_restore_is_clean_witness:
  "\<exists>x. fc_reachable example_fc_config 2 x \<and> sy_pc x 0 = ActBoot transitionCreating 0 False \<and> \<not> fc_dirty (sy_r x) 0"
  using fc_restore_is_clean example_boot by metis

end
