(* ===== verification/Fc_Network.thy ===== *)
theory Fc_Network
  imports Fc_Runtime "HOL-Library.Word" "HOL-Library.Signed_Division"
begin

text \<open>
  The network of a Firecracker slot (\<open>firecracker.ee/network\<close>, \<open>netpolicy\<close>, \<open>shellquote\<close> and the
  start-up reconcile): the names and addresses derived from the slot, the scripts the runner hands to
  the shell, and the packet filter rules in them. How the shell reads a word, which packets the kernel
  takes for the namespace and how the packet filter applies rules is not code of the repository: these
  are parameters of the theorems, with the documented laws as hypotheses.
\<close>

section \<open>Quoting\<close>

definition sq :: char where "sq = CHR 39"

definition dq :: char where "dq = CHR 34"

fun replace_quotes :: "string \<Rightarrow> string" where
  "replace_quotes [] = []"
| "replace_quotes (c # s) = (if c = sq then [sq, dq, sq, dq, sq] else [c]) @ replace_quotes s"

definition Quote :: "string \<Rightarrow> string" where
  "Quote s = (if s = [] then [sq, sq] else [sq] @ replace_quotes s @ [sq])"

section \<open>Names and addresses\<close>

definition uplinkIfaceName :: string where "uplinkIfaceName = ''fc-uplink''"

definition defaultTapIface :: string where "defaultTapIface = ''fc-tap-0''"

definition guestSubnetCIDR :: string where "guestSubnetCIDR = ''172.16.0.0/24''"

definition HostVethName :: "int \<Rightarrow> string" where
  "HostVethName slot = ''fc-veth-'' @ itoaInt slot"

definition MaxSlots :: int where "MaxSlots = 64 * 256"

text \<open>The addresses as octets; the code prints them.\<close>

type_synonym octets = "int \<times> int \<times> int \<times> int"

definition dotted :: "octets \<Rightarrow> string" where
  "dotted o4 = (case o4 of (a, b, c, d) \<Rightarrow> itoaInt a @ ''.'' @ itoaInt b @ ''.'' @ itoaInt c @ ''.'' @ itoaInt d)"

definition uplinkOctets :: "int \<Rightarrow> octets \<times> octets" where
  "uplinkOctets slot =
     (let octet = slot sdiv 64; base = slot smod 64 * 4 in ((10, 200, octet, base + 1), (10, 200, octet, base + 2)))"

definition uplinkSubnet :: "int \<Rightarrow> string \<times> string \<times> string" where
  "uplinkSubnet slot = (case uplinkOctets slot of (h, n) \<Rightarrow> (dotted h, dotted n, ''30''))"

section \<open>The denied ranges\<close>

definition private_ranges :: "(octets \<times> nat) list" where
  "private_ranges =
     [((10, 0, 0, 0), 8), ((172, 16, 0, 0), 12), ((192, 168, 0, 0), 16), ((169, 254, 0, 0), 16), ((127, 0, 0, 0), 8),
      ((100, 64, 0, 0), 10), ((198, 18, 0, 0), 15), ((240, 0, 0, 0), 4), ((224, 0, 0, 0), 4), ((168, 63, 129, 16), 32)]"

definition cidrText :: "octets \<times> nat \<Rightarrow> string" where
  "cidrText c = dotted (fst c) @ ''/'' @ itoa (snd c)"

definition PrivateRangesV4 :: "string list" where
  "PrivateRangesV4 = map cidrText private_ranges"

lemma PrivateRangesV4_text:
  "PrivateRangesV4 = [''10.0.0.0/8'', ''172.16.0.0/12'', ''192.168.0.0/16'', ''169.254.0.0/16'', ''127.0.0.0/8'',
     ''100.64.0.0/10'', ''198.18.0.0/15'', ''240.0.0.0/4'', ''224.0.0.0/4'', ''168.63.129.16/32'']"
  by code_simp

section \<open>The packet filter\<close>

datatype fw_target = ACCEPT | DROP

text \<open>A rule of the FORWARD chain: the interface it is keyed on and what it matches besides.\<close>

datatype fw_match = Established | ToRange string | AnyPacket

record fw_rule =
  fr_iface :: string
  fr_match :: fw_match
  fr_target :: fw_target

fun targetText :: "fw_target \<Rightarrow> string" where
  "targetText ACCEPT = ''ACCEPT''"
| "targetText DROP = ''DROP''"

fun matchText :: "fw_match \<Rightarrow> string" where
  "matchText Established = '' -m conntrack --ctstate ESTABLISHED,RELATED''"
| "matchText (ToRange cidr) = '' -d '' @ Quote cidr"
| "matchText AnyPacket = []"

definition ruleLine :: "string \<Rightarrow> fw_rule \<Rightarrow> string" where
  "ruleLine netns r = ''ip netns exec '' @ Quote netns @ '' iptables -w 5 -A FORWARD -i '' @ Quote (fr_iface r) @
     matchText (fr_match r) @ '' -j '' @ targetText (fr_target r)"

definition egressRules :: "string \<Rightarrow> fw_rule list" where
  "egressRules tap =
     [\<lparr>fr_iface = tap, fr_match = Established, fr_target = ACCEPT\<rparr>] @
     map (\<lambda>cidr. \<lparr>fr_iface = tap, fr_match = ToRange cidr, fr_target = DROP\<rparr>) PrivateRangesV4 @
     [\<lparr>fr_iface = tap, fr_match = AnyPacket, fr_target = ACCEPT\<rparr>]"

definition forwardEgressRules :: "string \<Rightarrow> string \<Rightarrow> string list" where
  "forwardEgressRules netns tap = map (ruleLine netns) (egressRules tap)"

definition blockRule :: "string \<Rightarrow> fw_rule" where
  "blockRule tap = \<lparr>fr_iface = tap, fr_match = AnyPacket, fr_target = DROP\<rparr>"

definition tapName :: "string \<Rightarrow> string" where
  "tapName tapDevice = (if tapDevice = [] then defaultTapIface else tapDevice)"

definition nl :: string where "nl = [newline]"

definition BlockEgressScript :: "int \<Rightarrow> string \<Rightarrow> string" where
  "BlockEgressScript slot tapDevice =
     (let netns = Quote (NetnsName slot); tap = Quote (tapName tapDevice) in
      ''set -eu'' @ nl @ ''ip netns exec '' @ netns @ '' iptables -w 5 -C FORWARD -i '' @ tap @ '' -j DROP 2>/dev/null '' @
      [backslash] @ nl @ ''  || ip netns exec '' @ netns @ '' iptables -w 5 -I FORWARD 1 -i '' @ tap @ '' -j DROP'' @ nl)"

definition SetupScript :: "int \<Rightarrow> string \<Rightarrow> string \<Rightarrow> string" where
  "SetupScript slot tapDevice tapCIDR =
     (let tap = tapName tapDevice; netns = NetnsName slot; veth = HostVethName slot; q = Quote;
          inside = (\<lambda>s. ''ip netns exec '' @ q netns @ '' '' @ s) in
      case uplinkSubnet slot of (hostIP, netnsIP, plen) \<Rightarrow>
      concat (map (\<lambda>l. l @ nl)
        ([''set -eu'',
          ''ip link delete '' @ q veth @ '' 2>/dev/null || true'',
          ''ip netns delete '' @ q netns @ '' 2>/dev/null || true'',
          ''ip netns add '' @ q netns,
          ''ip link add '' @ q veth @ '' type veth peer name '' @ q uplinkIfaceName @ '' netns '' @ q netns,
          ''ip addr add '' @ q hostIP @ ''/'' @ plen @ '' dev '' @ q veth,
          ''ip link set '' @ q veth @ '' up'',
          inside (''ip addr add '' @ q netnsIP @ ''/'' @ plen @ '' dev '' @ q uplinkIfaceName),
          inside (''ip link set '' @ q uplinkIfaceName @ '' up''),
          inside ''ip link set lo up'',
          inside (''ip tuntap add name '' @ q tap @ '' mode tap''),
          inside (''ip addr add '' @ q tapCIDR @ '' dev '' @ q tap),
          inside (''ip link set '' @ q tap @ '' up''),
          inside (''ip route add default via '' @ q hostIP @ '' dev '' @ q uplinkIfaceName),
          inside ''sysctl -w net.ipv4.ip_forward=1'',
          inside (''iptables -w 5 -t nat -A POSTROUTING -s '' @ guestSubnetCIDR @ '' -o '' @ q uplinkIfaceName @ '' -j MASQUERADE'')] @
         forwardEgressRules netns tap)))"

definition EnsureHostNAT :: string where
  "EnsureHostNAT =
     (let iface = [dq] @ ''$default_iface'' @ [dq]; quiet = '' 2>/dev/null '' @ [backslash] in
      nl @ concat (map (\<lambda>l. l @ nl)
        [''set -eu'',
         ''sysctl -w net.ipv4.ip_forward=1'',
         ''default_iface='' @ [dq] @ ''$(ip route show default | sed -n '' @ [sq] @ ''s/.* dev '' @ [backslash] @ ''([^ ]*'' @
           [backslash] @ '').*/'' @ [backslash] @ ''1/p'' @ [sq] @ '' | head -n 1)'' @ [dq],
         ''if [ -z '' @ iface @ '' ]; then'',
         ''  echo '' @ [dq] @ ''no default route interface'' @ [dq] @ '' >&2'',
         ''  exit 1'',
         ''fi'',
         ''iptables -t nat -C POSTROUTING -o '' @ iface @ '' -j MASQUERADE'' @ quiet,
         ''  || iptables -t nat -A POSTROUTING -o '' @ iface @ '' -j MASQUERADE'',
         ''iptables -C FORWARD -m conntrack --ctstate RELATED,ESTABLISHED -j ACCEPT'' @ quiet,
         ''  || iptables -A FORWARD -m conntrack --ctstate RELATED,ESTABLISHED -j ACCEPT'',
         ''iptables -C FORWARD -i fc-veth+ -j ACCEPT'' @ quiet,
         ''  || iptables -A FORWARD -i fc-veth+ -j ACCEPT'']))"

definition CleanupScript :: "int \<Rightarrow> string" where
  "CleanupScript slot =
     nl @ ''set -eu'' @ nl @ ''ip link delete '' @ Quote (HostVethName slot) @ '' 2>/dev/null || true'' @ nl @
     ''ip netns delete '' @ Quote (NetnsName slot) @ '' 2>/dev/null || true'' @ nl"

definition startupNetworkCleanupScript :: "nat \<Rightarrow> string" where
  "startupNetworkCleanupScript capacity =
     ''set -eu'' @ nl @ concat (map (\<lambda>slot. trimSpace (CleanupScript (int slot)) @ nl) [0..<capacity]) @
     ''ip netns list | awk '' @ [sq] @ ''{print $1}'' @ [sq] @ '' | grep '' @ [sq] @ ''^fc-sb-'' @ [sq] @
     '' | xargs -r -n1 ip netns delete 2>/dev/null || true'' @ nl"

section \<open>Start-up reconcile\<close>

text \<open>
  What \<open>reconcileOnStartup\<close> asks of the host, in order. \<open>readDir\<close> is the answer of \<open>os.ReadDir\<close>: the
  entries with whether each is a directory, or an error.
\<close>

datatype reconcile_action = RemoveTree string | ShellScript string | LogWarning

record reconcile_env =
  rz_DataDir :: string
  rz_readDir :: "string + (string \<times> bool) list"
  rz_JailerBaseDir :: string
  rz_pathExists :: "string \<Rightarrow> bool"
  rz_capacity :: nat

definition reconcileSandboxDataDirs :: "reconcile_env \<Rightarrow> reconcile_action list" where
  "reconcileSandboxDataDirs z =
     (if rz_DataDir z = [] then []
      else case rz_readDir z of
        Inl e \<Rightarrow> [LogWarning]
      | Inr entries \<Rightarrow>
          map (\<lambda>en. RemoveTree (pathJoin [rz_DataDir z, fst en])) (filter snd entries))"

definition reconcileJailerState :: "reconcile_env \<Rightarrow> reconcile_action list" where
  "reconcileJailerState z =
     (let root = pathJoin [rz_JailerBaseDir z, ''firecracker''] in
      if \<not> rz_pathExists z root then []
      else [ShellScript (''set -eu'' @ nl @ ''rm -rf '' @ Quote root @ nl)])"

definition reconcileNetworkNamespaces :: "reconcile_env \<Rightarrow> reconcile_action list" where
  "reconcileNetworkNamespaces z = [ShellScript (startupNetworkCleanupScript (rz_capacity z))]"

definition reconcileOnStartup :: "reconcile_env \<Rightarrow> reconcile_action list" where
  "reconcileOnStartup z = reconcileSandboxDataDirs z @ reconcileJailerState z @ reconcileNetworkNamespaces z"

section \<open>What the shell reads\<close>

text \<open>A word reader in the sense of the shell's quoting rules, for the witness.\<close>

fun sh_word :: "char option \<Rightarrow> string \<Rightarrow> string \<times> string" where
  "sh_word q [] = ([], [])"
| "sh_word None (c # s) =
     (if c = sq \<or> c = dq then sh_word (Some c) s
      else if c = CHR '' '' \<or> c = newline then ([], c # s) else apfst ((#) c) (sh_word None s))"
| "sh_word (Some q) (c # s) = (if c = q then sh_word None s else apfst ((#) c) (sh_word (Some q) s))"

lemma apfst_append [simp]:
  "apfst ((@) []) p = p" "apfst ((@) s) (apfst ((@) t) p) = apfst ((@) (s @ t)) p"
  "apfst ((#) c) (apfst ((@) t) p) = apfst ((@) (c # t)) p"
  by (cases p; simp)+

lemma sh_word_quoted: "q \<notin> set s \<Longrightarrow> sh_word (Some q) (s @ q # rest) = apfst ((@) s) (sh_word None rest)"
  by (induction s) auto

lemma quote_chars [simp]: "sq \<noteq> dq" "dq \<noteq> sq" by (simp_all add: sq_def dq_def)

lemma quote_body:
  fixes sh :: "string \<Rightarrow> string \<times> string"
  assumes single: "\<And>s rest. sq \<notin> set s \<Longrightarrow> sh ([sq] @ s @ [sq] @ rest) = apfst ((@) s) (sh rest)"
    and double: "\<And>s rest. set s \<inter> {dq, backslash, CHR ''$'', CHR 0x60} = {} \<Longrightarrow>
                   sh ([dq] @ s @ [dq] @ rest) = apfst ((@) s) (sh rest)"
  shows "sq \<notin> set p \<Longrightarrow> sh ([sq] @ p @ replace_quotes s @ [sq] @ rest) = apfst ((@) (p @ s)) (sh rest)"
proof (induction s arbitrary: p)
  case Nil
  then show ?case using single [of p rest] by simp
next
  case (Cons c s)
  show ?case
  proof (cases "c = sq")
    case True
    have "set [sq] \<inter> {dq, backslash, CHR ''$'', CHR 0x60} = {}" by (simp add: sq_def dq_def backslash_def)
    from double [OF this, of "[sq] @ replace_quotes s @ [sq] @ rest"]
    have "sh ([dq, sq, dq, sq] @ replace_quotes s @ [sq] @ rest) = apfst ((@) ([sq] @ s)) (sh rest)"
      using Cons.IH [of "[]"] by simp
    with single [OF Cons.prems, of "[dq, sq, dq, sq] @ replace_quotes s @ [sq] @ rest"] True
    show ?thesis by simp
  next
    case False
    then show ?thesis using Cons.IH [of "p @ [c]"] Cons.prems by simp
  qed
qed

text \<open>
  Claim C34. Whatever text the runner puts into a script through \<open>Quote\<close>, the shell reads it as exactly
  that one word and goes on behind it: no name, path or address can end the word early or smuggle in
  a command. Of the shell only its documented quoting is used: between single quotes every character
  stands for itself, between double quotes every one but four does, adjacent quoted parts join, and
  a blank ends the word.
\<close>

theorem quote_is_one_word:
  fixes sh :: "string \<Rightarrow> string \<times> string"
  assumes single: "\<And>s rest. sq \<notin> set s \<Longrightarrow> sh ([sq] @ s @ [sq] @ rest) = apfst ((@) s) (sh rest)"
    and double: "\<And>s rest. set s \<inter> {dq, backslash, CHR ''$'', CHR 0x60} = {} \<Longrightarrow>
                   sh ([dq] @ s @ [dq] @ rest) = apfst ((@) s) (sh rest)"
    and blank: "\<And>rest. sh ('' '' @ rest) = ([], '' '' @ rest)"
  shows "sh (Quote s @ '' '' @ rest) = (s, '' '' @ rest)"
proof (cases s)
  case Nil
  then show ?thesis using single [of "[]" "'' '' @ rest"] blank by (simp add: Quote_def)
next
  case (Cons c s')
  then show ?thesis
    using quote_body [of sh "[]" s "'' '' @ rest", OF single double] blank by (simp add: Quote_def)
qed

theorem quote_is_one_word_witness:
  "sh_word None (Quote (''it'' @ [sq] @ ''s; rm -rf /'') @ '' '' @ ''up'') = (''it'' @ [sq] @ ''s; rm -rf /'', '' '' @ ''up'')"
proof (rule quote_is_one_word)
  show "sh_word None ([sq] @ s @ [sq] @ rest) = apfst ((@) s) (sh_word None rest)" if "sq \<notin> set s" for s rest
    using sh_word_quoted [OF that] by simp
  show "sh_word None ([dq] @ s @ [dq] @ rest) = apfst ((@) s) (sh_word None rest)"
    if "set s \<inter> {dq, backslash, CHR ''$'', CHR 0x60} = {}" for s rest
  proof -
    have "dq \<notin> set s" using that by blast
    then show ?thesis using sh_word_quoted by simp
  qed
qed (simp_all add: sq_def dq_def)

section \<open>Addresses as numbers\<close>

fun octets_val :: "octets \<Rightarrow> int" where
  "octets_val (a, b, c, d) = ((a * 256 + b) * 256 + c) * 256 + d"

fun octets_ok :: "octets \<Rightarrow> bool" where
  "octets_ok (a, b, c, d) = (\<forall>x \<in> set [a, b, c, d]. 0 \<le> x \<and> x < 256)"

definition addr :: "octets \<Rightarrow> 32 word" where
  "addr o4 = word_of_int (octets_val o4)"

definition in_cidr :: "octets \<times> nat \<Rightarrow> 32 word \<Rightarrow> bool" where
  "in_cidr c ip \<longleftrightarrow> uint ip div 2 ^ (32 - snd c) = octets_val (fst c) div 2 ^ (32 - snd c)"

lemma uint_addr: "octets_ok o4 \<Longrightarrow> uint (addr o4) = octets_val o4"
proof -
  assume "octets_ok o4"
  then have "0 \<le> octets_val o4" "octets_val o4 < 2 ^ 32" by (cases o4; simp)+
  then show ?thesis unfolding addr_def by (simp add: uint_word_of_int del: octets_val.simps)
qed

lemma uplinkOctets_eq:
  "0 \<le> slot \<Longrightarrow> uplinkOctets slot =
     ((10, 200, slot div 64, slot mod 64 * 4 + 1), (10, 200, slot div 64, slot mod 64 * 4 + 2))"
  by (cases "slot = 0") (simp_all add: uplinkOctets_def Let_def signed_divide_int_def signed_modulo_int_def)

lemma uplink_octets_ok:
  assumes "0 \<le> slot" "slot < MaxSlots"
  shows "octets_ok (fst (uplinkOctets slot))" "octets_ok (snd (uplinkOctets slot))"
  using assms by (auto simp: uplinkOctets_eq MaxSlots_def)

lemma uplink_val:
  assumes "0 \<le> slot"
  shows "octets_val (fst (uplinkOctets slot)) = 180879360 + slot * 4 + 1"
    "octets_val (snd (uplinkOctets slot)) = 180879360 + slot * 4 + 2"
  using assms by (simp_all add: uplinkOctets_eq) presburger+

lemma uplink_uint:
  assumes "0 \<le> slot" "slot < MaxSlots"
  shows "uint (addr (fst (uplinkOctets slot))) = 180879360 + slot * 4 + 1"
    "uint (addr (snd (uplinkOctets slot))) = 180879360 + slot * 4 + 2"
  using uint_addr uplink_octets_ok [OF assms] uplink_val [OF assms(1)] by simp_all

lemma uplink_own_link:
  assumes "0 \<le> i" "i < MaxSlots"
  shows "in_cidr ((10, 200, 0, 0), 16) (addr (fst (uplinkOctets i)))"
    and "in_cidr (fst (uplinkOctets i), 30) (addr (snd (uplinkOctets i)))"
    and "uint (addr (fst (uplinkOctets i))) mod 4 = 1" "uint (addr (snd (uplinkOctets i))) mod 4 = 2"
  using uplink_uint [OF assms] uplink_val [OF assms(1)] assms
  by (simp_all add: in_cidr_def MaxSlots_def)

lemma uplink_other_link:
  assumes "0 \<le> i" "i < MaxSlots" "0 \<le> j" "j < MaxSlots" "i \<noteq> j"
  shows "\<not> in_cidr (fst (uplinkOctets i), 30) (addr (fst (uplinkOctets j)))"
    and "\<not> in_cidr (fst (uplinkOctets i), 30) (addr (snd (uplinkOctets j)))"
  using uplink_uint [OF assms(3,4)] uplink_val [OF assms(1)] assms(1,3,5)
  by (simp_all add: in_cidr_def)

text \<open>
  Claim C35. For every slot the configuration can allow, the two addresses of its host link are
  addresses (no octet runs over), lie in \<open>10.200.0.0/16\<close> and on one and the same \<open>/30\<close> network, in
  which they are the two usable ones; and the networks of two slots never meet.
\<close>

theorem uplink_links_disjoint:
  assumes "0 \<le> i" "i < MaxSlots" "0 \<le> j" "j < MaxSlots" "i \<noteq> j"
  shows "octets_ok (fst (uplinkOctets i)) \<and> octets_ok (snd (uplinkOctets i)) \<and>
     in_cidr ((10, 200, 0, 0), 16) (addr (fst (uplinkOctets i))) \<and>
     in_cidr (fst (uplinkOctets i), 30) (addr (snd (uplinkOctets i))) \<and>
     uint (addr (fst (uplinkOctets i))) mod 4 = 1 \<and> uint (addr (snd (uplinkOctets i))) mod 4 = 2 \<and>
     \<not> in_cidr (fst (uplinkOctets i), 30) (addr (fst (uplinkOctets j))) \<and>
     \<not> in_cidr (fst (uplinkOctets i), 30) (addr (snd (uplinkOctets j)))"
  by (intro conjI uplink_octets_ok uplink_own_link uplink_other_link assms)

theorem uplink_links_disjoint_witness:
  "octets_ok (fst (uplinkOctets 16383)) \<and> fst (uplinkOctets 16383) = (10, 200, 255, 253) \<and>
   \<not> in_cidr (fst (uplinkOctets 16383), 30) (addr (snd (uplinkOctets 16382)))"
  using uplink_links_disjoint [of 16383 16382] by (simp add: MaxSlots_def uplinkOctets_eq)

section \<open>What leaves a guest\<close>

record packet =
  pk_iface :: string
  pk_established :: bool
  pk_dst :: "32 word"

definition rule_matches :: "(string \<Rightarrow> 32 word \<Rightarrow> bool) \<Rightarrow> fw_rule \<Rightarrow> packet \<Rightarrow> bool" where
  "rule_matches in_range r p \<longleftrightarrow> fr_iface r = pk_iface p \<and>
     (case fr_match r of Established \<Rightarrow> pk_established p | ToRange cidr \<Rightarrow> in_range cidr (pk_dst p) | AnyPacket \<Rightarrow> True)"

text \<open>
  The FORWARD chain of a slot's namespace: the rules \<open>SetupScript\<close> appends to the new namespace, and,
  for a sandbox created with egress blocked, what \<open>BlockEgressScript\<close> puts in front unless it is there.
\<close>

definition insertIfAbsent :: "fw_rule \<Rightarrow> fw_rule list \<Rightarrow> fw_rule list" where
  "insertIfAbsent r rs = (if r \<in> set rs then rs else r # rs)"

definition slotChain :: "string \<Rightarrow> bool \<Rightarrow> fw_rule list" where
  "slotChain tap blockEgress =
     (if blockEgress then insertIfAbsent (blockRule tap) (egressRules tap) else egressRules tap)"

text \<open>
  The addresses \<open>SetupScript\<close> gives to the namespace itself: its end of the uplink and the address of the
  tap. A packet to an address the kernel takes as the namespace's own (\<open>own\<close>) is delivered there and
  never reaches the FORWARD chain; every other packet does.
\<close>

definition nsAddrs :: "int \<Rightarrow> octets \<Rightarrow> 32 word set" where
  "nsAddrs slot tapIP = {addr (snd (uplinkOctets slot)), addr tapIP}"

datatype fate = ToNamespace | Forwarded | Dropped

definition guest_packet :: "(32 word \<Rightarrow> bool) \<Rightarrow> (fw_rule list \<Rightarrow> packet \<Rightarrow> fw_target) \<Rightarrow> fw_rule list \<Rightarrow> packet \<Rightarrow> fate" where
  "guest_packet own verdict chain p =
     (if own (pk_dst p) then ToNamespace
      else case verdict chain p of ACCEPT \<Rightarrow> Forwarded | DROP \<Rightarrow> Dropped)"

lemma blockRule_absent: "blockRule tap \<notin> set (egressRules tap)"
  by (auto simp: blockRule_def egressRules_def)

lemma chain_drops:
  assumes first: "\<And>r rs p. verdict (r # rs) p = (if rule_matches in_range r p then fr_target r else verdict rs p)"
  shows "pk_iface p = tap \<Longrightarrow>
     verdict (map (\<lambda>cidr. \<lparr>fr_iface = tap, fr_match = ToRange cidr, fr_target = DROP\<rparr>) cs @ rs) p =
     (if \<exists>c \<in> set cs. in_range c (pk_dst p) then DROP else verdict rs p)"
  by (induction cs) (auto simp: first rule_matches_def)

lemma PrivateRangesV4_set: "(\<exists>c \<in> set PrivateRangesV4. P c) = (\<exists>c \<in> set private_ranges. P (cidrText c))"
  by (simp add: PrivateRangesV4_def)

lemma uplink_private:
  assumes "0 \<le> i" "i < MaxSlots"
  shows "\<exists>c \<in> set private_ranges. in_cidr c (addr (fst (uplinkOctets i)))"
    "\<exists>c \<in> set private_ranges. in_cidr c (addr (snd (uplinkOctets i)))"
proof -
  have m: "((10, 0, 0, 0), 8) \<in> set private_ranges" by (simp add: private_ranges_def)
  have "in_cidr ((10, 0, 0, 0), 8) (addr (fst (uplinkOctets i)))" "in_cidr ((10, 0, 0, 0), 8) (addr (snd (uplinkOctets i)))"
    using uplink_uint [OF assms] assms by (simp_all add: in_cidr_def MaxSlots_def)
  with m show "\<exists>c \<in> set private_ranges. in_cidr c (addr (fst (uplinkOctets i)))"
    "\<exists>c \<in> set private_ranges. in_cidr c (addr (snd (uplinkOctets i)))" by blast+
qed

text \<open>
  Claim C16. What becomes of a packet a guest sends through its tap. With egress blocked none is
  forwarded, replies included. Otherwise a reply is forwarded, and a packet that opens a connection
  is dropped exactly when its destination is in a denied range and forwarded when not; in particular
  none is forwarded to the host or the namespace end of any slot's link. All this is about forwarding:
  what goes to the namespace's own addresses, its end of its own link and the address of the tap,
  is delivered to the namespace, past these rules, in both cases. Of the kernel only documented
  behaviour is used: it delivers locally what is addressed to the namespace and passes the rest through
  FORWARD, where the first rule that matches decides, and each listed range is the addresses with its prefix.
\<close>

theorem guest_egress_policy:
  fixes verdict :: "fw_rule list \<Rightarrow> packet \<Rightarrow> fw_target"
  assumes first: "\<And>r rs p. verdict (r # rs) p = (if rule_matches in_range r p then fr_target r else verdict rs p)"
    and ranges: "\<And>c ip. c \<in> set private_ranges \<Longrightarrow> in_range (cidrText c) ip = in_cidr c ip"
    and own: "\<And>ip. ip \<in> nsAddrs slot tapIP \<Longrightarrow> own ip"
    and tap: "pk_iface p = tap"
  shows "guest_packet own verdict (slotChain tap True) p = (if own (pk_dst p) then ToNamespace else Dropped) \<and>
    guest_packet own verdict (slotChain tap False) p =
      (if own (pk_dst p) then ToNamespace
       else if pk_established p then Forwarded
       else if \<exists>c \<in> set private_ranges. in_cidr c (pk_dst p) then Dropped else Forwarded) \<and>
    (\<forall>i. 0 \<le> i \<and> i < MaxSlots \<and> \<not> pk_established p \<and>
         pk_dst p \<in> {addr (fst (uplinkOctets i)), addr (snd (uplinkOctets i))} \<longrightarrow>
         guest_packet own verdict (slotChain tap False) p \<noteq> Forwarded) \<and>
    (pk_dst p \<in> nsAddrs slot tapIP \<longrightarrow> guest_packet own verdict (slotChain tap blocked) p = ToNamespace)"
proof -
  have "verdict (slotChain tap True) p = DROP"
    using blockRule_absent by (simp add: slotChain_def insertIfAbsent_def first rule_matches_def blockRule_def tap)
  then have b: "guest_packet own verdict (slotChain tap True) p = (if own (pk_dst p) then ToNamespace else Dropped)"
    by (simp add: guest_packet_def)
  have "verdict (slotChain tap False) p =
       (if pk_established p then ACCEPT else if \<exists>c \<in> set private_ranges. in_cidr c (pk_dst p) then DROP else ACCEPT)"
    using ranges tap
    by (simp add: slotChain_def egressRules_def first rule_matches_def chain_drops [OF first tap] PrivateRangesV4_set)
  then have e: "guest_packet own verdict (slotChain tap False) p =
      (if own (pk_dst p) then ToNamespace
       else if pk_established p then Forwarded
       else if \<exists>c \<in> set private_ranges. in_cidr c (pk_dst p) then Dropped else Forwarded)"
    by (simp add: guest_packet_def)
  have "\<exists>c \<in> set private_ranges. in_cidr c (pk_dst p)"
    if "0 \<le> i" "i < MaxSlots" "pk_dst p \<in> {addr (fst (uplinkOctets i)), addr (snd (uplinkOctets i))}" for i
    using uplink_private [OF that(1,2)] that(3) by auto
  then have "\<forall>i. 0 \<le> i \<and> i < MaxSlots \<and> \<not> pk_established p \<and>
         pk_dst p \<in> {addr (fst (uplinkOctets i)), addr (snd (uplinkOctets i))} \<longrightarrow>
         guest_packet own verdict (slotChain tap False) p \<noteq> Forwarded"
    unfolding e by auto
  then show ?thesis using b e own by (intro conjI) (auto simp: guest_packet_def)
qed

text \<open>A filter and a reading of the ranges with these laws.\<close>

fun first_match :: "(string \<Rightarrow> 32 word \<Rightarrow> bool) \<Rightarrow> fw_rule list \<Rightarrow> packet \<Rightarrow> fw_target" where
  "first_match in_range [] p = ACCEPT"
| "first_match in_range (r # rs) p = (if rule_matches in_range r p then fr_target r else first_match in_range rs p)"

definition read_range :: "string \<Rightarrow> 32 word \<Rightarrow> bool" where
  "read_range text ip = (case map_of (zip PrivateRangesV4 private_ranges) text of Some c \<Rightarrow> in_cidr c ip | None \<Rightarrow> False)"

lemma read_range: "c \<in> set private_ranges \<Longrightarrow> read_range (cidrText c) ip = in_cidr c ip"
proof -
  assume "c \<in> set private_ranges"
  have "distinct PrivateRangesV4" by (simp add: PrivateRangesV4_text)
  with \<open>c \<in> set private_ranges\<close> have "map_of (zip PrivateRangesV4 private_ranges) (cidrText c) = Some c"
    by (auto simp: PrivateRangesV4_def distinct_map zip_map1 zip_same_conv_map comp_def inj_onD
        intro!: map_of_is_SomeI)
  then show ?thesis by (simp add: read_range_def)
qed

definition example_packet :: "octets \<Rightarrow> packet" where
  "example_packet o4 = \<lparr>pk_iface = defaultTapIface, pk_established = False, pk_dst = addr o4\<rparr>"

definition example_own_addr :: "32 word \<Rightarrow> bool" where
  "example_own_addr ip \<longleftrightarrow> ip \<in> nsAddrs 0 (172, 16, 0, 1)"

theorem guest_egress_policy_witness:
  "guest_packet example_own_addr (first_match read_range) (slotChain defaultTapIface True) (example_packet (1, 1, 1, 1)) = Dropped \<and>
   guest_packet example_own_addr (first_match read_range) (slotChain defaultTapIface False) (example_packet (1, 1, 1, 1)) = Forwarded \<and>
   guest_packet example_own_addr (first_match read_range) (slotChain defaultTapIface False) (example_packet (169, 254, 169, 254)) = Dropped \<and>
   guest_packet example_own_addr (first_match read_range) (slotChain defaultTapIface True) (example_packet (10, 200, 0, 2)) = ToNamespace"
proof -
  note P = guest_egress_policy [where own = example_own_addr and slot = 0 and tapIP = "(172, 16, 0, 1)", OF first_match.simps(2) read_range]
  have own: "example_own_addr (addr a) \<longleftrightarrow> a = (10, 200, 0, 2) \<or> a = (172, 16, 0, 1)"
    if "a \<in> {(1, 1, 1, 1), (169, 254, 169, 254), (10, 200, 0, 2)}" for a
    using that by (auto simp: example_own_addr_def nsAddrs_def uplinkOctets_eq addr_def)
  show ?thesis
    using P [of "example_packet (1, 1, 1, 1)" defaultTapIface] P [of "example_packet (169, 254, 169, 254)" defaultTapIface]
      P [of "example_packet (10, 200, 0, 2)" defaultTapIface] own
    by (simp add: example_own_addr_def example_packet_def private_ranges_def in_cidr_def uint_addr)
qed

end
