(* ===== verification/Runner_Control.thy ===== *)
theory Runner_Control
  imports Fc_Lifecycle
begin

text \<open>
  The control side of a runner: whether it is cordoned (\<open>runner/cordon\<close>) and the gRPC server through
  which the API creates, stops and deletes sandboxes on it (\<open>runner/grpc_control.go\<close>). Both work on any
  runtime; the laws they need of it are the locale \<open>sandbox_control\<close>, interpreted on the Firecracker
  runtime. Traces, metrics and the certificate of the peer are left out.
\<close>

section \<open>The cordon\<close>

text \<open>\<open>cs_pending\<close> tells whether the channel \<open>changed\<close>, of capacity one, holds a value.\<close>

record cordon =
  cs_cordoned :: bool
  cs_pending :: bool

definition cordon_New :: cordon where
  "cordon_New = \<lparr>cs_cordoned = False, cs_pending = False\<rparr>"

definition Cordoned :: "cordon \<Rightarrow> bool" where
  "Cordoned s = cs_cordoned s"

definition cordon_Set :: "bool \<Rightarrow> cordon \<Rightarrow> bool \<times> cordon" where
  "cordon_Set c s =
     (if cs_cordoned s = c then (False, s) else (True, s\<lparr>cs_cordoned := c, cs_pending := True\<rparr>))"

text \<open>Receiving from \<open>Changed\<close>, where that does not block.\<close>

definition cordon_Changed :: "cordon \<Rightarrow> cordon option" where
  "cordon_Changed s = (if cs_pending s then Some (s\<lparr>cs_pending := False\<rparr>) else None)"

section \<open>The server\<close>

text \<open>
  \<open>ce_ctxErr\<close> tells which error of the context package \<open>errors.Is\<close> finds in an error, if any;
  \<open>ce_encodes\<close> whether the detail of a refusal can be marshalled.
\<close>

datatype ctx_error = CtxCanceled | CtxDeadlineExceeded

record 'w control_env =
  ce_rt :: "'w runtime"
  ce_APIKeys :: "string list"
  ce_RunnerID :: string
  ce_json :: "string \<Rightarrow> json_options"
  ce_ctxErr :: "rt_error \<Rightarrow> ctx_error option"
  ce_encodes :: bool

record 'w control =
  cl_world :: 'w
  cl_cordon :: cordon

text \<open>Incoming metadata, if any: the values of each key.\<close>

type_synonym metadata = "(string \<Rightarrow> string list) option"

datatype control_request =
    CreateRequest string string
  | StopRequest string
  | DeleteRequest string
  | GetCordonRequest
  | SetCordonRequest string bool

datatype control_reply =
    CreateReply string create_response
  | StopReply
  | DeleteReply
  | CordonReply bool

definition toGRPCError :: "'w control_env \<Rightarrow> rt_error \<Rightarrow> go_error" where
  "toGRPCError e err =
     (case ce_ctxErr e err of
        Some CtxCanceled \<Rightarrow> StatusErr Canceled ''context canceled'' []
      | Some CtxDeadlineExceeded \<Rightarrow> StatusErr DeadlineExceeded ''context deadline exceeded'' []
      | None \<Rightarrow>
          if errors_Is err ErrCapacityExhausted then CapacityRefusal (ce_encodes e) (er_text err)
          else StatusErr CodeInternal (er_text err) [])"

definition checkAPIKey :: "'w control_env \<Rightarrow> metadata \<Rightarrow> go_error option" where
  "checkAPIKey e md =
     (case md of
        None \<Rightarrow> Some (StatusErr Unauthenticated ''missing metadata'' [])
      | Some m \<Rightarrow>
          (let key = (case m ''x-api-key'' of [] \<Rightarrow> [] | v # _ \<Rightarrow> trimSpace v) in
           if key = [] then Some (StatusErr Unauthenticated ''missing x-api-key'' [])
           else if key \<notin> set (ce_APIKeys e) then Some (StatusErr Unauthenticated ''invalid api key'' [])
           else None))"

definition ctl_CreateSandbox ::
    "'w control_env \<Rightarrow> metadata \<Rightarrow> string \<Rightarrow> string \<Rightarrow> 'w control \<Rightarrow> (go_error + control_reply) \<times> 'w control" where
  "ctl_CreateSandbox e md i options s =
     (case checkAPIKey e md of
        Some err \<Rightarrow> (Inl err, s)
      | None \<Rightarrow>
          if Cordoned (cl_cordon s) then (Inl (CapacityRefusal (ce_encodes e) ''runner is cordoned''), s)
          else (case rt_Ready (ce_rt e) (cl_world s) of
            (Some err, w) \<Rightarrow> (Inl (StatusErr Unavailable (er_text err) []), s\<lparr>cl_world := w\<rparr>)
          | (None, w) \<Rightarrow>
              (let sandboxID = trimSpace i in
               if \<not> isValidID sandboxID then (Inl (StatusErr InvalidArgument ''invalid sandbox id'' []), s\<lparr>cl_world := w\<rparr>)
               else (case ParseCreateOptions (ce_json e) options of
                 Inl err \<Rightarrow> (Inl (StatusErr InvalidArgument (''invalid create options: '' @ err) []), s\<lparr>cl_world := w\<rparr>)
               | Inr opts \<Rightarrow>
                   (case rt_CreateSandbox (ce_rt e) sandboxID opts w of
                      (Inl err, w') \<Rightarrow> (Inl (toGRPCError e err), s\<lparr>cl_world := w'\<rparr>)
                    | (Inr info, w') \<Rightarrow>
                        (Inr (CreateReply sandboxID
                           \<lparr>cr_ContainerIP = si_IP info, cr_AppliedCreateOptionsJson = marshalCreateOptions opts\<rparr>),
                         s\<lparr>cl_world := w'\<rparr>))))))"

definition ctl_StopSandbox :: "'w control_env \<Rightarrow> metadata \<Rightarrow> string \<Rightarrow> 'w control \<Rightarrow> (go_error + control_reply) \<times> 'w control" where
  "ctl_StopSandbox e md i s =
     (case checkAPIKey e md of
        Some err \<Rightarrow> (Inl err, s)
      | None \<Rightarrow>
          (let sandboxID = trimSpace i in
           if \<not> isValidID sandboxID then (Inl (StatusErr InvalidArgument ''invalid sandbox id'' []), s)
           else (case rt_StopSandbox (ce_rt e) sandboxID (cl_world s) of
             (Some err, w) \<Rightarrow>
               (if errors_Is err ErrSandboxNotFound then Inr StopReply else Inl (toGRPCError e err), s\<lparr>cl_world := w\<rparr>)
           | (None, w) \<Rightarrow> (Inr StopReply, s\<lparr>cl_world := w\<rparr>))))"

definition ctl_DeleteSandbox :: "'w control_env \<Rightarrow> metadata \<Rightarrow> string \<Rightarrow> 'w control \<Rightarrow> (go_error + control_reply) \<times> 'w control" where
  "ctl_DeleteSandbox e md i s =
     (case checkAPIKey e md of
        Some err \<Rightarrow> (Inl err, s)
      | None \<Rightarrow>
          (let sandboxID = trimSpace i in
           if \<not> isValidID sandboxID then (Inl (StatusErr InvalidArgument ''invalid sandbox id'' []), s)
           else (case rt_DeleteSandbox (ce_rt e) sandboxID (cl_world s) of
             (Some err, w) \<Rightarrow>
               (if errors_Is err ErrSandboxNotFound then Inr DeleteReply else Inl (toGRPCError e err), s\<lparr>cl_world := w\<rparr>)
           | (None, w) \<Rightarrow> (Inr DeleteReply, s\<lparr>cl_world := w\<rparr>))))"

definition ctl_GetCordon :: "'w control_env \<Rightarrow> metadata \<Rightarrow> 'w control \<Rightarrow> (go_error + control_reply) \<times> 'w control" where
  "ctl_GetCordon e md s =
     (case checkAPIKey e md of Some err \<Rightarrow> (Inl err, s) | None \<Rightarrow> (Inr (CordonReply (Cordoned (cl_cordon s))), s))"

definition ctl_SetCordon :: "'w control_env \<Rightarrow> metadata \<Rightarrow> string \<Rightarrow> bool \<Rightarrow> 'w control \<Rightarrow> (go_error + control_reply) \<times> 'w control" where
  "ctl_SetCordon e md runnerID c s =
     (case checkAPIKey e md of
        Some err \<Rightarrow> (Inl err, s)
      | None \<Rightarrow>
          if runnerID \<noteq> [] \<and> runnerID \<noteq> ce_RunnerID e
          then (Inl (StatusErr FailedPrecondition
                  (''this is runner '' @ goQuote (ce_RunnerID e) @ '', not '' @ goQuote runnerID) []), s)
          else (Inr (CordonReply c), s\<lparr>cl_cordon := snd (cordon_Set c (cl_cordon s))\<rparr>))"

fun control_serve :: "'w control_env \<Rightarrow> metadata \<Rightarrow> control_request \<Rightarrow> 'w control \<Rightarrow> (go_error + control_reply) \<times> 'w control" where
  "control_serve e md (CreateRequest i options) s = ctl_CreateSandbox e md i options s"
| "control_serve e md (StopRequest i) s = ctl_StopSandbox e md i s"
| "control_serve e md (DeleteRequest i) s = ctl_DeleteSandbox e md i s"
| "control_serve e md GetCordonRequest s = ctl_GetCordon e md s"
| "control_serve e md (SetCordonRequest runnerID c) s = ctl_SetCordon e md runnerID c s"

text \<open>A session: requests one after the other, with their answers.\<close>

fun control_run :: "'w control_env \<Rightarrow> (metadata \<times> control_request) list \<Rightarrow> 'w control \<Rightarrow>
    (go_error + control_reply) list \<times> 'w control" where
  "control_run e [] s = ([], s)"
| "control_run e ((md, q) # qs) s =
     (case control_serve e md q s of (a, s1) \<Rightarrow> (case control_run e qs s1 of (as, s2) \<Rightarrow> (a # as, s2)))"

section \<open>A wake-up for every change\<close>

text \<open>
  The reader of the cordon, the heartbeat, waits for \<open>Changed\<close> and then looks. Whatever it reported
  last is the current state, or a wake-up is waiting for it.
\<close>

inductive cordon_reach :: "cordon \<Rightarrow> bool \<Rightarrow> bool" where
  init: "cordon_reach cordon_New False"
| set: "cordon_reach s reported \<Longrightarrow> cordon_reach (snd (cordon_Set c s)) reported"
| report: "cordon_reach s reported \<Longrightarrow> cordon_Changed s = Some s' \<Longrightarrow> cordon_reach s' (Cordoned s')"
| tick: "cordon_reach s reported \<Longrightarrow> cordon_reach s (Cordoned s)"

lemma cordon_reported: "cordon_reach s reported \<Longrightarrow> cs_pending s \<or> reported = Cordoned s"
  by (induction rule: cordon_reach.induct)
    (auto simp: cordon_New_def cordon_Set_def cordon_Changed_def Cordoned_def split: if_splits)

section \<open>The contract\<close>

text \<open>
  What the control server further needs of a runtime, in states with its invariant \<open>rt_ok\<close>: an
  operation changes at most whether its own sandbox is tracked, and does so exactly when it succeeds;
  a sandbox it holds is neither created again nor refused for want of capacity.
\<close>

locale sandbox_control = sandbox_runtime rt tracked for rt :: "'w runtime" and tracked +
  fixes rt_ok :: "'w \<Rightarrow> bool"
  assumes ready_keeps: "rt_ok w \<Longrightarrow> rt_Ready rt w = (re, w') \<Longrightarrow> rt_ok w' \<and> tracked w' = tracked w"
    and create_tracks: "rt_ok w \<Longrightarrow> BlockEgress (Some opts) \<noteq> None \<Longrightarrow> rt_CreateSandbox rt i opts w = (res, w') \<Longrightarrow>
          rt_ok w' \<and> tracked w' = (if isl res then tracked w else (tracked w)(i := True))"
    and create_not_held: "rt_ok w \<Longrightarrow> BlockEgress (Some opts) \<noteq> None \<Longrightarrow> rt_CreateSandbox rt i opts w = (res, w') \<Longrightarrow>
          (\<And>err. res = Inl err \<Longrightarrow> errors_Is err ErrCapacityExhausted) \<Longrightarrow> \<not> tracked w i"
    and stop_keeps: "rt_ok w \<Longrightarrow> rt_StopSandbox rt i w = (se, w') \<Longrightarrow> rt_ok w' \<and> tracked w' = tracked w"
    and delete_untracks: "rt_ok w \<Longrightarrow> rt_DeleteSandbox rt i w = (de, w') \<Longrightarrow>
          rt_ok w' \<and> tracked w' = (if de = None then (tracked w)(i := False) else tracked w)"
    and delete_not_found: "rt_ok w \<Longrightarrow> rt_DeleteSandbox rt i w = (Some err, w') \<Longrightarrow> errors_Is err ErrSandboxNotFound \<Longrightarrow> \<not> tracked w i"

text \<open>
  The abstract runner: a set of sandboxes, which only successful creates and deletes change, and the
  cordon, which only an accepted \<open>SetCordon\<close> changes; and the answers it may give in such a state.
\<close>

type_synonym abstract_runner = "(string \<Rightarrow> bool) \<times> bool"

definition runner_abs :: "('w \<Rightarrow> string \<Rightarrow> bool) \<Rightarrow> 'w control \<Rightarrow> abstract_runner" where
  "runner_abs tracked s = (tracked (cl_world s), Cordoned (cl_cordon s))"

fun control_effect :: "control_request \<Rightarrow> go_error + control_reply \<Rightarrow> abstract_runner \<Rightarrow> abstract_runner" where
  "control_effect (CreateRequest i options) (Inr _) (t, c) = (t(trimSpace i := True), c)"
| "control_effect (DeleteRequest i) (Inr _) (t, c) = (t(trimSpace i := False), c)"
| "control_effect (SetCordonRequest runnerID b) (Inr _) (t, c) = (t, b)"
| "control_effect _ _ tc = tc"

fun control_answer :: "control_request \<Rightarrow> go_error + control_reply \<Rightarrow> abstract_runner \<Rightarrow> bool" where
  "control_answer (CreateRequest i options) (Inr _) (t, c) \<longleftrightarrow> \<not> c \<and> \<not> t (trimSpace i)"
| "control_answer (CreateRequest i options) (Inl err) (t, c) \<longleftrightarrow> (IsCapacityRefusal (Some err) \<longrightarrow> c \<or> \<not> t (trimSpace i))"
| "control_answer GetCordonRequest (Inr reply) (t, c) \<longleftrightarrow> reply = CordonReply c"
| "control_answer (SetCordonRequest runnerID b) (Inr reply) (t, c) \<longleftrightarrow> reply = CordonReply b"
| "control_answer _ _ _ \<longleftrightarrow> True"

fun control_effects :: "(metadata \<times> control_request) list \<Rightarrow> (go_error + control_reply) list \<Rightarrow> abstract_runner \<Rightarrow> abstract_runner" where
  "control_effects ((md, q) # qs) (a # as) tc = control_effects qs as (control_effect q a tc)"
| "control_effects _ _ tc = tc"

fun control_answers :: "(metadata \<times> control_request) list \<Rightarrow> (go_error + control_reply) list \<Rightarrow> abstract_runner \<Rightarrow> bool" where
  "control_answers ((md, q) # qs) (a # as) tc \<longleftrightarrow> control_answer q a tc \<and> control_answers qs as (control_effect q a tc)"
| "control_answers qs as tc \<longleftrightarrow> qs = [] \<and> as = []"

lemma checkAPIKey_refusal: "checkAPIKey e md = Some err \<Longrightarrow> \<not> IsCapacityRefusal (Some err)"
  by (auto simp: checkAPIKey_def Let_def split: option.splits if_splits)

lemma toGRPCError_refusal: "IsCapacityRefusal (Some (toGRPCError e err)) \<Longrightarrow> errors_Is err ErrCapacityExhausted"
  by (auto simp: toGRPCError_def split: option.splits ctx_error.splits if_splits)

lemma parsed_egress: "ParseCreateOptions json s = Inr egress \<Longrightarrow> egress = ''public'' \<or> egress = ''none''"
  by (auto simp: ParseCreateOptions_def ParseEgress_def split: if_splits json_options.splits)

lemma parsed_ok: "ParseCreateOptions json s = Inr egress \<Longrightarrow> BlockEgress (Some egress) = Some (egress = ''none'')"
  by (drule parsed_egress) (auto simp: BlockEgress_def)

context sandbox_control
begin

lemma serve_create:
  assumes "ce_rt e = rt" "rt_ok (cl_world s)" "ctl_CreateSandbox e md i options s = (a, s')"
  shows "rt_ok (cl_world s') \<and> runner_abs tracked s' = control_effect (CreateRequest i options) a (runner_abs tracked s) \<and>
    control_answer (CreateRequest i options) a (runner_abs tracked s)"
proof -
  obtain re w where r: "rt_Ready rt (cl_world s) = (re, w)" by fastforce
  have R: "rt_ok w" "tracked w = tracked (cl_world s)" using ready_keeps[OF assms(2) r] by auto
  show ?thesis
  proof (cases "ParseCreateOptions (ce_json e) options")
    case (Inl err)
    then show ?thesis
      using assms R r by (auto simp: ctl_CreateSandbox_def runner_abs_def Let_def checkAPIKey_refusal split: option.splits if_splits)
  next
    case (Inr opts)
    obtain res w' where c: "rt_CreateSandbox rt (trimSpace i) opts w = (res, w')" by fastforce
    have C: "rt_ok w'" "tracked w' = (if isl res then tracked w else (tracked w)(trimSpace i := True))"
      "(\<And>err. res = Inl err \<Longrightarrow> errors_Is err ErrCapacityExhausted) \<Longrightarrow> \<not> tracked w (trimSpace i)"
      using create_tracks[OF R(1) _ c] create_not_held[OF R(1) _ c] parsed_ok[OF Inr] by auto
    show ?thesis
      using assms R r c C Inr
      by (auto simp: ctl_CreateSandbox_def runner_abs_def Let_def checkAPIKey_refusal split: option.splits if_splits sum.splits dest!: toGRPCError_refusal)
  qed
qed

lemma serve_stop:
  assumes "ce_rt e = rt" "rt_ok (cl_world s)" "ctl_StopSandbox e md i s = (a, s')"
  shows "rt_ok (cl_world s') \<and> runner_abs tracked s' = runner_abs tracked s"
proof -
  obtain se w where r: "rt_StopSandbox rt (trimSpace i) (cl_world s) = (se, w)" by fastforce
  show ?thesis
    using assms stop_keeps[OF assms(2) r] r
    by (auto simp: ctl_StopSandbox_def runner_abs_def Let_def split: option.splits if_splits)
qed

lemma serve_delete:
  assumes "ce_rt e = rt" "rt_ok (cl_world s)" "ctl_DeleteSandbox e md i s = (a, s')"
  shows "rt_ok (cl_world s') \<and> runner_abs tracked s' = control_effect (DeleteRequest i) a (runner_abs tracked s)"
proof -
  obtain de w where r: "rt_DeleteSandbox rt (trimSpace i) (cl_world s) = (de, w)" by fastforce
  note D = delete_untracks[OF assms(2) r]
  have nf: "\<not> tracked (cl_world s) (trimSpace i)" if "de = Some err" "errors_Is err ErrSandboxNotFound" for err
    using delete_not_found[OF assms(2)] r that by blast
  show ?thesis
    using assms D r nf
    by (auto simp: ctl_DeleteSandbox_def runner_abs_def Let_def fun_upd_idem split: option.splits if_splits)
qed

lemma serve_refines:
  assumes "ce_rt e = rt" "rt_ok (cl_world s)" "control_serve e md q s = (a, s')"
  shows "rt_ok (cl_world s') \<and> runner_abs tracked s' = control_effect q a (runner_abs tracked s) \<and>
    control_answer q a (runner_abs tracked s)"
proof (cases q)
  case (CreateRequest i options)
  then show ?thesis using serve_create assms by simp
next
  case (StopRequest i)
  then show ?thesis using serve_stop[OF assms(1,2)] assms(3) by simp
next
  case (DeleteRequest i)
  then show ?thesis using serve_delete assms by simp
next
  case GetCordonRequest
  then show ?thesis using assms by (auto simp: ctl_GetCordon_def runner_abs_def split: option.splits)
next
  case (SetCordonRequest i c)
  then show ?thesis
    using assms by (auto simp: ctl_SetCordon_def runner_abs_def Cordoned_def cordon_Set_def split: option.splits if_splits)
qed

lemma run_refines:
  assumes "ce_rt e = rt" "rt_ok (cl_world s)" "control_run e qs s = (as, s')"
  shows "rt_ok (cl_world s') \<and> runner_abs tracked s' = control_effects qs as (runner_abs tracked s) \<and>
    control_answers qs as (runner_abs tracked s)"
  using assms(2,3)
proof (induction qs arbitrary: s as)
  case (Cons q qs)
  obtain md p where q: "q = (md, p)" by fastforce
  obtain a s1 where a: "control_serve e md p s = (a, s1)" by fastforce
  obtain as1 where "control_run e qs s1 = (as1, s')" "as = a # as1"
    using Cons.prems(2) q a by (auto split: prod.splits)
  then show ?case using Cons.IH[of s1 as1] serve_refines[OF assms(1) Cons.prems(1) a] q by auto
qed simp

end

section \<open>The contract holds of the Firecracker runtime\<close>

definition fc_ok :: "fc_config \<Rightarrow> fc_world \<Rightarrow> bool" where
  "fc_ok g w \<longleftrightarrow> fc_wf g (fw_state w) \<and> fc_quiet (fw_state w)"

lemma quiet_visible: "fc_quiet (fw_state w) \<Longrightarrow> fc_visible w i \<longleftrightarrow> fc_sandboxes (fw_state w) i \<noteq> None"
  by (auto simp: fc_visible_def fc_quiet_def deleting_def split: option.splits)

lemma quiet_same_visible:
  assumes "fc_quiet (fw_state w)" "fc_quiet (fw_state w')" "fc_sandboxes (fw_state w') = fc_sandboxes (fw_state w)"
  shows "fc_visible w' = fc_visible w"
  using quiet_visible[OF assms(1)] quiet_visible[OF assms(2)] assms(3) by (simp add: fun_eq_iff)

text \<open>What a delete reports beside a missing sandbox is text of the host: it matches no sentinel.\<close>

definition plain_err :: "rt_error \<Rightarrow> bool" where
  "plain_err e \<longleftrightarrow> er_is e = []"

lemma plain_err_simps [simp]: "plain_err (textErr t)" "plain_err (wrapErr m e) = plain_err e"
  by (simp_all add: plain_err_def)

lemma joinErrors_plain: "joinErrors errs = Some e \<Longrightarrow> list_all plain_err errs \<Longrightarrow> plain_err e"
  by (cases errs) (auto simp: joinErrors_def)

lemma err_if_plain [simp]: "list_all plain_err (err_if b msg e)"
  by (cases e) (simp_all add: err_if_def)

lemma clearSlotNetwork_plain: "pred_option plain_err (fst (clearSlotNetwork h k st r))"
  by (cases "ho_clearNetwork h") (simp_all add: clearSlotNetwork_def Let_def)

lemma teardown_plain: "pred_option plain_err (fst (teardownRunningVM h a r))"
proof -
  let ?c = "if fs_slot (fc_cell r a) \<ge> 0 then clearSlotNetwork h (fs_slot (fc_cell r a)) (Some a) (take_handles a r)
            else (None, take_handles a r)"
  obtain ce r2 where c: "?c = (ce, r2)" by fastforce
  have "pred_option plain_err (fst ?c)" using clearSlotNetwork_plain by simp
  then have "list_all plain_err (case ce of None \<Rightarrow> [] | Some e \<Rightarrow> [wrapErr m e])" for m
    unfolding c by (cases ce) simp_all
  then show ?thesis
    unfolding teardownRunningVM_def Let_def c
    by (auto simp: option.pred_set elim!: joinErrors_plain)
qed

lemma deleteSandbox_plain: "pred_option plain_err (fst (deleteSandbox h a r))"
proof -
  obtain te r2 where t: "teardownRunningVM h a (mark_deleting a r) = (te, r2)" by fastforce
  have "list_all plain_err (case te of None \<Rightarrow> [] | Some e \<Rightarrow> [e])"
    using teardown_plain[of h a "mark_deleting a r"] t by (cases te) simp_all
  then show ?thesis
    using t unfolding deleteSandbox_def Let_def
    by (auto simp: option.pred_set elim!: joinErrors_plain split: option.split)
qed

lemma delete_reports_missing:
  assumes "fc_DeleteSandbox h i r = (Some e, r')" "errors_Is e ErrSandboxNotFound"
  shows "\<forall>a. fc_sandboxes r i = Some a \<longrightarrow> deleting (fc_cell r a)"
proof -
  have "\<not> errors_Is e ErrSandboxNotFound" if "deleteSandbox h a r1 = (Some e, r')" for a r1
    using deleteSandbox_plain[of h a r1] that by (simp add: plain_err_def errors_Is_def)
  then show ?thesis
    using assms by (auto simp: fc_DeleteSandbox_def beginTransition_def split: option.splits if_splits)
qed

lemma fc_rt_create:
  assumes "fc_ok g w" "BlockEgress (Some opts) = Some eg" "rt_CreateSandbox (fc_rt g keys paths) i opts w = (res, w')"
  shows "fc_ok g w' \<and> fc_CreateSandbox g (fw_host w) i eg (fw_state w) = (res, fw_state w') \<and>
    fc_visible w' = (if isl res then fc_visible w else (fc_visible w)(i := True))"
proof -
  have c: "fc_CreateSandbox g (fw_host w) i eg (fw_state w) = (res, fw_state w')"
    using assms(2,3) by (auto simp: fc_rt_def split: prod.splits)
  have wf: "fc_wf g (fw_state w)" and q: "fc_quiet (fw_state w)" using assms(1) by (auto simp: fc_ok_def)
  note S = fc_CreateSandbox_spec[OF wf c]
  show ?thesis
  proof (cases res)
    case (Inl e)
    then have "fc_quiet (fw_state w')" "fc_sandboxes (fw_state w') = fc_sandboxes (fw_state w)"
      using S q same_sandboxes_quiet by (auto simp: same_sandboxes_def)
    then show ?thesis using quiet_same_visible[OF q] S c Inl by (simp add: fc_ok_def)
  next
    case (Inr info)
    then have N: "fc_sandboxes (fw_state w') = (fc_sandboxes (fw_state w))(i \<mapsto> fc_next (fw_state w))"
      "\<And>j a. fc_sandboxes (fw_state w) j = Some a \<Longrightarrow> fc_cell (fw_state w') a = fc_cell (fw_state w) a"
      "fs_transition (fc_cell (fw_state w') (fc_next (fw_state w))) = transitionNone" using S by auto
    then have q': "fc_quiet (fw_state w')" using q by (auto simp: fc_quiet_def split: if_splits)
    have "fc_visible w' = (fc_visible w)(i := True)"
      using quiet_visible[OF q] quiet_visible[OF q'] N(1) by (simp add: fun_eq_iff)
    then show ?thesis using q' S c Inr by (simp add: fc_ok_def)
  qed
qed

text \<open>A sandbox that is there fails a create before its capacity is looked at.\<close>

lemma fc_create_not_held:
  assumes "fc_CreateSandbox g h i eg r = (Inl err, r')" "errors_Is err ErrCapacityExhausted"
  shows "fc_sandboxes r i = None"
proof (rule ccontr)
  assume "fc_sandboxes r i \<noteq> None"
  then have "plain_err err"
    using assms(1)
    by (auto simp: fc_CreateSandbox_def reserveSandbox_def reserve_locked_def split: if_splits option.splits sum.splits)
  with assms(2) show False by (simp add: plain_err_def errors_Is_def)
qed

interpretation fcctl: sandbox_control "fc_rt g keys paths" fc_visible "fc_ok g"
proof
  show "fc_ok g w' \<and> fc_visible w' = fc_visible w"
    if "fc_ok g w" "rt_Ready (fc_rt g keys paths) w = (re, w')" for w re w'
  proof -
    have "fw_state w' = fw_state w" using that(2) by (auto simp: fc_rt_def)
    then show ?thesis using that(1) quiet_same_visible[of w w'] by (simp add: fc_ok_def)
  qed
  show "fc_ok g w' \<and> fc_visible w' = (if isl res then fc_visible w else (fc_visible w)(i := True))"
    if "fc_ok g w" "BlockEgress (Some opts) \<noteq> None" "rt_CreateSandbox (fc_rt g keys paths) i opts w = (res, w')" for w opts i res w'
    using that fc_rt_create by blast
  show "\<not> fc_visible w i"
    if held: "fc_ok g w" "BlockEgress (Some opts) \<noteq> None" "rt_CreateSandbox (fc_rt g keys paths) i opts w = (res, w')"
      "\<And>err. res = Inl err \<Longrightarrow> errors_Is err ErrCapacityExhausted" for w opts i res w'
  proof -
    obtain eg where eg: "BlockEgress (Some opts) = Some eg" using held(2) by auto
    have c: "fc_CreateSandbox g (fw_host w) i eg (fw_state w) = (res, fw_state w')"
      using fc_rt_create[OF held(1) eg held(3)] by simp
    have "fc_sandboxes (fw_state w) i = None"
    proof (cases res)
      case (Inl err)
      then show ?thesis using fc_create_not_held c held(4) by blast
    next
      case (Inr info)
      then show ?thesis using fc_CreateSandbox_spec[OF _ c] held(1) by (simp add: fc_ok_def)
    qed
    then show ?thesis by (simp add: fc_visible_def)
  qed
  show "fc_ok g w' \<and> fc_visible w' = fc_visible w"
    if "fc_ok g w" "rt_StopSandbox (fc_rt g keys paths) i w = (se, w')" for w i se w'
  proof -
    have "fc_StopSandbox (fw_host w) i (fw_state w) = (se, fw_state w')"
      using that(2) by (auto simp: fc_rt_def split: prod.splits)
    then have "fc_wf g (fw_state w') \<and> changes_only i (fw_state w) (fw_state w') \<and> fc_quiet (fw_state w')"
      using fc_StopSandbox_spec that(1) by (auto simp: fc_ok_def)
    then show ?thesis using that(1) quiet_same_visible[of w w'] by (simp add: fc_ok_def changes_only_def)
  qed
  fix w i de w'
  assume ok: "fc_ok g w" and d: "rt_DeleteSandbox (fc_rt g keys paths) i w = (de, w')"
  have d': "fc_DeleteSandbox (fw_host w) i (fw_state w) = (de, fw_state w')" using d by (auto simp: fc_rt_def split: prod.splits)
  have wf: "fc_wf g (fw_state w)" and q: "fc_quiet (fw_state w)" using ok by (auto simp: fc_ok_def)
  note D = fc_DeleteSandbox_spec[OF wf d']
  have "fc_visible w' = (fc_visible w)(i := False)" if "de = None"
    using D that q quiet_visible[OF q] quiet_visible[of w'] by (simp add: fun_eq_iff)
  then show "fc_ok g w' \<and> fc_visible w' = (if de = None then (fc_visible w)(i := False) else fc_visible w)"
    using D q quiet_same_visible[OF q, of w'] by (auto simp: fc_ok_def changes_only_def)
next
  fix w i err w'
  assume ok: "fc_ok g w" and d: "rt_DeleteSandbox (fc_rt g keys paths) i w = (Some err, w')" and e: "errors_Is err ErrSandboxNotFound"
  have "fc_DeleteSandbox (fw_host w) i (fw_state w) = (Some err, fw_state w')" using d by (auto simp: fc_rt_def split: prod.splits)
  then show "\<not> fc_visible w i" using e delete_reports_missing by (fastforce simp: fc_visible_def split: option.splits)
qed

section \<open>What the API relies on\<close>

text \<open>
  Claim C14. Requests served one after the other, the control server of a Firecracker runner is a set of
  sandboxes and a cordon flag. Whatever requests it gets, with whatever keys and options, and whatever
  the host does: the set grows by the sandbox of a create exactly when the create is answered as done,
  it shrinks by the sandbox of a delete exactly when the delete is answered as done (a sandbox that was
  not there included), the flag is what the last accepted \<open>SetCordon\<close> said, and every other answer leaves
  both as they were. A create is done only by a runner that is not cordoned and does not hold the
  sandbox; and the answer on which the API goes to another runner, a capacity refusal, comes only from
  a runner that is cordoned or does not hold the sandbox. The invariant of the runtime holds throughout.
\<close>

theorem control_run_refines:
  assumes "ce_rt e = fc_rt g keys paths" "fc_ok g (cl_world s)" "control_run e qs s = (as, s')"
  shows "fc_ok g (cl_world s') \<and> runner_abs fc_visible s' = control_effects qs as (runner_abs fc_visible s) \<and>
    control_answers qs as (runner_abs fc_visible s)"
  using assms by (rule fcctl.run_refines)

text \<open>The egress of a sandbox.\<close>

definition has_egress :: "string \<Rightarrow> nat \<Rightarrow> bool \<Rightarrow> fc \<Rightarrow> bool" where
  "has_egress i a b r \<longleftrightarrow> fc_sandboxes r i = Some a \<and> fs_blockEgress (fc_cell r a) = b"

lemma changes_only_egress: "changes_only j r r' \<Longrightarrow> has_egress i a b r \<Longrightarrow> has_egress i a b r'"
  unfolding changes_only_def has_egress_def by metis

lemma activate_blocks:
  assumes "at_cell g a (activating t) r0 r" "activateSandboxVM g h a r = (None, r')" "fs_blockEgress (fc_cell r a)"
  shows "ho_blockEgress h = None"
proof -
  have "\<not> (fs_slot (fc_cell r a) < 0 \<or> fs_slot (fc_cell r a) \<ge> int (length (fc_slots r)))"
    using at_cellD(3,5)[OF assms(1)] by (auto simp: activating_def cell_ok_def)
  then have "ho_blockEgress h = None" if "setupNetwork h (fs_slot (fc_cell r a)) True r = (None, r1)" for r1
    using that by (auto simp: setupNetwork_def Let_def split: if_splits prod.splits option.splits)
  then show ?thesis
    using assms(2,3) by (auto simp: activateSandboxVM_def split: option.splits prod.splits)
qed

lemma create_blocks:
  assumes wf: "fc_wf g r" and cr: "fc_CreateSandbox g h i True r = (Inr info, r')"
  shows "ho_blockEgress h = None"
proof -
  have long: "\<not> length i < 12" using cr by (auto simp: fc_CreateSandbox_def)
  obtain a r1 r2 where a: "reserveSandbox g h i True r = (Inr a, r1)" "activateSandboxVM g h a r1 = (None, r2)"
    using cr long by (auto simp: fc_CreateSandbox_def split: prod.splits sum.splits option.splits)
  obtain kern d where lk: "reserve_locked g i True kern d r = (Inr a, r1)" using reserveSandbox_cases(2)[OF a(1)] by blast
  have "i \<noteq> []" using long by auto
  note R = reserve_locked_at[OF wf this lk]
  show ?thesis using activate_blocks[OF conjunct1[OF R] a(2)] R by blast
qed

lemma wake_blocks:
  assumes wf: "fc_wf g r" and i: "has_egress i a True r" and st: "fs_stopped (fc_cell r a)"
    and wk: "fc_EnsureSandboxRunning g h i r = ((res, None), r')"
  shows "ho_blockEgress h = None"
proof -
  have I: "fc_sandboxes r i = Some a" "fs_blockEgress (fc_cell r a)" using i by (auto simp: has_egress_def)
  have run: "\<not> fs_running (fc_cell r a)" using fc_wf_tracked(3)[OF wf I(1)] st by (auto simp: cell_ok_def)
  let ?r1 = "fc_upd a (\<lambda>s. s\<lparr>fs_transition := transitionWaking\<rparr>) r"
  have b: "beginTransition i transitionWaking r = (Inr a, ?r1)"
    using wk I by (auto simp: fc_EnsureSandboxRunning_def ensureSandboxRunningOnce_def beginTransition_def
        split: option.splits prod.splits if_splits)
  have "at_cell g a (claimed transitionWaking) r ?r1" by (rule beginTransition_at[OF wf b]) simp
  then have p: "at_cell g a (is_parked transitionWaking) r ?r1"
    using st by (auto simp: at_cell_def claimed_def is_parked_def)
  obtain we r2 where w: "reserveWakeSlot g a ?r1 = (we, r2)" by fastforce
  have "we = None \<and> (\<exists>r3. activateSandboxVM g h a r2 = (None, r3))"
    using wk b w st run
    by (auto simp: fc_EnsureSandboxRunning_def ensureSandboxRunningOnce_def wake_claimed_def Let_def
        split: option.splits prod.splits)
  then obtain r3 where ac: "at_cell g a (activating transitionWaking) r r2" "activateSandboxVM g h a r2 = (None, r3)"
    using reserveWakeSlot_at[OF p w] by auto
  have "fs_blockEgress (fc_cell r2 a)" using at_cellD(4)[OF ac(1)] I(2) by (simp add: only_touches_def)
  then show ?thesis using activate_blocks[OF ac] by simp
qed

lemma serve_keeps_egress:
  assumes rt: "ce_rt e = fc_rt g keys paths" and ok: "fc_ok g (cl_world s)" and i: "has_egress i a b (fw_state (cl_world s))"
    and other: "\<And>j. q = DeleteRequest j \<Longrightarrow> trimSpace j \<noteq> i" and sv: "control_serve e md q s = (ans, s')"
  shows "has_egress i a b (fw_state (cl_world s'))"
proof -
  have wf: "fc_wf g (fw_state (cl_world s))" using ok by (simp add: fc_ok_def)
  show ?thesis
  proof (cases q)
    case (CreateRequest j options)
    have "has_egress i a b r'"
      if "fc_CreateSandbox g h (trimSpace j) eg (fw_state (cl_world s)) = (res, r')" for h eg res r'
      using fc_CreateSandbox_spec[OF wf that] i by (auto simp: has_egress_def same_sandboxes_def split: sum.splits)
    then show ?thesis
      using sv rt i CreateRequest
      by (auto simp: ctl_CreateSandbox_def fc_rt_def Let_def parsed_ok split: option.splits if_splits sum.splits prod.splits)
  next
    case (StopRequest j)
    have "has_egress i a b r'" if "fc_StopSandbox h (trimSpace j) (fw_state (cl_world s)) = (se, r')" for h se r'
      using fc_StopSandbox_spec[OF wf that] changes_only_egress i by blast
    then show ?thesis
      using sv rt i StopRequest
      by (auto simp: ctl_StopSandbox_def fc_rt_def Let_def split: option.splits if_splits prod.splits)
  next
    case (DeleteRequest j)
    have "has_egress i a b r'" if d: "fc_DeleteSandbox h (trimSpace j) (fw_state (cl_world s)) = (de, r')" for h de r'
    proof (cases "de = None")
      case True
      then have "fc_sandboxes r' = (fc_sandboxes (fw_state (cl_world s)))(trimSpace j := None)"
        "\<And>l b. fc_sandboxes r' l = Some b \<Longrightarrow> fc_cell r' b = fc_cell (fw_state (cl_world s)) b"
        using fc_DeleteSandbox_spec[OF wf d] by auto
      then show ?thesis using other[OF DeleteRequest] i unfolding has_egress_def by (metis fun_upd_other)
    next
      case False
      then show ?thesis using fc_DeleteSandbox_spec[OF wf d] changes_only_egress i by blast
    qed
    then show ?thesis
      using sv rt i DeleteRequest
      by (auto simp: ctl_DeleteSandbox_def fc_rt_def Let_def split: option.splits if_splits prod.splits)
  next
    case GetCordonRequest
    then show ?thesis using sv i by (auto simp: ctl_GetCordon_def split: option.splits)
  next
    case (SetCordonRequest j c)
    then show ?thesis using sv i by (auto simp: ctl_SetCordon_def split: option.splits if_splits)
  qed
qed

lemma run_keeps_egress:
  assumes "ce_rt e = fc_rt g keys paths" "fc_ok g (cl_world s)" "has_egress i a b (fw_state (cl_world s))"
    "\<And>md j. (md, DeleteRequest j) \<in> set qs \<Longrightarrow> trimSpace j \<noteq> i" "control_run e qs s = (as, s')"
  shows "has_egress i a b (fw_state (cl_world s'))"
  using assms(2-)
proof (induction qs arbitrary: s as)
  case (Cons q qs)
  obtain md p where q: "q = (md, p)" by fastforce
  obtain ans s1 where a: "control_serve e md p s = (ans, s1)" by fastforce
  have "control_run e qs s1 = (tl as, s')" using Cons.prems(4) q a by (auto split: prod.splits)
  moreover have "fc_ok g (cl_world s1)" using fcctl.serve_refines[OF assms(1) Cons.prems(1) a] by simp
  moreover have "has_egress i a b (fw_state (cl_world s1))"
    by (rule serve_keeps_egress[OF assms(1) Cons.prems(1,2) _ a]) (use Cons.prems(3) q in auto)
  ultimately show ?case using Cons.IH Cons.prems(3) by (meson list.set_intros(2))
qed simp

lemma ctl_create_done:
  assumes rt: "ce_rt e = fc_rt g keys paths" and ok: "fc_ok g (cl_world s)"
    and json: "ParseCreateOptions (ce_json e) options = Inr egress"
    and ctl: "ctl_CreateSandbox e md i options s = (Inr reply, s')"
  obtains resp a h where "reply = CreateReply (trimSpace i) resp" "cr_AppliedCreateOptionsJson resp = marshalCreateOptions egress"
    "has_egress (trimSpace i) a (egress = ''none'') (fw_state (cl_world s'))"
    "h = fw_hosts (cl_world s) (Suc (fw_calls (cl_world s)))" "egress = ''none'' \<longrightarrow> ho_blockEgress h = None" "fc_ok g (cl_world s')"
proof -
  let ?w = "fw_step (cl_world s) (fw_state (cl_world s))"
  have h: "fw_host ?w = fw_hosts (cl_world s) (Suc (fw_calls (cl_world s)))" by (simp add: fw_host_def fw_step_def)
  have okw: "fc_ok g ?w" using ok by (simp add: fc_ok_def)
  obtain info where cr: "rt_CreateSandbox (fc_rt g keys paths) (trimSpace i) egress ?w = (Inr info, cl_world s')"
    and rep: "reply = CreateReply (trimSpace i) \<lparr>cr_ContainerIP = si_IP info, cr_AppliedCreateOptionsJson = marshalCreateOptions egress\<rparr>"
  proof -
    have R: "rt_Ready (fc_rt g keys paths) (cl_world s) = (fc_Ready paths (fw_host (cl_world s)) (fw_state (cl_world s)), ?w)"
      by (simp add: fc_rt_def)
    show thesis
      using ctl R unfolding ctl_CreateSandbox_def rt json Let_def
      by (auto split: option.splits if_splits sum.splits prod.splits intro: that)
  qed
  have C: "fc_CreateSandbox g (fw_host ?w) (trimSpace i) (egress = ''none'') (fw_state (cl_world s)) = (Inr info, fw_state (cl_world s'))"
    "fc_ok g (cl_world s')"
    using fc_rt_create[OF okw parsed_ok[OF json] cr] by simp_all
  have wf: "fc_wf g (fw_state (cl_world s))" using ok by (simp add: fc_ok_def)
  have "has_egress (trimSpace i) (fc_next (fw_state (cl_world s))) (egress = ''none'') (fw_state (cl_world s'))"
    using fc_CreateSandbox_spec[OF wf C(1)] by (simp add: has_egress_def)
  moreover have "ho_blockEgress (fw_host ?w) = None" if "egress = ''none''" using create_blocks[OF wf] C(1) that by simp
  ultimately show thesis using that[OF rep _ _ refl] C(2) h by simp
qed

text \<open>
  Claim C15. The egress a client asked for is the egress its sandbox has, for as long as it lives. When the
  runner answers a create of the API as done, the options it reports are, as the API reads them, the
  mode that was asked for; the sandbox of the runtime has that mode, and with egress \<open>none\<close> the script
  that blocks it has succeeded on the slot before. No later request other than its delete changes the mode, and
  a wake of the stopped sandbox in any slot succeeds only after the script has succeeded there again.
  (Of \<open>encoding/json\<close> it is used that both sides decode what the other encoded.)
\<close>

theorem egress_end_to_end:
  assumes rt: "ce_rt e = fc_rt g keys paths" and ok: "fc_ok g (cl_world s)"
    and mode: "egress = ''public'' \<or> egress = ''none''"
    and runner_json: "ce_json e (marshalCreateOptions egress) = JsonEgress egress"
    and api_json: "json (marshalCreateOptions egress) = JsonEgress egress"
    and create: "ctl_CreateSandbox e md i (marshalCreateOptions egress) s = (Inr reply, s1)"
    and later: "control_run e qs s1 = (as, s2)" "\<And>md j. (md, DeleteRequest j) \<in> set qs \<Longrightarrow> trimSpace j \<noteq> trimSpace i"
    and wake: "fc_EnsureSandboxRunning g h (trimSpace i) (fw_state (cl_world s2)) = ((res, None), r3)"
  shows "\<exists>resp a. reply = CreateReply (trimSpace i) resp \<and>
     ParseCreateOptions json (cr_AppliedCreateOptionsJson resp) = Inr egress \<and>
     (egress = ''none'' \<longrightarrow> ho_blockEgress (fw_hosts (cl_world s) (Suc (fw_calls (cl_world s)))) = None) \<and>
     has_egress (trimSpace i) a (egress = ''none'') (fw_state (cl_world s1)) \<and>
     has_egress (trimSpace i) a (egress = ''none'') (fw_state (cl_world s2)) \<and>
     has_egress (trimSpace i) a (egress = ''none'') r3 \<and>
     (egress = ''none'' \<and> fs_stopped (fc_cell (fw_state (cl_world s2)) a) \<longrightarrow> ho_blockEgress h = None)"
proof -
  have ne: "trimSpace (marshalCreateOptions egress) \<noteq> []" using mode by (auto simp: marshalCreateOptions_def trimSpace_def isSpace_def)
  have parse: "ParseCreateOptions f (marshalCreateOptions egress) = Inr egress"
    if "f (marshalCreateOptions egress) = JsonEgress egress" for f
    using ne that mode by (auto simp: ParseCreateOptions_def ParseEgress_def)
  obtain resp a where c: "reply = CreateReply (trimSpace i) resp" "cr_AppliedCreateOptionsJson resp = marshalCreateOptions egress"
    "has_egress (trimSpace i) a (egress = ''none'') (fw_state (cl_world s1))" "fc_ok g (cl_world s1)"
    "egress = ''none'' \<longrightarrow> ho_blockEgress (fw_hosts (cl_world s) (Suc (fw_calls (cl_world s)))) = None"
    using ctl_create_done[OF rt ok parse[of "ce_json e", OF runner_json] create] by metis
  have l: "has_egress (trimSpace i) a (egress = ''none'') (fw_state (cl_world s2))"
    by (rule run_keeps_egress[OF rt c(4,3) _ later(1)]) (rule later(2))
  have wf: "fc_wf g (fw_state (cl_world s2))" using fcctl.run_refines[OF rt c(4) later(1)] by (simp add: fc_ok_def)
  have "has_egress (trimSpace i) a (egress = ''none'') r3"
    using fc_EnsureSandboxRunning_spec[OF wf wake] changes_only_egress l by blast
  moreover have "ho_blockEgress h = None" if "egress = ''none''" "fs_stopped (fc_cell (fw_state (cl_world s2)) a)"
    using wake_blocks[OF wf _ that(2) wake] l that(1) by simp
  ultimately show ?thesis using c l parse[of json, OF api_json] by auto
qed

section \<open>Concrete sessions\<close>

definition example_metadata :: metadata where
  "example_metadata = Some (\<lambda>k. if k = ''x-api-key'' then ['' k ''] else [])"

definition example_json :: "string \<Rightarrow> json_options" where
  "example_json t = (if t = marshalCreateOptions ''none'' then JsonEgress ''none'' else JsonErr ''unexpected end'')"

definition example_control_env :: "fc_world control_env" where
  "example_control_env =
     \<lparr>ce_rt = fc_rt example_fc_config (\<lambda>_. []) [], ce_APIKeys = [''k''], ce_RunnerID = ''r'', ce_json = example_json,
      ce_ctxErr = (\<lambda>_. None), ce_encodes = True\<rparr>"

definition example_start :: fc where
  "example_start = (fc_New 2)\<lparr>fc_admissionOK := True\<rparr>"

definition example_control :: "fc_world control" where
  "example_control = \<lparr>cl_world = \<lparr>fw_state = example_start, fw_hosts = (\<lambda>_. example_host), fw_calls = 0\<rparr>, cl_cordon = cordon_New\<rparr>"

definition example_boxed :: "(rt_error + SandboxInfo) \<times> fc" where
  "example_boxed = fc_CreateSandbox example_fc_config example_host example_uuid True example_start"

lemma example_boxed_eval:
  "\<not> isl (fst example_boxed) \<and> fs_kernel (fc_cell (snd example_boxed) 0) = \<lparr>kn_size = 7, kn_modTime = 1\<rparr> \<and>
   length (fc_slots (snd example_boxed)) = 2"
  by code_simp

lemma example_boxed_stop: "fst (fc_StopSandbox example_host example_uuid (snd example_boxed)) = None"
  by code_simp

lemma example_uuid_ok: "trimSpace example_uuid = example_uuid" "isValidID example_uuid"
  by (simp add: example_uuid_def trimSpace_def isSpace_def) code_simp

lemma example_control_ok: "fc_ok example_fc_config (cl_world example_control)"
  by (simp add: example_control_def example_start_def fc_ok_def fc_quiet_def fc_New_def fc_wf_def occupied_def)

lemma example_env [simp]:
  "ce_rt example_control_env = fc_rt example_fc_config (\<lambda>_. []) []" "checkAPIKey example_control_env example_metadata = None"
  "checkAPIKey example_control_env None \<noteq> None" "ce_json example_control_env = example_json" "ce_RunnerID example_control_env = ''r''"
  by (simp_all add: example_control_env_def checkAPIKey_def example_metadata_def trimSpace_def isSpace_def)

lemma example_parse: "ParseCreateOptions example_json (marshalCreateOptions ''none'') = Inr ''none''"
  by (simp add: ParseCreateOptions_def ParseEgress_def example_json_def)
    (simp add: marshalCreateOptions_def trimSpace_def isSpace_def)

definition example_ctl_create :: "(go_error + control_reply) \<times> fc_world control" where
  "example_ctl_create = ctl_CreateSandbox example_control_env example_metadata example_uuid (marshalCreateOptions ''none'') example_control"

lemma example_ctl_create_eq:
  "\<not> isl (fst example_ctl_create)" "fw_state (cl_world (snd example_ctl_create)) = snd example_boxed"
  "fw_hosts (cl_world (snd example_ctl_create)) = (\<lambda>_. example_host)" "cl_cordon (snd example_ctl_create) = cordon_New"
proof -
  let ?w = "fw_step (cl_world example_control) example_start"
  have "rt_Ready (fc_rt example_fc_config (\<lambda>_. []) []) (cl_world example_control) = (None, ?w)"
    by (simp add: fc_rt_def fc_Ready_def example_control_def example_start_def fc_New_def)
  moreover have "rt_CreateSandbox (fc_rt example_fc_config (\<lambda>_. []) []) example_uuid ''none'' ?w
      = (fst example_boxed, fw_step ?w (snd example_boxed))"
    by (simp add: fc_rt_def BlockEgress_def example_boxed_def fw_host_def fw_step_def example_control_def split: prod.split)
  moreover obtain info where "fst example_boxed = Inr info" using example_boxed_eval by (cases "fst example_boxed") auto
  ultimately obtain rep where e: "example_ctl_create = (Inr rep, example_control\<lparr>cl_world := fw_step ?w (snd example_boxed)\<rparr>)"
    by (simp add: example_ctl_create_def ctl_CreateSandbox_def example_uuid_ok example_parse Cordoned_def
        example_control_def cordon_New_def)
  show "\<not> isl (fst example_ctl_create)" "fw_state (cl_world (snd example_ctl_create)) = snd example_boxed"
    "fw_hosts (cl_world (snd example_ctl_create)) = (\<lambda>_. example_host)" "cl_cordon (snd example_ctl_create) = cordon_New"
    unfolding e by (simp_all add: example_control_def fw_step_def)
qed

definition example_session :: "(metadata \<times> control_request) list" where
  "example_session =
     [(example_metadata, CreateRequest example_uuid (marshalCreateOptions ''none'')),
      (example_metadata, SetCordonRequest ''r'' True),
      (example_metadata, CreateRequest example_uuid []),
      (None, DeleteRequest example_uuid)]"

lemma example_session_answers:
  "\<exists>c d x y. fst (control_run example_control_env example_session example_control) = [Inr c, Inr d, Inl x, Inl y]"
proof -
  obtain c where c: "control_serve example_control_env example_metadata
      (CreateRequest example_uuid (marshalCreateOptions ''none'')) example_control = (Inr c, snd example_ctl_create)"
    using example_ctl_create_eq(1) unfolding example_ctl_create_def control_serve.simps by (metis prod.collapse sum.collapse(2))
  obtain x where x: "checkAPIKey example_control_env None = Some x" by (cases "checkAPIKey example_control_env None") simp_all
  show ?thesis
    by (simp add: example_session_def c del: control_serve.simps(1))
      (simp add: ctl_SetCordon_def ctl_CreateSandbox_def ctl_DeleteSandbox_def Cordoned_def cordon_Set_def x
        example_ctl_create_eq(4) cordon_New_def)
qed

theorem control_run_refines_witness:
  "runner_abs fc_visible (snd (control_run example_control_env example_session example_control)) = ((\<lambda>i. i = example_uuid), True)"
proof -
  obtain s' c d x y where r: "control_run example_control_env example_session example_control = ([Inr c, Inr d, Inl x, Inl y], s')"
    using example_session_answers by (metis prod.collapse)
  have "runner_abs fc_visible example_control = ((\<lambda>_. False), False)"
    by (simp add: fun_eq_iff runner_abs_def fc_visible_def example_control_def example_start_def fc_New_def Cordoned_def cordon_New_def)
  then have "runner_abs fc_visible s' = ((\<lambda>_. False)(example_uuid := True), True)"
    using control_run_refines[OF example_env(1) example_control_ok r] by (simp add: example_session_def example_uuid_ok)
  then show ?thesis using r by (simp add: fun_eq_iff)
qed

text \<open>The cordon is looked at first: a cordoned runner refuses for capacity a sandbox that it holds.\<close>

lemma cordoned_refuses_held:
  "\<exists>s err. fc_visible (cl_world s) example_uuid \<and>
     fst (ctl_CreateSandbox example_control_env example_metadata example_uuid [] s) = Inl err \<and> IsCapacityRefusal (Some err)"
proof -
  let ?s = "(snd example_ctl_create)\<lparr>cl_cordon := \<lparr>cs_cordoned = True, cs_pending = True\<rparr>\<rparr>"
  have "ce_encodes example_control_env" by (simp add: example_control_env_def)
  then have "fst (ctl_CreateSandbox example_control_env example_metadata example_uuid [] ?s) =
      Inl (CapacityRefusal True ''runner is cordoned'') \<and> IsCapacityRefusal (Some (CapacityRefusal True ''runner is cordoned''))"
    by (simp add: ctl_CreateSandbox_def Cordoned_def refusal_recognised)
  moreover have "fc_visible (cl_world ?s) example_uuid"
  proof -
    have "control_serve example_control_env example_metadata (CreateRequest example_uuid (marshalCreateOptions ''none''))
        example_control = (fst example_ctl_create, snd example_ctl_create)" by (simp add: example_ctl_create_def)
    from fcctl.serve_refines[OF example_env(1) example_control_ok this] example_ctl_create_eq(1)
    show ?thesis by (cases "fst example_ctl_create") (simp_all add: runner_abs_def example_uuid_ok)
  qed
  ultimately show ?thesis by blast
qed

definition example_later :: "(go_error + control_reply) list \<times> fc_world control" where
  "example_later = control_run example_control_env [(example_metadata, StopRequest example_uuid)] (snd example_ctl_create)"

lemma example_later_eq:
  "fw_state (cl_world (snd example_later)) = snd (fc_StopSandbox example_host example_uuid (snd example_boxed))"
  by (simp add: example_later_def ctl_StopSandbox_def example_uuid_ok fc_rt_def fw_host_def example_ctl_create_eq
      split: prod.split option.split)

lemma example_boxed_map:
  "fc_wf example_fc_config (snd example_boxed)" "fc_sandboxes (snd example_boxed) = [example_uuid \<mapsto> 0]"
proof -
  have "fc_wf example_fc_config example_start" using example_control_ok by (simp add: fc_ok_def example_control_def)
  then have "fc_wf example_fc_config (snd example_boxed) \<and> fc_sandboxes (snd example_boxed) = [example_uuid \<mapsto> 0]"
    using fc_CreateSandbox_spec[of example_fc_config example_start example_host example_uuid True "fst example_boxed" "snd example_boxed"]
      example_boxed_eval
    by (auto simp: example_boxed_def example_start_def fc_New_def split: sum.splits)
  then show "fc_wf example_fc_config (snd example_boxed)" "fc_sandboxes (snd example_boxed) = [example_uuid \<mapsto> 0]" by simp_all
qed

lemma example_later_wakes:
  "fs_stopped (fc_cell (fw_state (cl_world (snd example_later))) 0)"
  "snd (fst (fc_EnsureSandboxRunning example_fc_config example_host example_uuid (fw_state (cl_world (snd example_later))))) = None"
proof -
  let ?r = "snd (fc_StopSandbox example_host example_uuid (snd example_boxed))"
  have "fc_StopSandbox example_host example_uuid (snd example_boxed) = (None, ?r)"
    using example_boxed_stop by (metis prod.collapse)
  from fc_StopSandbox_spec[OF example_boxed_map(1) this]
  have P: "fc_wf example_fc_config ?r" "fc_sandboxes ?r = [example_uuid \<mapsto> 0]" "stop_done (fc_cell ?r 0)"
    "fs_transition (fc_cell ?r 0) = transitionNone" "length (fc_slots ?r) = 2"
    "fs_kernel (fc_cell ?r 0) = \<lparr>kn_size = 7, kn_modTime = 1\<rparr>"
    using example_boxed_map(2) example_boxed_eval by (auto simp: changes_only_def)
  show "fs_stopped (fc_cell (fw_state (cl_world (snd example_later))) 0)"
    using P(3) by (simp add: example_later_eq stop_done_def)
  have "{a. fc_tracked ?r a \<and> fs_slot (fc_cell ?r a) \<ge> 0} = {}"
    using P(2,3) by (auto simp: fc_tracked_def stop_done_def split: if_splits)
  then have "occupiedSlotsLocked ?r = 0" unfolding occupied_count[OF P(1)] by (simp only: card.empty)
  moreover have "able_host example_host" by (simp add: able_host_def example_host_def)
  moreover have "verifyKernelPin example_fc_config example_host \<lparr>kn_size = 7, kn_modTime = 1\<rparr> = None"
    by (simp add: verifyKernelPin_def example_host_def)
  ultimately show "snd (fst (fc_EnsureSandboxRunning example_fc_config example_host example_uuid (fw_state (cl_world (snd example_later))))) = None"
    unfolding example_later_eq using P by (intro fc_wake_live[where a = 0]) (auto simp: stop_done_def)
qed

definition example_woken :: "(WakeResult \<times> rt_error option) \<times> fc" where
  "example_woken = fc_EnsureSandboxRunning example_fc_config example_host example_uuid (fw_state (cl_world (snd example_later)))"

theorem egress_end_to_end_witness:
  "\<exists>a. has_egress example_uuid a True (fw_state (cl_world (snd example_ctl_create))) \<and>
       has_egress example_uuid a True (snd example_woken) \<and> ho_blockEgress example_host = None"
proof -
  obtain reply where "example_ctl_create = (Inr reply, snd example_ctl_create)"
    using example_ctl_create_eq(1) by (metis prod.collapse sum.collapse(2))
  then have c: "ctl_CreateSandbox example_control_env example_metadata example_uuid (marshalCreateOptions ''none'') example_control
      = (Inr reply, snd example_ctl_create)"
    unfolding example_ctl_create_def .
  have l: "control_run example_control_env [(example_metadata, StopRequest example_uuid)] (snd example_ctl_create)
      = (fst example_later, snd example_later)"
    unfolding example_later_def by (rule prod.collapse [symmetric])
  have w: "fc_EnsureSandboxRunning example_fc_config example_host (trimSpace example_uuid) (fw_state (cl_world (snd example_later)))
      = ((fst (fst example_woken), None), snd example_woken)"
    unfolding example_uuid_ok(1) example_woken_def using example_later_wakes(2) by (metis prod.collapse)
  have j: "example_json (marshalCreateOptions ''none'') = JsonEgress ''none''" by (simp add: example_json_def)
  then have j': "ce_json example_control_env (marshalCreateOptions ''none'') = JsonEgress ''none''" by simp
  show ?thesis
    using egress_end_to_end[where json = example_json, OF example_env(1) example_control_ok _ j' j c l _ w]
    by (auto simp: example_uuid_ok(1) example_control_def)
qed

end
