(* ===== verification/Spec2Isabelle.thy ===== *)
theory Spec2Isabelle
  imports Sandbox_Isolation Idle_Sweep Runner_Picks Exec_Proxy Fc_Interleaving Fc_Network Runner_Control
begin

text \<open>
  A verification library for the n8n sandbox service (the Go code under \<open>src/\<close>).

  \<^bold>\<open>The program.\<close> The service runs untrusted code in sandboxes. It has three processes. The \<^emph>\<open>API\<close>
  (\<open>internal/api\<close>) is what clients talk to: it authenticates tenants, keeps the sandboxes, tenants and
  keys in a store, knows the runners from the reports they send, places every create on a runner,
  forwards requests for a sandbox to the runner that has it, and sweeps idle sandboxes. A \<^emph>\<open>runner\<close>
  (\<open>internal/runner\<close>) keeps sandboxes on one host by means of a runtime; its HTTP side finds, and when
  need be wakes, the sandbox of a request and proxies it to the \<^emph>\<open>daemon\<close> (\<open>internal/daemon\<close>) in the
  guest, which runs commands and streams their output as numbered events. The runtime modelled in full
  is the Firecracker one (\<open>internal/runner/runtime/firecracker.ee\<close>): a fixed number of slots, each with
  its own network namespace, address and port, and a state machine per sandbox.

  \<^bold>\<open>How it is modelled.\<close> A struct is a \<open>record\<close> with the fields of the source under a short prefix, an
  enumeration a \<open>datatype\<close>, a table the list of its rows. An operation is a function that takes and
  returns the state it works on. Errors are values. What the world answers (the driver, a runner, the
  host, the shell's exit codes, the clock) is an argument: a record of faults or of answers, so that
  a theorem over all of them covers every failure. Where the code shares pointers (the states of
  sandboxes in the Firecracker runtime, the entries of the tenant quota) there is an explicit store of
  cells. Where operations run concurrently under a lock, the code between two releases of the lock is
  one step of an \<open>inductive\<close> relation, with a program counter per thread, and properties are invariants
  of every reachable state. Integers are HOL integers where the code stays in range, and wrap
  explicitly (\<open>wrap64\<close>, \<open>u64\<close>, 32-bit words) where it need not.

  \<^bold>\<open>The theories, and what they show.\<close>

  \<^item> \<open>Prelude\<close>: durations and times as Go has them, 64-bit wrap-around, strings, row lists.
  \<^item> \<open>Limits\<close> (\<open>internal/limits\<close>): the keyed limiter; exact admission for every interleaving. Its
    contract is the locale \<open>slot_pool\<close>.
  \<^item> \<open>Sandbox_Store\<close> (\<open>api/store\<close>, SQLite): every operation as a transaction with the faults that can
    hit it; ids stay unique and references valid whatever happens, quotas are never exceeded. Its
    contract to the handlers is the locale \<open>row_store\<close>.
  \<^item> \<open>Runner_Registry\<close> and \<open>Runner_Picks\<close> (\<open>api/registry\<close>): the memory and the Postgres registry behind
    the locale \<open>runner_picker\<close>; fairness of round robin; picks and heartbeats on Postgres as a step
    relation with row locks: no two picks in progress hold the same runner, and what \<open>SKIP LOCKED\<close> hides.
  \<^item> \<open>Placement\<close> (\<open>api/placement.go\<close>, \<open>api/runnerctl/refusal.go\<close>): the retry loop, its bounds, and that a
    retryable error means that nothing was created.
  \<^item> \<open>Tenant_Quota\<close> (\<open>api/tenant_quota.go\<close>): the reservation protocol of concurrent creates as a step
    relation; the quota holds in every reachable state.
  \<^item> \<open>Key_Cache\<close> (\<open>api/apikey_cache.go\<close>): lookups, invalidations and time as a step relation; a revoked
    key stays out, answers are fresh, the cache is bounded.
  \<^item> \<open>Idle_Policy\<close> and \<open>Idle_Sweep\<close> (\<open>api/ttl.go\<close>): the idle windows with their overflow, the pool that
    calls the runners as a step relation, the three sweeps; only sandboxes that are refused anyway are
    removed, a dead runner costs one call, and one configuration never reclaims what it refuses.
  \<^item> \<open>Http\<close> and \<open>Auth\<close> (\<open>api/errors.go\<close>, \<open>middleware_limits.go\<close>, \<open>middleware_auth.go\<close>,
    \<open>handlers_tenants.go\<close>, \<open>internal/probes\<close>): answers, the tenant limit, roles; an identity is only
    what the key says, and a minted key works until it is revoked.
  \<^item> \<open>Sandbox_Handlers\<close> and \<open>Sandbox_Isolation\<close> (\<open>api/handlers.go\<close>): list, get, create, delete and the
    proxy; a 201 is a tracked sandbox, a failed create is followed by a delete on its runner, whose
    failure is logged, creates with an id are idempotent, tenants neither learn of nor touch each other's
    sandboxes. While a create waits for a runner, and while a forwarded request is at its runner, others
    change the store in any way (\<open>cx_meanwhile_db\<close>, \<open>px_meanwhile\<close>); the theorems say what they need of
    them. The two statements that mark a sandbox active run back to back in the model.
  \<^item> \<open>Mux\<close>: \<open>net/http\<close> headers, path cleaning, route dispatch and the decoding of path segments as the services use them.
  \<^item> \<open>Runner_Proxy\<close> (\<open>internal/runner\<close>, \<open>internal/sandboxproxy\<close>): the runtime contract as the locale
    \<open>sandbox_runtime\<close>, waking, the proxy, the per-sandbox limit, authentication.
  \<^item> \<open>Utf8\<close>, \<open>Wire_Format\<close>, \<open>Stream_Lines\<close>, \<open>Execution_Log\<close>, \<open>Daemon_Api\<close> (\<open>internal/daemon\<close>): runes,
    JSON events, cutting a byte stream into events without losing any, the trimming log and its
    followers, the execution routes. The log refines the full history.
  \<^item> \<open>Exec_Proxy\<close> (\<open>runner/exec_proxy.go\<close>): the runner's retry loop composed with the daemon; every
    event is delivered exactly once, and all of them if one of four connections holds.
  \<^item> \<open>Fc_Runtime\<close>, \<open>Fc_Lifecycle\<close>, \<open>Fc_Interleaving\<close> (\<open>firecracker.ee/runtime.go\<close>, \<open>stop_wake.go\<close>,
    \<open>crash.go\<close>, \<open>network_wirer.go\<close>, \<open>disk.go\<close>): every operation of the runtime; its invariant; the laws
    of \<open>sandbox_runtime\<close> discharged for it; and any number of operations interleaved at the lock:
    slots are exclusive, a snapshot is only restored onto its own disk, every operation ends. Shutdown is
    modelled as an operation (\<open>Fc_Runtime\<close>) but is no step of the interleaving: those properties are of a
    runtime that is not being shut down. A guest whose kill failed is taken to be gone, as the code does.
  \<^item> \<open>Runner_Control\<close> (\<open>runner/grpc_control.go\<close>, \<open>runner/cordon\<close>): the requests of the API to a runner, over
    the locale \<open>sandbox_control\<close>, which extends \<open>sandbox_runtime\<close> and is interpreted on the Firecracker
    runtime; a session of requests refines a set of sandboxes with a cordon flag, and the egress asked for is the egress
    the sandbox has for as long as it lives.
  \<^item> \<open>Fc_Network\<close> (\<open>firecracker.ee/network\<close>, \<open>reconcile.go\<close>, \<open>netpolicy\<close>, \<open>shellquote\<close>): addresses of
    slots, the scripts, quoting, and what the packet filter forwards for a guest. Packets to the
    namespace's own addresses are delivered there and are not subject to these rules.

  \<^bold>\<open>Bounds and fuel.\<close> No definition needs fuel: loops are structural recursions or have termination
  proofs (the placement loop by its attempts, the resume loop of the execution proxy by its retries,
  the sweep by its candidates). Interleavings are unbounded in length and in the number of threads;
  \<open>fc_operations_finish\<close> bounds what a thread still has to do by thirteen steps.

  \<^bold>\<open>Not modelled.\<close> Generated gRPC code, metrics, logs, traces and certificate files; the start of the
  processes and the registration stream of a runner; the Docker runtime, which translates the runtime
  contract into requests to the Docker engine; the
  commands to jailer and Firecracker, whose results are arguments; the Postgres store, which issues
  the operations of \<open>Sandbox_Store\<close> as SQL for another engine; the file operations of the daemon, for
  which a model of the guest's file system would be needed; the handlers of the API that decode a body
  and make one call to the store or the registry (tenants, runners, the scaler); the
  TypeScript SDK, the playground, charts and scripts.
\<close>

end
